(* ===== verification/A2PM_Prelude.thy ===== *)
theory A2PM_Prelude
  imports Complex_Main "HOL-Library.Word" "HOL-Library.Multiset"
begin

text \<open>
  What every component of the A2PM model shares: the named collections of facts, the outcomes
  a C program can have besides returning (a fault), sequencing of computations that may fault,
  the first-match search of an array, and the deletion of an array entry by overwriting it with
  the last one, which both registries of the program use
  (\<open>vm_data_set[g][i] = vm_data_set[g][--current_vms[g]]\<close>).
\<close>

named_theorems fl_eval \<open>equations that evaluate floating point terms on numerals\<close>
named_theorems res_simps \<open>equations of the fault monad\<close>
named_theorems tbl_simps \<open>equations of the virtual machine tables\<close>

section \<open>Faults\<close>

text \<open>
  The ways in which a C function of the program can fail to return. The program is compiled
  without any run-time check, so the first six are undefined behaviour in the C standard; the
  model stops there. \<open>Exit_Failure\<close> and \<open>Abort\<close> are calls of \<open>exit(EXIT_FAILURE)\<close>,
  \<open>exit(1)\<close> and \<open>abort()\<close>.
\<close>

datatype fault =
    Null_Deref
  | Out_Of_Bounds
  | Uninit_Read
  | Div_By_Zero
  | Use_After_Free
  | Double_Free
  | Assert_Failed
  | Exit_Failure
  | Abort

text \<open>The C types \<open>int\<close> and \<open>unsigned int\<close> are 32 bits wide, \<open>long\<close> 64.\<close>

type_synonym c_int = "32 word"
type_synonym c_long = "64 word"

text \<open>\<open>struct timeval\<close>, the answer of \<open>gettimeofday\<close>.\<close>

record timeval =
  tv_sec :: c_long
  tv_usec :: c_long

type_synonym 'a res = "fault + 'a"

fun rbind :: "'a res \<Rightarrow> ('a \<Rightarrow> 'b res) \<Rightarrow> 'b res" where
  "rbind (Inl e) k = Inl e"
| "rbind (Inr x) k = k x"

fun is_ok :: "'a res \<Rightarrow> bool" where
  "is_ok (Inl e) = False"
| "is_ok (Inr x) = True"

lemma rbind_eq_Inr [res_simps]:
  "rbind r k = Inr y \<longleftrightarrow> (\<exists>x. r = Inr x \<and> k x = Inr y)"
  by (cases r) auto

lemma rbind_eq_Inl [res_simps]:
  "rbind r k = Inl e \<longleftrightarrow> r = Inl e \<or> (\<exists>x. r = Inr x \<and> k x = Inl e)"
  by (cases r) auto

lemma rbind_assoc: "rbind (rbind r k) l = rbind r (\<lambda>x. rbind (k x) l)"
  by (cases r) auto

lemma is_ok_iff: "is_ok r \<longleftrightarrow> (\<exists>x. r = Inr x)"
  by (cases r) auto

lemma rbind_cong [fundef_cong]:
  "r = r' \<Longrightarrow> (\<And>x. r' = Inr x \<Longrightarrow> k x = k' x) \<Longrightarrow> rbind r k = rbind r' k'"
  by (cases r') auto

text \<open>Sequencing of steps that may fault, or wait for ever.\<close>

fun wait_bind :: "'a res option \<Rightarrow> ('a \<Rightarrow> 'b res option) \<Rightarrow> 'b res option" where
  "wait_bind None k = None"
| "wait_bind (Some (Inl e)) k = Some (Inl e)"
| "wait_bind (Some (Inr x)) k = k x"

lemma wait_bind_Inr:
  "wait_bind r k = Some (Inr y) \<longleftrightarrow> (\<exists>x. r = Some (Inr x) \<and> k x = Some (Inr y))"
  by (cases "(r, k)" rule: wait_bind.cases) auto

lemma wait_bind_Inl:
  "wait_bind r k = Some (Inl e) \<longleftrightarrow> r = Some (Inl e) \<or> (\<exists>x. r = Some (Inr x) \<and> k x = Some (Inl e))"
  by (cases "(r, k)" rule: wait_bind.cases) auto

section \<open>Signed wrap-around\<close>

text \<open>What an \<open>int\<close> makes of a mathematical integer.\<close>

definition wrap32 :: "int \<Rightarrow> int" where
  "wrap32 n = (n + 2 ^ 31) mod 2 ^ 32 - 2 ^ 31"

lemma wrap32_id: "- (2 ^ 31) \<le> n \<Longrightarrow> n < 2 ^ 31 \<Longrightarrow> wrap32 n = n"
  by (simp add: wrap32_def)

lemma sint_word_of_int_32: "sint (word_of_int n :: c_int) = wrap32 n"
  by (simp add: sint_sbintrunc' signed_take_bit_eq_take_bit_shift take_bit_eq_mod wrap32_def)

section \<open>First match in an array\<close>

text \<open>
  \<open>for(i = 0; i < n; i++) if(P(a[i])) { ...; break; }\<close>: the index of the first entry that
  satisfies the test, if there is one.
\<close>

fun find_index :: "('a \<Rightarrow> bool) \<Rightarrow> 'a list \<Rightarrow> nat option" where
  "find_index P [] = None"
| "find_index P (x # xs) = (if P x then Some 0 else map_option Suc (find_index P xs))"

lemma find_index_None_iff: "find_index P xs = None \<longleftrightarrow> (\<forall>x \<in> set xs. \<not> P x)"
  by (induction xs) auto

lemma find_index_SomeD:
  "find_index P xs = Some i \<Longrightarrow> i < length xs \<and> P (xs ! i) \<and> (\<forall>j < i. \<not> P (xs ! j))"
proof (induction xs arbitrary: i)
  case Nil
  then show ?case by simp
next
  case (Cons x xs)
  show ?case
  proof (cases "P x")
    case True
    with Cons.prems show ?thesis by auto
  next
    case False
    with Cons.prems obtain k where k: "find_index P xs = Some k" and i: "i = Suc k" by auto
    from Cons.IH [OF k] False show ?thesis
      unfolding i by (auto simp: less_Suc_eq_0_disj)
  qed
qed

lemma find_index_eq_SomeI:
  "i < length xs \<Longrightarrow> P (xs ! i) \<Longrightarrow> (\<And>j. j < i \<Longrightarrow> \<not> P (xs ! j)) \<Longrightarrow> find_index P xs = Some i"
proof (induction xs arbitrary: i)
  case (Cons x xs)
  show ?case
  proof (cases i)
    case 0
    with Cons.prems show ?thesis by simp
  next
    case (Suc k)
    have "find_index P xs = Some k"
      using Cons.prems Suc by (intro Cons.IH) fastforce+
    moreover have "\<not> P x" using Cons.prems(3) [of 0] Suc by simp
    ultimately show ?thesis using Suc by simp
  qed
qed simp

section \<open>Deletion by swapping in the last entry\<close>

definition swap_del :: "nat \<Rightarrow> 'a list \<Rightarrow> 'a list" where
  "swap_del i xs = butlast (xs[i := last xs])"

lemma length_swap_del [simp]: "length (swap_del i xs) = length xs - 1"
  by (simp add: swap_del_def)

lemma mset_swap_del:
  assumes "i < length xs"
  shows "mset (swap_del i xs) = mset xs - {#xs ! i#}"
proof -
  have ne: "xs \<noteq> []" using assms by auto
  have last: "last (xs[i := last xs]) = last xs"
    using ne assms by (cases "i = length xs - 1") (auto simp: last_conv_nth nth_list_update)
  have ne': "xs[i := last xs] \<noteq> []" using ne by simp
  have "mset (xs[i := last xs]) = add_mset (last xs) (mset (swap_del i xs))"
    unfolding swap_del_def using append_butlast_last_id [OF ne'] last
    by (metis add.right_neutral add_mset_add_single mset.simps(1) mset.simps(2) mset_append)
  moreover have "mset (xs[i := last xs]) = add_mset (last xs) (mset xs - {#xs ! i#})"
    using assms by (simp add: mset_update)
  ultimately show ?thesis by simp
qed

lemma set_swap_del_subset: "i < length xs \<Longrightarrow> set (swap_del i xs) \<subseteq> set xs"
  by (metis diff_subset_eq_self mset_swap_del set_mset_mono set_mset_mset)

lemma swap_del_nth:
  "i < length xs \<Longrightarrow> j < length xs - 1 \<Longrightarrow>
   swap_del i xs ! j = (if j = i then last xs else xs ! j)"
  by (auto simp: swap_del_def nth_butlast)

lemma distinct_submset:
  assumes "mset ys \<subseteq># mset xs" and "distinct xs"
  shows "distinct ys"
  unfolding distinct_count_atmost_1
proof
  fix a
  have le: "count (mset ys) a \<le> count (mset xs) a"
    using assms(1) by (rule mset_subset_eq_count)
  moreover have "count (mset xs) a \<le> 1"
    using assms(2) by (simp add: distinct_count_atmost_1)
  ultimately have "count (mset ys) a \<le> 1" by linarith
  moreover have "a \<in> set ys \<Longrightarrow> count (mset ys) a \<noteq> 0"
    by (simp add: count_mset_0_iff)
  moreover have "a \<notin> set ys \<Longrightarrow> count (mset ys) a = 0"
    by (simp add: count_mset_0_iff)
  ultimately show "count (mset ys) a = (if a \<in> set ys then 1 else 0)"
    using le_Suc_eq by (cases "a \<in> set ys") (simp_all del: count_mset_0_iff)
qed

lemma distinct_swap_del: "distinct xs \<Longrightarrow> i < length xs \<Longrightarrow> distinct (swap_del i xs)"
  by (rule distinct_submset [of _ xs]) (simp_all add: mset_swap_del)

lemma swap_del_map: "i < length xs \<Longrightarrow> swap_del i (map f xs) = map f (swap_del i xs)"
  unfolding swap_del_def by (cases "xs = []") (auto simp: map_butlast map_update last_map)

text \<open>
  The array that backs a table is longer than the live prefix: deletion overwrites slot \<open>i\<close>
  with slot \<open>n - 1\<close> and only shrinks the count. On the live prefix this is \<open>swap_del\<close>.
\<close>

lemma take_update_last:
  "i < n \<Longrightarrow> n \<le> length a \<Longrightarrow> take (n - 1) (a[i := a ! (n - 1)]) = swap_del i (take n a)"
proof -
  assume i: "i < n" and n: "n \<le> length a"
  have "last (take n a) = a ! (n - 1)"
    using i n by (subst last_conv_nth) (auto simp: min_def)
  then have "swap_del i (take n a) = butlast (take n (a[i := a ! (n - 1)]))"
    by (simp add: swap_del_def take_update_swap)
  also have "\<dots> = take (n - 1) (a[i := a ! (n - 1)])"
    using n by (simp add: butlast_take)
  finally show ?thesis by simp
qed

section \<open>Invariants of step relations\<close>

text \<open>
  What a component with threads promises: its initial states satisfy the invariant and every step of
  every thread keeps it, so that every execution does.
\<close>

locale safe_system =
  fixes start :: "'s \<Rightarrow> bool"
    and move :: "'s \<Rightarrow> 's \<Rightarrow> bool"
    and inv :: "'s \<Rightarrow> bool"
  assumes start_inv: "start s \<Longrightarrow> inv s"
    and move_inv: "move s s' \<Longrightarrow> inv s \<Longrightarrow> inv s'"
begin

lemma moves_inv: "move\<^sup>*\<^sup>* s s' \<Longrightarrow> inv s \<Longrightarrow> inv s'"
  by (induction rule: rtranclp_induct) (auto intro: move_inv)

lemma always_inv: "start s \<Longrightarrow> move\<^sup>*\<^sup>* s s' \<Longrightarrow> inv s'"
  by (blast intro: moves_inv start_inv)

end

end
