(* ===== verification/C_Float.thy ===== *)
theory C_Float
  imports A2PM_Prelude
begin

text \<open>
  The floating point arithmetic of C that the program computes with: \<open>float\<close> is IEEE 754
  binary32 and \<open>double\<close> binary64, rounded to nearest, ties to even, with gradual underflow,
  overflow to an infinity and NaN; every operation rounds its exact result once. A finite nonzero
  value is the real number it denotes, so the arithmetic evaluates on numerals (\<open>fl_eval\<close>).
  NaN payloads and the status flags, which no line of the program reads, are left out.

  The laws of rounding are a locale, \<open>rounding\<close>, interpreted on both formats: values of the
  format are fixed points, rounding is monotone and keeps the sign. From these follows what the
  components use: a comparison of a rounded result with a value of the format decides as the
  comparison of the exact result, up to equality.
\<close>

section \<open>Powers of two and binary exponents\<close>

definition pow2 :: "int \<Rightarrow> real" where
  "pow2 e = (if 0 \<le> e then 2 ^ nat e else 1 / 2 ^ nat (- e))"

lemma pow2_powr: "pow2 e = 2 powr of_int e"
proof (cases "0 \<le> e")
  case True
  then show ?thesis by (simp add: pow2_def flip: powr_realpow)
next
  case False
  then have "(2::real) ^ nat (- e) = 2 powr (- real_of_int e)"
    by (simp flip: powr_realpow)
  with False show ?thesis by (simp add: pow2_def powr_minus_divide)
qed

lemma pow2_pos [simp]: "0 < pow2 e" by (simp add: pow2_powr)
lemma pow2_nonneg [simp]: "0 \<le> pow2 e" by (simp add: pow2_powr)
lemma pow2_neq0 [simp]: "pow2 e \<noteq> 0" by (simp add: pow2_powr)
lemma pow2_0 [simp]: "pow2 0 = 1" by (simp add: pow2_def)
lemma pow2_1 [simp]: "pow2 1 = 2" by (simp add: pow2_def)

lemma pow2_add: "pow2 (a + b) = pow2 a * pow2 b"
  by (simp add: pow2_powr powr_add)

lemma pow2_diff: "pow2 (a - b) = pow2 a / pow2 b"
  by (simp add: pow2_powr powr_diff)

lemma pow2_Suc: "pow2 (a + 1) = 2 * pow2 a"
  by (simp add: pow2_add)

lemma pow2_le_iff [simp]: "pow2 a \<le> pow2 b \<longleftrightarrow> a \<le> b"
  by (simp add: pow2_powr)

lemma pow2_less_iff [simp]: "pow2 a < pow2 b \<longleftrightarrow> a < b"
  by (simp add: pow2_powr)

lemma pow2_of_nat: "pow2 (int n) = 2 ^ n"
  by (simp add: pow2_def)

lemma pow2_int: "0 \<le> e \<Longrightarrow> pow2 e = of_int (2 ^ nat e)"
  by (simp add: pow2_def)

text \<open>The number of bits of a natural number, evaluated on numerals bit by bit.\<close>

fun nbits :: "nat \<Rightarrow> nat" where
  "nbits n = (if n = 0 then 0 else Suc (nbits (n div 2)))"

declare nbits.simps [simp del]

lemma nbits_0 [simp]: "nbits 0 = 0" by (simp add: nbits.simps)

lemma nbits_bounds: "0 < n \<Longrightarrow> 2 ^ (nbits n - 1) \<le> n \<and> n < 2 ^ nbits n \<and> 0 < nbits n"
proof (induction n rule: nbits.induct)
  case (1 n)
  show ?case
  proof (cases "n = 1")
    case True
    then show ?thesis by (simp add: nbits.simps [of "Suc 0"])
  next
    case False
    with "1.prems" have pos: "0 < n div 2" by (simp add: div_greater_zero_iff)
    with "1.IH" "1.prems" have IH: "2 ^ (nbits (n div 2) - 1) \<le> n div 2"
      "n div 2 < 2 ^ nbits (n div 2)" "0 < nbits (n div 2)" by auto
    obtain k where k: "nbits (n div 2) = Suc k" using IH(3) gr0_implies_Suc by blast
    have "2 * 2 ^ k \<le> n" using IH(1) k by simp
    moreover have "n < 2 * (2 * 2 ^ k)" using IH(2) k by simp
    ultimately show ?thesis using "1.prems" by (simp add: nbits.simps [of n] k)
  qed
qed

lemma nbits_numerals [fl_eval]:
  "nbits (Suc 0) = 1"
  "nbits (numeral Num.One) = 1"
  "nbits (numeral (Num.Bit0 n)) = Suc (nbits (numeral n))"
  "nbits (numeral (Num.Bit1 n)) = Suc (nbits (numeral n))"
  by (subst nbits.simps, simp; fail | subst nbits.simps, subst nbits.simps, simp)+

text \<open>The binary exponent of a positive real, \<open>\<lfloor>log 2 q\<rfloor>\<close>, computed on integers.\<close>

definition ilog2 :: "real \<Rightarrow> int" where
  "ilog2 q = (if 1 \<le> q then int (nbits (nat \<lfloor>q\<rfloor>)) - 1
              else - int (nbits (nat (\<lceil>1 / q\<rceil> - 1))))"

lemma pow2_nbits:
  assumes "0 < n"
  shows "pow2 (int (nbits n) - 1) \<le> real n" "real n + 1 \<le> pow2 (int (nbits n))"
proof -
  obtain k where k: "nbits n = Suc k"
    using nbits_bounds [OF assms] gr0_implies_Suc by blast
  have b: "2 ^ k \<le> n" "Suc n \<le> 2 ^ nbits n"
    using nbits_bounds [OF assms] by (simp_all add: k)
  have "real (2 ^ k) \<le> real n" using b(1) by (simp only: of_nat_le_iff)
  then show "pow2 (int (nbits n) - 1) \<le> real n" by (simp add: pow2_of_nat k)
  have "real (Suc n) \<le> real (2 ^ nbits n)" using b(2) by (simp only: of_nat_le_iff)
  then show "real n + 1 \<le> pow2 (int (nbits n))" by (simp add: pow2_of_nat)
qed

lemma ilog2_ge1:
  assumes "1 \<le> q"
  shows "pow2 (ilog2 q) \<le> q \<and> q < pow2 (ilog2 q + 1)"
proof -
  define n where "n = nat \<lfloor>q\<rfloor>"
  have pos: "0 < n" using assms by (simp add: n_def)
  have fl: "real n \<le> q" "q < real n + 1" using assms unfolding n_def by linarith+
  have "ilog2 q = int (nbits n) - 1" using assms by (simp add: ilog2_def n_def)
  then show ?thesis using pow2_nbits [OF pos] fl by simp
qed

lemma ilog2_lt1:
  assumes "0 < q" "q < 1"
  shows "pow2 (ilog2 q) \<le> q \<and> q < pow2 (ilog2 q + 1)"
proof -
  define c where "c = nat (\<lceil>1 / q\<rceil> - 1)"
  have inv: "1 < 1 / q" using assms by simp
  have pos: "0 < c" using inv unfolding c_def by linarith
  have c: "real c < 1 / q" "1 / q \<le> real c + 1" using inv unfolding c_def by linarith+
  have e: "ilog2 q = 0 - int (nbits c)" "ilog2 q + 1 = 0 - (int (nbits c) - 1)"
    using assms by (simp_all add: ilog2_def c_def)
  have "1 / q \<le> pow2 (int (nbits c))" "pow2 (int (nbits c) - 1) < 1 / q"
    using pow2_nbits [OF pos] c by linarith+
  then have "pow2 0 / pow2 (int (nbits c)) \<le> q" "q < pow2 0 / pow2 (int (nbits c) - 1)"
    using assms by (simp_all add: field_simps)
  then have "pow2 (ilog2 q) \<le> q" "q < pow2 (ilog2 q + 1)"
    by (simp_all only: e(2) pow2_diff [of 0, symmetric], simp_all only: e(1))
  then show ?thesis by simp
qed

lemma ilog2_bounds: "0 < q \<Longrightarrow> pow2 (ilog2 q) \<le> q" "0 < q \<Longrightarrow> q < pow2 (ilog2 q + 1)"
  using ilog2_ge1 [of q] ilog2_lt1 [of q] by (cases "1 \<le> q"; simp)+

lemma ilog2_less: "0 < q \<Longrightarrow> q < pow2 e \<Longrightarrow> ilog2 q < e"
  using ilog2_bounds(1) [of q] by (meson order_le_less_trans pow2_less_iff)

lemma ilog2_ge: "0 < q \<Longrightarrow> pow2 e \<le> q \<Longrightarrow> e \<le> ilog2 q"
  using ilog2_bounds(2) [of q] by (metis order_le_less_trans pow2_less_iff zle_add1_eq_le)

lemma ilog2_mono: "0 < q \<Longrightarrow> q \<le> r \<Longrightarrow> ilog2 q \<le> ilog2 r"
  using ilog2_bounds(1) [of q] by (intro ilog2_ge) auto

section \<open>Rounding an integer multiple\<close>

definition rne_at :: "int \<Rightarrow> real \<Rightarrow> int" where
  "rne_at n q =
     (if q - of_int n < 1 / 2 then n
      else if q - of_int n > 1 / 2 then n + 1
      else if even n then n else n + 1)"

definition rne :: "real \<Rightarrow> int" where
  "rne q = rne_at \<lfloor>q\<rfloor> q"

lemma rne_of_int [simp]: "rne (of_int n) = n"
  by (simp add: rne_def rne_at_def)

lemma rne_error: "\<bar>of_int (rne q) - q\<bar> \<le> 1 / 2"
  unfolding rne_def rne_at_def using floor_correct [of q] by (auto split: if_splits)

lemma rne_floor_ceiling: "rne q = \<lfloor>q\<rfloor> \<or> rne q = \<lfloor>q\<rfloor> + 1"
  by (auto simp: rne_def rne_at_def)

lemma rne_mono:
  assumes "q \<le> r"
  shows "rne q \<le> rne r"
proof (cases "\<lfloor>q\<rfloor> = \<lfloor>r\<rfloor>")
  case True
  then show ?thesis using assms by (auto simp: rne_def rne_at_def)
next
  case False
  then have "\<lfloor>q\<rfloor> + 1 \<le> \<lfloor>r\<rfloor>" using floor_mono [OF assms] by simp
  then show ?thesis using rne_floor_ceiling [of q] rne_floor_ceiling [of r] by linarith
qed

lemma rne_minus: "rne (- q) = - rne q"
proof (cases "q = of_int \<lfloor>q\<rfloor>")
  case True
  then show ?thesis by (metis of_int_minus rne_of_int)
next
  case False
  then have "of_int \<lfloor>q\<rfloor> < q" using of_int_floor_le [of q] by linarith
  then have fl: "\<lfloor>- q\<rfloor> = - \<lfloor>q\<rfloor> - 1" by linarith
  show ?thesis unfolding rne_def rne_at_def fl by (auto simp: field_simps)
qed

lemma rne_between: "of_int a \<le> q \<Longrightarrow> a \<le> rne q" "q \<le> of_int a \<Longrightarrow> rne q \<le> a"
  using rne_mono [of "of_int a" q] rne_mono [of q "of_int a"] by simp_all

section \<open>Formats and rounding to a format\<close>

record fmt =
  prec :: nat
  emax :: int

definition binary32 :: fmt where
  "binary32 = \<lparr>prec = 24, emax = 127\<rparr>"

definition binary64 :: fmt where
  "binary64 = \<lparr>prec = 53, emax = 1023\<rparr>"

definition emin :: "fmt \<Rightarrow> int" where
  "emin f = 1 - emax f"

text \<open>The exponent of the unit in the last place of a real, and the real rounded to it.\<close>

definition ulp_exp :: "fmt \<Rightarrow> real \<Rightarrow> int" where
  "ulp_exp f q = max (ilog2 \<bar>q\<bar>) (emin f) - (int (prec f) - 1)"

definition rnd_at :: "real \<Rightarrow> int \<Rightarrow> real" where
  "rnd_at q u = of_int (rne (q / pow2 u)) * pow2 u"

definition rnd :: "fmt \<Rightarrow> real \<Rightarrow> real" where
  "rnd f q = (if q = 0 then 0 else rnd_at q (ulp_exp f q))"

definition representable :: "fmt \<Rightarrow> real \<Rightarrow> bool" where
  "representable f x \<longleftrightarrow>
     (\<exists>m e. \<bar>m\<bar> \<le> 2 ^ prec f \<and> emin f - (int (prec f) - 1) \<le> e \<and> x = of_int m * pow2 e)"

lemma rnd_at_mono: "q \<le> r \<Longrightarrow> rnd_at q u \<le> rnd_at r u"
  by (simp add: rnd_at_def rne_mono divide_right_mono)

lemma rnd_at_error: "\<bar>rnd_at q u - q\<bar> \<le> pow2 u / 2"
proof -
  have "rnd_at q u - q = (of_int (rne (q / pow2 u)) - q / pow2 u) * pow2 u"
    by (simp add: rnd_at_def algebra_simps)
  then have "\<bar>rnd_at q u - q\<bar> = \<bar>of_int (rne (q / pow2 u)) - q / pow2 u\<bar> * pow2 u"
    by (simp add: abs_mult)
  also have "\<dots> \<le> 1 / 2 * pow2 u"
    using rne_error by (intro mult_right_mono) auto
  finally show ?thesis by simp
qed

lemma rnd_minus: "rnd f (- q) = - rnd f q"
  by (simp add: rnd_def rnd_at_def ulp_exp_def rne_minus)

lemma rnd_0 [simp]: "rnd f 0 = 0" by (simp add: rnd_def)

lemma rnd_error: "\<bar>rnd f q - q\<bar> \<le> pow2 (ulp_exp f q) / 2"
  using rnd_at_error by (simp add: rnd_def)

lemma rnd_sign: "0 \<le> q \<Longrightarrow> 0 \<le> rnd f q" "q \<le> 0 \<Longrightarrow> rnd f q \<le> 0"
proof -
  show "0 \<le> q \<Longrightarrow> 0 \<le> rnd f q"
    using rne_between(1) [of 0] by (simp add: rnd_def rnd_at_def)
  show "q \<le> 0 \<Longrightarrow> rnd f q \<le> 0"
    using rne_between(2) [of _ 0] by (simp add: rnd_def rnd_at_def mult_le_0_iff divide_nonpos_pos)
qed

text \<open>A multiple of the unit that is no larger than a power of two of the format.\<close>

lemma rnd_at_pow2:
  assumes "u \<le> e"
  shows "pow2 e \<le> q \<Longrightarrow> pow2 e \<le> rnd_at q u" "q \<le> pow2 e \<Longrightarrow> rnd_at q u \<le> pow2 e"
proof -
  define k :: int where "k = 2 ^ nat (e - u)"
  have k: "pow2 e / pow2 u = of_int k"
    using assms pow2_int [of "e - u"] by (simp add: pow2_diff k_def)
  then have e: "pow2 e = of_int k * pow2 u" by (simp add: field_simps)
  show "pow2 e \<le> q \<Longrightarrow> pow2 e \<le> rnd_at q u"
    unfolding e rnd_at_def
    by (intro mult_right_mono) (simp_all add: rne_between(1) le_divide_eq)
  show "q \<le> pow2 e \<Longrightarrow> rnd_at q u \<le> pow2 e"
    unfolding e rnd_at_def
    by (intro mult_right_mono) (simp_all add: rne_between(2) divide_le_eq)
qed

lemma rnd_mono_pos:
  assumes "0 < q" "q \<le> r" "0 < prec f"
  shows "rnd f q \<le> rnd f r"
proof (cases "ulp_exp f q = ulp_exp f r")
  case True
  then show ?thesis using assms rnd_at_mono by (simp add: rnd_def)
next
  case False
  let ?p = "int (prec f) - 1"
  have p: "0 \<le> ?p" using assms(3) by simp
  have "ilog2 q \<le> ilog2 r" using assms by (intro ilog2_mono)
  with False assms have lt: "max (ilog2 q) (emin f) < ilog2 r" "emin f < ilog2 r"
    by (auto simp: ulp_exp_def max_def split: if_splits)
  have uq: "ulp_exp f q = max (ilog2 q) (emin f) - ?p" and ur: "ulp_exp f r = ilog2 r - ?p"
    using assms lt by (simp_all add: ulp_exp_def)
  have "q \<le> pow2 (ilog2 r)"
    using ilog2_bounds(2) [OF assms(1)] lt(1)
    by (meson less_le_not_le less_le_trans max.strict_boundedE pow2_le_iff zless_imp_add1_zle)
  then have "rnd f q \<le> pow2 (ilog2 r)"
    using assms p lt uq rnd_at_pow2(2) [of "ulp_exp f q" "ilog2 r" q] by (simp add: rnd_def)
  also have "\<dots> \<le> rnd f r"
    using assms p ur ilog2_bounds(1) [of r] rnd_at_pow2(1) [of "ulp_exp f r" "ilog2 r" r]
    by (simp add: rnd_def)
  finally show ?thesis .
qed

lemma rnd_mono:
  assumes "q \<le> r" "0 < prec f"
  shows "rnd f q \<le> rnd f r"
proof -
  consider "0 < q" | "q \<le> 0" "0 \<le> r" | "r < 0" by linarith
  then show ?thesis
  proof cases
    case 1
    then show ?thesis using assms by (rule rnd_mono_pos)
  next
    case 2
    then show ?thesis using rnd_sign(2) [of q f] rnd_sign(1) [of r f] by linarith
  next
    case 3
    then have "rnd f (- r) \<le> rnd f (- q)" using assms by (intro rnd_mono_pos) auto
    then show ?thesis by (simp add: rnd_minus)
  qed
qed

lemma rnd_at_of_int:
  assumes "u \<le> e"
  shows "rnd_at (of_int m * pow2 e) u = of_int m * pow2 e"
proof -
  have "pow2 e / pow2 u = of_int (2 ^ nat (e - u))"
    using assms pow2_int [of "e - u"] by (simp add: pow2_diff)
  then have "of_int m * pow2 e / pow2 u = real_of_int (m * 2 ^ nat (e - u))"
    by (metis of_int_mult times_divide_eq_right)
  moreover have "real_of_int (m * 2 ^ nat (e - u)) * pow2 u = of_int m * pow2 e"
    using calculation by (auto simp: field_simps)
  ultimately show ?thesis by (simp only: rnd_at_def rne_of_int)
qed

lemma representable_strict:
  assumes "representable f x" "0 < prec f"
  obtains m e where "\<bar>m\<bar> < 2 ^ prec f" "emin f - (int (prec f) - 1) \<le> e" "x = of_int m * pow2 e"
proof -
  from assms(1) obtain m e where me: "\<bar>m\<bar> \<le> 2 ^ prec f" "emin f - (int (prec f) - 1) \<le> e"
    "x = of_int m * pow2 e" by (auto simp: representable_def)
  show ?thesis
  proof (cases "\<bar>m\<bar> = 2 ^ prec f")
    case False
    with me show ?thesis by (intro that [of m e]) auto
  next
    case True
    obtain k where k: "prec f = Suc k" using assms(2) gr0_implies_Suc by blast
    have "m = sgn m * \<bar>m\<bar>" by (simp add: mult_sgn_abs)
    also have "\<bar>m\<bar> = 2 ^ k * 2" using True k by simp
    finally have "m = sgn m * 2 ^ k * 2" by simp
    then have "real_of_int m = real_of_int (sgn m * 2 ^ k * 2)" by (rule arg_cong)
    then have "real_of_int m = of_int (sgn m * 2 ^ k) * 2" by simp
    then have "x = of_int (sgn m * 2 ^ k) * 2 * pow2 e"
      unfolding me(3) by simp
    then have "x = of_int (sgn m * 2 ^ k) * pow2 (e + 1)"
      unfolding pow2_Suc by simp
    moreover have "\<bar>sgn m * 2 ^ k\<bar> < (2::int) ^ prec f"
      using k by (simp add: abs_mult abs_sgn_eq)
    ultimately show ?thesis using me by (intro that [of "sgn m * 2 ^ k" "e + 1"]) auto
  qed
qed

lemma rnd_fixed:
  assumes "representable f x" "0 < prec f"
  shows "rnd f x = x"
proof (cases "x = 0")
  case False
  from assms obtain m e where m: "\<bar>m\<bar> < 2 ^ prec f"
    and e: "emin f - (int (prec f) - 1) \<le> e" and x: "x = of_int m * pow2 e"
    by (rule representable_strict)
  have "\<bar>real_of_int m\<bar> < pow2 (int (prec f))"
    using m by (metis of_int_abs of_int_less_iff of_int_numeral of_int_power pow2_of_nat)
  then have "\<bar>x\<bar> < pow2 (int (prec f) + e)" by (simp add: x abs_mult pow2_add)
  then have "ilog2 \<bar>x\<bar> < int (prec f) + e" using False by (intro ilog2_less) auto
  then have "ulp_exp f x \<le> e" using e by (simp add: ulp_exp_def)
  then show ?thesis using False by (simp add: rnd_def x rnd_at_of_int)
qed simp

lemma representable_0: "representable f 0"
  unfolding representable_def
  by (intro exI [of _ 0] exI [of _ "emin f - (int (prec f) - 1)"]) simp

lemma rnd_representable: "0 < prec f \<Longrightarrow> representable f (rnd f q)"
proof (cases "q = 0")
  case True
  then show ?thesis by (simp add: representable_0)
next
  case False
  assume p: "0 < prec f"
  let ?E = "max (ilog2 \<bar>q\<bar>) (emin f)"
  let ?u = "ulp_exp f q"
  have "\<bar>q\<bar> \<le> pow2 (?E + 1)"
    using ilog2_bounds(2) [of "\<bar>q\<bar>"] False
    by (metis add_le_cancel_right less_eq_real_def max.cobounded1 order_trans pow2_le_iff zero_less_abs_iff)
  also have "\<dots> = pow2 (int (prec f)) * pow2 ?u"
    by (simp add: ulp_exp_def flip: pow2_add)
  finally have "\<bar>q / pow2 ?u\<bar> \<le> of_int (2 ^ prec f)"
    by (simp add: pow2_of_nat divide_le_eq)
  then have "q / pow2 ?u \<le> of_int (2 ^ prec f)" "of_int (- (2 ^ prec f)) \<le> q / pow2 ?u"
    unfolding of_int_minus by linarith+
  then have "rne (q / pow2 ?u) \<le> 2 ^ prec f" "- (2 ^ prec f) \<le> rne (q / pow2 ?u)"
    by (simp_all only: rne_between)
  then show ?thesis using False
    unfolding representable_def rnd_def rnd_at_def
    by (intro exI [of _ "rne (q / pow2 ?u)"] exI [of _ "?u"]) (auto simp: ulp_exp_def)
qed

text \<open>
  The contract of rounding, and what a client may conclude from it about a comparison with a
  value of the format.
\<close>

locale rounding =
  fixes round :: "real \<Rightarrow> real"
    and value_of :: "real \<Rightarrow> bool"
  assumes round_value: "value_of (round q)"
    and round_fixed: "value_of x \<Longrightarrow> round x = x"
    and round_mono: "q \<le> r \<Longrightarrow> round q \<le> round r"
    and value_0: "value_of 0"
begin

lemma round_idem: "round (round q) = round q"
  by (simp add: round_value round_fixed)

lemma round_ge: "value_of c \<Longrightarrow> c \<le> q \<Longrightarrow> c \<le> round q"
  using round_mono [of c q] round_fixed [of c] by simp

lemma round_le: "value_of c \<Longrightarrow> q \<le> c \<Longrightarrow> round q \<le> c"
  using round_mono [of q c] round_fixed [of c] by simp

lemma round_less: "value_of c \<Longrightarrow> round q < c \<Longrightarrow> q < c"
  using round_ge [of c q] by linarith

lemma round_nonneg: "0 \<le> q \<Longrightarrow> 0 \<le> round q"
  by (rule round_ge [OF value_0])

lemma round_between: "value_of a \<Longrightarrow> value_of b \<Longrightarrow> a \<le> q \<Longrightarrow> q \<le> b \<Longrightarrow> a \<le> round q \<and> round q \<le> b"
  by (simp add: round_ge round_le)

end

lemma prec_pos [simp]: "0 < prec binary32" "0 < prec binary64"
  by (simp_all add: binary32_def binary64_def)

interpretation b32: rounding "rnd binary32" "representable binary32"
  by unfold_locales (simp_all add: rnd_representable rnd_fixed rnd_mono representable_0)

interpretation b64: rounding "rnd binary64" "representable binary64"
  by unfold_locales (simp_all add: rnd_representable rnd_fixed rnd_mono representable_0)

section \<open>Values\<close>

text \<open>
  A value: NaN, an infinity or a zero with its sign (\<open>True\<close> is negative), or a finite nonzero
  real. \<open>round_fl f q\<close> is the value of format \<open>f\<close> that an operation with the exact nonzero
  result \<open>q\<close> returns.
\<close>

datatype fl = FNaN | FInf bool | FZero bool | Fin real

fun fval :: "fl \<Rightarrow> real" where
  "fval (Fin x) = x"
| "fval _ = 0"

fun is_num :: "fl \<Rightarrow> bool" where
  "is_num (Fin x) = True"
| "is_num (FZero s) = True"
| "is_num _ = False"

definition pack :: "fmt \<Rightarrow> bool \<Rightarrow> real \<Rightarrow> fl" where
  "pack f s r = (if r = 0 then FZero s else if pow2 (emax f + 1) \<le> \<bar>r\<bar> then FInf s else Fin r)"

definition round_fl :: "fmt \<Rightarrow> real \<Rightarrow> fl" where
  "round_fl f q = pack f (q < 0) (rnd f q)"

fun fneg :: "fl \<Rightarrow> fl" where
  "fneg FNaN = FNaN"
| "fneg (FInf s) = FInf (\<not> s)"
| "fneg (FZero s) = FZero (\<not> s)"
| "fneg (Fin x) = Fin (- x)"

text \<open>\<open>fabs\<close> of the C library.\<close>

fun fabs :: "fl \<Rightarrow> fl" where
  "fabs FNaN = FNaN"
| "fabs (FInf s) = FInf False"
| "fabs (FZero s) = FZero False"
| "fabs (Fin x) = Fin \<bar>x\<bar>"

fun fadd :: "fmt \<Rightarrow> fl \<Rightarrow> fl \<Rightarrow> fl" where
  "fadd f FNaN y = FNaN"
| "fadd f x FNaN = FNaN"
| "fadd f (FInf a) (FInf b) = (if a = b then FInf a else FNaN)"
| "fadd f (FInf a) y = FInf a"
| "fadd f x (FInf b) = FInf b"
| "fadd f (FZero a) (FZero b) = FZero (a \<and> b)"
| "fadd f (FZero a) y = y"
| "fadd f x (FZero b) = x"
| "fadd f (Fin x) (Fin y) = (if x + y = 0 then FZero False else round_fl f (x + y))"

definition fsub :: "fmt \<Rightarrow> fl \<Rightarrow> fl \<Rightarrow> fl" where
  "fsub f x y = fadd f x (fneg y)"

fun fneg_sign :: "fl \<Rightarrow> bool" where
  "fneg_sign FNaN = False"
| "fneg_sign (FInf s) = s"
| "fneg_sign (FZero s) = s"
| "fneg_sign (Fin x) = (x < 0)"

fun fmul :: "fmt \<Rightarrow> fl \<Rightarrow> fl \<Rightarrow> fl" where
  "fmul f FNaN y = FNaN"
| "fmul f x FNaN = FNaN"
| "fmul f (FInf a) (FZero b) = FNaN"
| "fmul f (FZero a) (FInf b) = FNaN"
| "fmul f (FInf a) y = FInf (a \<noteq> fneg_sign y)"
| "fmul f x (FInf b) = FInf (fneg_sign x \<noteq> b)"
| "fmul f (FZero a) y = FZero (a \<noteq> fneg_sign y)"
| "fmul f x (FZero b) = FZero (fneg_sign x \<noteq> b)"
| "fmul f (Fin x) (Fin y) = round_fl f (x * y)"

fun fdiv :: "fmt \<Rightarrow> fl \<Rightarrow> fl \<Rightarrow> fl" where
  "fdiv f FNaN y = FNaN"
| "fdiv f x FNaN = FNaN"
| "fdiv f (FInf a) (FInf b) = FNaN"
| "fdiv f (FZero a) (FZero b) = FNaN"
| "fdiv f (FInf a) y = FInf (a \<noteq> fneg_sign y)"
| "fdiv f x (FInf b) = FZero (fneg_sign x \<noteq> b)"
| "fdiv f (FZero a) y = FZero (a \<noteq> fneg_sign y)"
| "fdiv f x (FZero b) = FInf (fneg_sign x \<noteq> b)"
| "fdiv f (Fin x) (Fin y) = round_fl f (x / y)"

text \<open>The comparisons \<open><\<close> and \<open>==\<close> of C: false on NaN, the two zeros equal.\<close>

fun flt :: "fl \<Rightarrow> fl \<Rightarrow> bool" where
  "flt FNaN y = False"
| "flt x FNaN = False"
| "flt (FInf a) (FInf b) = (a \<and> \<not> b)"
| "flt (FInf a) y = a"
| "flt x (FInf b) = (\<not> b)"
| "flt x y = (fval x < fval y)"

fun feq :: "fl \<Rightarrow> fl \<Rightarrow> bool" where
  "feq FNaN y = False"
| "feq x FNaN = False"
| "feq (FInf a) (FInf b) = (a = b)"
| "feq (FInf a) y = False"
| "feq x (FInf b) = False"
| "feq x y = (fval x = fval y)"

text \<open>Conversions: from an integer type, and from one floating type to the other.\<close>

definition f_of_int :: "fmt \<Rightarrow> int \<Rightarrow> fl" where
  "f_of_int f n = (if n = 0 then FZero False else round_fl f (of_int n))"

fun fconv :: "fmt \<Rightarrow> fl \<Rightarrow> fl" where
  "fconv f (Fin x) = round_fl f x"
| "fconv f x = x"

text \<open>A decimal constant of the source, \<open>n / 10 ^ d\<close>, as the compiler stores it.\<close>

definition f_lit :: "fmt \<Rightarrow> int \<Rightarrow> nat \<Rightarrow> fl" where
  "f_lit f n d = (if n = 0 then FZero False else round_fl f (of_int n / 10 ^ d))"

lemmas [fl_eval] = binary32_def binary64_def emin_def pow2_def ilog2_def rne_def rne_at_def
  ulp_exp_def rnd_at_def rnd_def pack_def round_fl_def fsub_def f_of_int_def f_lit_def

section \<open>Values of a format\<close>

definition finite_in :: "fmt \<Rightarrow> real \<Rightarrow> bool" where
  "finite_in f x \<longleftrightarrow> x \<noteq> 0 \<and> representable f x \<and> \<bar>x\<bar> < pow2 (emax f + 1)"

fun fl_in :: "fmt \<Rightarrow> fl \<Rightarrow> bool" where
  "fl_in f (Fin x) = finite_in f x"
| "fl_in f _ = True"

lemma fl_in_round [simp]: "0 < prec f \<Longrightarrow> fl_in f (round_fl f q)"
  by (auto simp: round_fl_def pack_def finite_in_def rnd_representable)

lemma representable_minus: "representable f x \<Longrightarrow> representable f (- x)"
  unfolding representable_def by (metis abs_minus_cancel minus_mult_left of_int_minus)

lemma fl_in_neg [simp]: "fl_in f (fneg x) \<longleftrightarrow> fl_in f x"
  using representable_minus [of f "fval x"] representable_minus [of f "- fval x"]
  by (cases x) (auto simp: finite_in_def)

lemma fl_in_ops:
  assumes "0 < prec f"
  shows "fl_in f x \<Longrightarrow> fl_in f y \<Longrightarrow> fl_in f (fadd f x y)"
    and "fl_in f x \<Longrightarrow> fl_in f y \<Longrightarrow> fl_in f (fsub f x y)"
    and "fl_in f (fmul f x y)"
    and "fl_in f (fdiv f x y)"
    and "fl_in f (fconv f x)"
    and "fl_in f (f_of_int f n)"
    and "fl_in f (f_lit f n d)"
proof -
  have add: "fl_in f x \<Longrightarrow> fl_in f y \<Longrightarrow> fl_in f (fadd f x y)" for x y
    using assms by (cases x; cases y) (auto split: if_splits)
  then show "fl_in f x \<Longrightarrow> fl_in f y \<Longrightarrow> fl_in f (fadd f x y)" .
  show "fl_in f x \<Longrightarrow> fl_in f y \<Longrightarrow> fl_in f (fsub f x y)"
    by (simp add: fsub_def add)
  show "fl_in f (fmul f x y)" using assms by (cases x; cases y) auto
  show "fl_in f (fdiv f x y)" using assms by (cases x; cases y) auto
  show "fl_in f (fconv f x)" using assms by (cases x) auto
  show "fl_in f (f_of_int f n)" "fl_in f (f_lit f n d)"
    using assms by (simp_all add: f_of_int_def f_lit_def)
qed

text \<open>Rounding does nothing to a value of the format, in particular to a small integer.\<close>

lemma round_fl_fixed: "0 < prec f \<Longrightarrow> finite_in f x \<Longrightarrow> round_fl f x = Fin x"
  by (simp add: finite_in_def round_fl_def pack_def rnd_fixed)

lemma representable_int:
  assumes "\<bar>n\<bar> \<le> 2 ^ prec f" "emin f < int (prec f)"
  shows "representable f (of_int n)"
  unfolding representable_def using assms by (intro exI [of _ n] exI [of _ 0]) auto

lemma f_of_int_exact:
  assumes "\<bar>n\<bar> \<le> 2 ^ 53" "n \<noteq> 0"
  shows "f_of_int binary64 n = Fin (of_int n)"
proof -
  have "representable binary64 (of_int n)"
    using assms by (intro representable_int) (simp_all add: binary64_def emin_def)
  moreover have "\<bar>real_of_int n\<bar> < pow2 (emax binary64 + 1)"
  proof -
    have "\<bar>real_of_int n\<bar> \<le> of_int (2 ^ 53)" using assms by (metis of_int_abs of_int_le_iff)
    also have "\<dots> = pow2 53" by (simp add: pow2_def)
    also have "\<dots> < pow2 (emax binary64 + 1)" by (simp add: binary64_def)
    finally show ?thesis .
  qed
  ultimately have "finite_in binary64 (of_int n)" using assms by (simp add: finite_in_def)
  then show ?thesis using assms by (simp add: f_of_int_def round_fl_fixed)
qed

lemma fval_f_of_int: "\<bar>n\<bar> \<le> 2 ^ 53 \<Longrightarrow> fval (f_of_int binary64 n) = of_int n"
  by (cases "n = 0") (simp_all add: f_of_int_exact, simp add: f_of_int_def)

lemma is_num_f_of_int: "\<bar>n\<bar> \<le> 2 ^ 53 \<Longrightarrow> is_num (f_of_int binary64 n)"
  by (cases "n = 0") (simp_all add: f_of_int_exact, simp add: f_of_int_def)

lemma flt_fval: "is_num x \<Longrightarrow> is_num y \<Longrightarrow> flt x y \<longleftrightarrow> fval x < fval y"
  by (cases x; cases y) auto

lemma fval_pack: "\<bar>r\<bar> < pow2 (emax f + 1) \<Longrightarrow> fval (pack f s r) = r \<and> is_num (pack f s r)"
  by (auto simp: pack_def)

lemma fval_fsub:
  assumes "is_num x" "is_num y" "fl_in f x" "fl_in f y" "0 < prec f"
    and "\<bar>rnd f (fval x - fval y)\<bar> < pow2 (emax f + 1)"
  shows "fval (fsub f x y) = rnd f (fval x - fval y) \<and> is_num (fsub f x y)"
  using assms
  by (cases x; cases y)
     (auto simp: fsub_def round_fl_def fval_pack finite_in_def rnd_fixed rnd_minus)

lemma fadd_comm: "fadd f x y = fadd f y x"
  by (cases x; cases y) (auto simp: add.commute)

lemma fmul_comm: "fmul f x y = fmul f y x"
  by (cases x; cases y) (auto simp: mult.commute)

section \<open>Error of one operation\<close>

text \<open>
  Where the exact result is below \<open>2 ^ e\<close>, an operation is off by at most half a unit of that
  binade, and the result is below \<open>2 ^ e\<close> too, so that nothing overflows.
\<close>

lemma rnd_error_le:
  assumes "\<bar>q\<bar> < pow2 e" "emin f < e"
  shows "\<bar>rnd f q - q\<bar> \<le> pow2 (e - int (prec f) - 1)"
proof (cases "q = 0")
  case False
  then have "ilog2 \<bar>q\<bar> < e" using assms by (intro ilog2_less) auto
  then have "ulp_exp f q \<le> e - int (prec f)" using assms by (simp add: ulp_exp_def)
  then have "pow2 (ulp_exp f q) / 2 \<le> pow2 (e - int (prec f)) / 2" by simp
  also have "\<dots> = pow2 (e - int (prec f) - 1)" by (simp add: pow2_diff)
  finally show ?thesis using rnd_error [of f q] by linarith
qed simp

text \<open>The relative form, with the absolute term that underflow adds.\<close>

lemma rnd_error_rel: "\<bar>rnd f q - q\<bar> \<le> \<bar>q\<bar> * pow2 (- int (prec f)) + pow2 (emin f - int (prec f))"
proof (cases "q = 0 \<or> ilog2 \<bar>q\<bar> < emin f")
  case True
  then have "q \<noteq> 0 \<Longrightarrow> pow2 (ulp_exp f q) / 2 = pow2 (emin f - int (prec f))"
    by (simp add: ulp_exp_def pow2_diff)
  moreover have "0 \<le> \<bar>q\<bar> * pow2 (- int (prec f))" by simp
  ultimately show ?thesis using rnd_error [of f q]
    by (cases "q = 0") (simp, metis add_increasing order_trans)
next
  case False
  then have "pow2 (ulp_exp f q) / 2 = pow2 (ilog2 \<bar>q\<bar>) * pow2 (- int (prec f))"
    by (simp add: ulp_exp_def pow2_diff flip: pow2_add)
  also have "\<dots> \<le> \<bar>q\<bar> * pow2 (- int (prec f))"
    using False ilog2_bounds(1) [of "\<bar>q\<bar>"] by (intro mult_right_mono) auto
  finally show ?thesis using rnd_error [of f q] pow2_pos [of "emin f - int (prec f)"] by linarith
qed

lemma representable_pow2:
  assumes "emin f - (int (prec f) - 1) \<le> e"
  shows "representable f (pow2 e)"
  unfolding representable_def using assms by (intro exI [of _ 1] exI [of _ e]) auto

lemma rnd_abs_le:
  assumes "\<bar>q\<bar> \<le> pow2 e" "emin f \<le> e" "0 < prec f"
  shows "\<bar>rnd f q\<bar> \<le> pow2 e"
proof -
  have fx: "rnd f (pow2 e) = pow2 e" "rnd f (- pow2 e) = - pow2 e"
    using assms by (simp_all add: rnd_minus rnd_fixed representable_pow2)
  have "rnd f q \<le> rnd f (pow2 e)" "rnd f (- pow2 e) \<le> rnd f q"
    using assms by (intro rnd_mono; simp add: abs_le_iff)+
  then show ?thesis unfolding fx by (simp add: abs_le_iff)
qed

lemma fval_round_fl:
  assumes "\<bar>q\<bar> \<le> pow2 e" "emin f \<le> e" "e \<le> emax f" "0 < prec f"
  shows "fval (round_fl f q) = rnd f q" "is_num (round_fl f q)"
proof -
  have "\<bar>rnd f q\<bar> \<le> pow2 e" using assms by (intro rnd_abs_le)
  also have "\<dots> < pow2 (emax f + 1)" using assms by simp
  finally show "fval (round_fl f q) = rnd f q" "is_num (round_fl f q)"
    by (simp_all add: round_fl_def fval_pack)
qed

lemma fval_fmul:
  assumes "is_num x" "is_num y" "\<bar>fval x * fval y\<bar> \<le> pow2 e" "emin f \<le> e" "e \<le> emax f" "0 < prec f"
  shows "fval (fmul f x y) = rnd f (fval x * fval y)" "is_num (fmul f x y)"
  using assms by (cases x; cases y; simp add: fval_round_fl)+

lemma fval_fadd:
  assumes "is_num x" "is_num y" "fl_in f x" "fl_in f y"
    "\<bar>fval x + fval y\<bar> \<le> pow2 e" "emin f \<le> e" "e \<le> emax f" "0 < prec f"
  shows "fval (fadd f x y) = rnd f (fval x + fval y)" "is_num (fadd f x y)"
  using assms by (cases x; cases y; simp add: fval_round_fl finite_in_def rnd_fixed)+

lemma fval_fneg [simp]: "fval (fneg x) = - fval x" "is_num (fneg x) = is_num x"
  by (cases x; simp)+

text \<open>Values of the smaller format are values of the larger one.\<close>

lemma representable_widen:
  assumes "representable f x" "prec f \<le> prec g" "emin g - int (prec g) \<le> emin f - int (prec f)"
  shows "representable g x"
proof -
  from assms(1) obtain m e where m: "\<bar>m\<bar> \<le> 2 ^ prec f" and e: "emin f - (int (prec f) - 1) \<le> e"
    and x: "x = of_int m * pow2 e" by (auto simp: representable_def)
  have "(2::int) ^ prec f \<le> 2 ^ prec g" using assms(2) by (rule power_increasing) simp
  with m have "\<bar>m\<bar> \<le> 2 ^ prec g" by linarith
  moreover have "emin g - (int (prec g) - 1) \<le> e" using e assms(3) by linarith
  ultimately show ?thesis using x unfolding representable_def by blast
qed

lemma fl_in_float_double: "fl_in binary32 x \<Longrightarrow> fl_in binary64 x"
proof (cases x)
  case (Fin q)
  assume "fl_in binary32 x"
  then have "representable binary32 q" "q \<noteq> 0" "\<bar>q\<bar> < pow2 128"
    by (simp_all add: Fin finite_in_def binary32_def)
  moreover from this(3) have "\<bar>q\<bar> < pow2 1024"
    by (rule less_le_trans) (simp only: pow2_le_iff)
  ultimately show ?thesis
    using representable_widen [of binary32 q binary64]
    by (simp add: Fin finite_in_def binary32_def binary64_def emin_def)
qed auto

end
