(* ===== verification/Ml_Model.thy ===== *)
theory Ml_Model
  imports C_Float
begin

text \<open>
  The prediction of a virtual machine's time to crash: \<open>controller/ml_model.c\<close> on the structures
  of \<open>controller/system_features.h\<close>. Both predictors fill a \<open>system_features_with_slopes\<close> that
  is an uninitialised local variable of the C code, so the model takes its indeterminate initial
  contents as an argument (\<open>stack\<close>); the fields the C code never assigns keep them.
\<close>

section \<open>Feature records\<close>

record system_features =
  time :: fl
  n_th :: c_int
  mem_total :: c_int
  mem_used :: c_int
  mem_free :: c_int
  mem_shared :: c_int
  mem_buffers :: c_int
  mem_cached :: c_int
  swap_total :: c_int
  swap_used :: c_int
  swap_free :: c_int
  cpu_user :: fl
  cpu_nice :: fl
  cpu_system :: fl
  cpu_iowait :: fl
  cpu_steal :: fl
  cpu_idle :: fl

record system_features_with_slopes =
  gen_time :: fl
  n_th_slope :: fl
  mem_used_slope :: fl
  mem_free_slope :: fl
  swap_used_slope :: fl
  swap_free_slope :: fl
  cpu_user_slope :: fl
  cpu_system_slope :: fl
  cpu_idle_slope :: fl
  s_n_th :: c_int
  s_mem_total :: c_int
  s_mem_used :: c_int
  s_mem_free :: c_int
  s_mem_shared :: c_int
  s_mem_buffers :: c_int
  s_mem_cached :: c_int
  s_swap_total :: c_int
  s_swap_used :: c_int
  s_swap_free :: c_int
  s_cpu_user :: fl
  s_cpu_nice :: fl
  s_cpu_system :: fl
  s_cpu_iowait :: fl
  s_cpu_steal :: fl
  s_cpu_idle :: fl

text \<open>An \<open>int\<close> where C converts it to \<open>double\<close> or to \<open>float\<close>.\<close>

definition int_to_double :: "c_int \<Rightarrow> fl" where
  "int_to_double w = f_of_int binary64 (sint w)"

definition int_to_float :: "c_int \<Rightarrow> fl" where
  "int_to_float w = f_of_int binary32 (sint w)"

section \<open>Linear regression\<close>

text \<open>
  The products and the sum are computed in \<open>double\<close>, because the coefficients are double
  constants, from left to right; the \<open>return\<close> rounds the sum to \<open>float\<close>.
\<close>

abbreviation dmul :: "fl \<Rightarrow> fl \<Rightarrow> fl" where "dmul \<equiv> fmul binary64"
abbreviation dadd :: "fl \<Rightarrow> fl \<Rightarrow> fl" where "dadd \<equiv> fadd binary64"
abbreviation dlit :: "int \<Rightarrow> nat \<Rightarrow> fl" where "dlit \<equiv> f_lit binary64"

definition regression_terms :: "system_features_with_slopes \<Rightarrow> fl list" where
  "regression_terms f =
     [dmul (dlit 5929 4) (gen_time f),
      dmul (fneg (dlit 2645 4)) (n_th_slope f),
      dmul (fneg (dlit 2 4)) (mem_used_slope f),
      dmul (dlit 2 4) (mem_free_slope f),
      dmul (dlit 4242 4) (cpu_user_slope f),
      dmul (fneg (dlit 9884 4)) (cpu_idle_slope f),
      dmul (fneg (dlit 459 3)) (int_to_double (s_n_th f)),
      dmul (dlit 2 4) (int_to_double (s_mem_free f)),
      dmul (fneg (dlit 13 4)) (int_to_double (s_mem_buffers f)),
      dmul (dlit 1 4) (int_to_double (s_mem_cached f)),
      dmul (fneg (dlit 4 4)) (int_to_double (s_swap_used f)),
      dmul (dlit 11191 4) (s_cpu_user f),
      dmul (dlit 9517 4) (s_cpu_system f),
      dmul (dlit 8971 4) (s_cpu_idle f),
      dlit 2428923 4]"

definition calculate_linear_regression :: "system_features_with_slopes \<Rightarrow> fl" where
  "calculate_linear_regression f =
     fconv binary32 (foldl dadd (hd (regression_terms f)) (tl (regression_terms f)))"

section \<open>The predictors\<close>

abbreviation ssub :: "fl \<Rightarrow> fl \<Rightarrow> fl" where "ssub \<equiv> fsub binary32"

definition get_predicted_mttf ::
  "system_features_with_slopes \<Rightarrow> int \<Rightarrow> system_features \<Rightarrow> system_features \<Rightarrow> system_features \<Rightarrow> fl"
where
  "get_predicted_mttf stack ml_model last_features current_features init_features =
     calculate_linear_regression (stack
       \<lparr>gen_time := ssub (time current_features) (time last_features),
        n_th_slope := int_to_float (n_th current_features - n_th last_features),
        mem_used_slope := int_to_float (mem_used current_features - mem_used last_features),
        mem_free_slope := int_to_float (mem_free current_features - mem_free last_features),
        swap_used_slope := int_to_float (swap_used current_features - swap_used last_features),
        swap_free_slope := int_to_float (swap_free current_features - swap_free last_features),
        cpu_user_slope := ssub (cpu_user current_features) (cpu_user last_features),
        cpu_system_slope := ssub (cpu_system current_features) (cpu_system last_features),
        cpu_idle_slope := ssub (cpu_idle current_features) (cpu_idle last_features),
        s_n_th := n_th init_features,
        s_mem_used := mem_used init_features,
        s_mem_buffers := mem_buffers init_features,
        s_swap_used := swap_used init_features,
        s_cpu_user := cpu_user init_features,
        s_cpu_nice := cpu_nice init_features,
        s_cpu_system := cpu_system init_features,
        s_cpu_iowait := cpu_iowait init_features,
        s_cpu_idle := cpu_idle init_features\<rparr>)"

definition get_predicted_rttc ::
  "system_features_with_slopes \<Rightarrow> int \<Rightarrow> system_features \<Rightarrow> system_features \<Rightarrow> fl"
where
  "get_predicted_rttc stack ml_model last_features current_features =
     calculate_linear_regression (stack
       \<lparr>gen_time := ssub (time current_features) (time last_features),
        n_th_slope := int_to_float (n_th current_features - n_th last_features),
        mem_used_slope := int_to_float (mem_used current_features - mem_used last_features),
        mem_free_slope := int_to_float (mem_free current_features - mem_free last_features),
        swap_used_slope := int_to_float (swap_used current_features - swap_used last_features),
        swap_free_slope := int_to_float (swap_free current_features - swap_free last_features),
        cpu_user_slope := ssub (cpu_user current_features) (cpu_user last_features),
        cpu_system_slope := ssub (cpu_system current_features) (cpu_system last_features),
        cpu_idle_slope := ssub (cpu_idle current_features) (cpu_idle last_features),
        s_n_th := n_th last_features,
        s_mem_used := mem_used last_features,
        s_mem_buffers := mem_buffers last_features,
        s_swap_used := swap_used last_features,
        s_cpu_user := cpu_user last_features,
        s_cpu_nice := cpu_nice last_features,
        s_cpu_system := cpu_system last_features,
        s_cpu_iowait := cpu_iowait last_features,
        s_cpu_idle := cpu_idle last_features\<rparr>)"

section \<open>What a prediction depends on\<close>

text \<open>The structure all of whose fields are zero, a reference value for the unassigned fields.\<close>

definition zero_features :: system_features where
  "zero_features = \<lparr>time = FZero False, n_th = 0, mem_total = 0, mem_used = 0, mem_free = 0,
     mem_shared = 0, mem_buffers = 0, mem_cached = 0, swap_total = 0, swap_used = 0, swap_free = 0,
     cpu_user = FZero False, cpu_nice = FZero False, cpu_system = FZero False,
     cpu_iowait = FZero False, cpu_steal = FZero False, cpu_idle = FZero False\<rparr>"

definition zero_slopes :: system_features_with_slopes where
  "zero_slopes = \<lparr>gen_time = FZero False, n_th_slope = FZero False, mem_used_slope = FZero False,
     mem_free_slope = FZero False, swap_used_slope = FZero False, swap_free_slope = FZero False,
     cpu_user_slope = FZero False, cpu_system_slope = FZero False, cpu_idle_slope = FZero False,
     s_n_th = 0, s_mem_total = 0, s_mem_used = 0, s_mem_free = 0, s_mem_shared = 0,
     s_mem_buffers = 0, s_mem_cached = 0, s_swap_total = 0, s_swap_used = 0, s_swap_free = 0,
     s_cpu_user = FZero False, s_cpu_nice = FZero False, s_cpu_system = FZero False,
     s_cpu_iowait = FZero False, s_cpu_steal = FZero False, s_cpu_idle = FZero False\<rparr>"

lemma predictions_agree:
  "get_predicted_rttc stack m l c = get_predicted_mttf stack m' l c l"
  by (simp add: get_predicted_rttc_def get_predicted_mttf_def)

lemma mttf_stack:
  "get_predicted_mttf stack m l c i =
   get_predicted_mttf (zero_slopes\<lparr>s_mem_free := s_mem_free stack, s_mem_cached := s_mem_cached stack\<rparr>)
     m' l c i"
  by (simp add: get_predicted_mttf_def calculate_linear_regression_def regression_terms_def)

section \<open>Accuracy of the regression\<close>

text \<open>
  The exact value of the linear model, and the bound on the features under which the computed
  sum stays close to it. Every finite feature of a real machine is far below \<open>2 ^ 32\<close>.
\<close>

definition regression_exact :: "system_features_with_slopes \<Rightarrow> real" where
  "regression_exact f =
      5929 / 10000 * fval (gen_time f)
    - 2645 / 10000 * fval (n_th_slope f)
    - 2 / 10000 * fval (mem_used_slope f)
    + 2 / 10000 * fval (mem_free_slope f)
    + 4242 / 10000 * fval (cpu_user_slope f)
    - 9884 / 10000 * fval (cpu_idle_slope f)
    - 459 / 1000 * of_int (sint (s_n_th f))
    + 2 / 10000 * of_int (sint (s_mem_free f))
    - 13 / 10000 * of_int (sint (s_mem_buffers f))
    + 1 / 10000 * of_int (sint (s_mem_cached f))
    - 4 / 10000 * of_int (sint (s_swap_used f))
    + 11191 / 10000 * fval (s_cpu_user f)
    + 9517 / 10000 * fval (s_cpu_system f)
    + 8971 / 10000 * fval (s_cpu_idle f)
    + 2428923 / 10000"

definition float_ok :: "fl \<Rightarrow> bool" where
  "float_ok x \<longleftrightarrow> is_num x \<and> \<bar>fval x\<bar> \<le> pow2 32"

definition slopes_ok :: "system_features_with_slopes \<Rightarrow> bool" where
  "slopes_ok f \<longleftrightarrow> (\<forall>x \<in> {gen_time f, n_th_slope f, mem_used_slope f, mem_free_slope f,
     cpu_user_slope f, cpu_idle_slope f, s_cpu_user f, s_cpu_system f, s_cpu_idle f}. float_ok x)"

lemma b64_consts: "emin binary64 = -1022" "emax binary64 = 1023" "int (prec binary64) = 53"
  by (simp_all add: emin_def binary64_def)

lemma sint_c_int_bound: "\<bar>sint (w :: c_int)\<bar> \<le> 2 ^ 31"
  using sint_ge [of w] sint_lt [of w] by simp

lemma float_ok_int: "float_ok (int_to_double w)" "fval (int_to_double w) = of_int (sint w)"
proof -
  have b: "\<bar>sint w\<bar> \<le> 2 ^ 53" using sint_c_int_bound [of w] by (rule order_trans) simp
  then show v: "fval (int_to_double w) = of_int (sint w)"
    unfolding int_to_double_def by (rule fval_f_of_int)
  have "\<bar>real_of_int (sint w)\<bar> \<le> of_int (2 ^ 31)"
    using sint_c_int_bound [of w] by (metis of_int_abs of_int_le_iff)
  also have "\<dots> \<le> pow2 32" by (simp add: pow2_def)
  finally show "float_ok (int_to_double w)"
    using b v by (simp add: float_ok_def int_to_double_def is_num_f_of_int)
qed

text \<open>One term: the constant is rounded, then the product.\<close>

lemma term_error:
  assumes x: "float_ok x" and c: "n \<noteq> 0" "\<bar>of_int n / 10 ^ d\<bar> < (2::real)"
  shows "\<bar>fval (dmul (dlit n d) x) - of_int n / 10 ^ d * fval x\<bar> \<le> pow2 (-19)"
    and "is_num (dmul (dlit n d) x)"
    and "\<bar>fval (dmul (dlit n d) x)\<bar> \<le> pow2 33"
proof -
  define q :: real where "q = of_int n / 10 ^ d"
  have q: "\<bar>q\<bar> < pow2 1" "\<bar>q\<bar> \<le> pow2 1" using c by (simp_all add: q_def)
  define k where "k = fval (dlit n d)"
  have k: "k = rnd binary64 q" "is_num (dlit n d)"
    using fval_round_fl [OF q(2), of binary64] c(1) by (simp_all add: k_def f_lit_def q_def b64_consts)
  have "\<bar>k - q\<bar> \<le> pow2 (1 - int (prec binary64) - 1)"
    unfolding k(1) by (rule rnd_error_le [OF q(1)]) (simp add: b64_consts)
  then have kq: "\<bar>k - q\<bar> \<le> pow2 (-53)" by (simp add: b64_consts)
  have kb: "\<bar>k\<bar> \<le> pow2 1" unfolding k(1) using rnd_abs_le [OF q(2)] by (simp add: b64_consts)
  have xb: "\<bar>fval x\<bar> \<le> pow2 32" "is_num x" using x by (simp_all add: float_ok_def)
  have "\<bar>k * fval x\<bar> \<le> pow2 1 * pow2 32"
    unfolding abs_mult using kb xb by (intro mult_mono) auto
  then have kx: "\<bar>k * fval x\<bar> \<le> pow2 33" using pow2_add [of 1 32] by simp
  then have kx': "\<bar>k * fval x\<bar> < pow2 34" by (rule le_less_trans) simp
  have prod: "fval (dmul (dlit n d) x) = rnd binary64 (k * fval x)" "is_num (dmul (dlit n d) x)"
    using fval_fmul [OF k(2) xb(2), of 33 binary64] kx by (simp_all add: k_def b64_consts)
  have e1: "\<bar>rnd binary64 (k * fval x) - k * fval x\<bar> \<le> pow2 (-20)"
    using rnd_error_le [OF kx', of binary64] by (simp add: b64_consts)
  have "\<bar>(k - q) * fval x\<bar> \<le> pow2 (-53) * pow2 32"
    unfolding abs_mult using kq xb by (intro mult_mono) auto
  then have e2: "\<bar>k * fval x - q * fval x\<bar> \<le> pow2 (-21)"
    by (simp add: left_diff_distrib flip: pow2_add)
  have "pow2 (-20) + pow2 (-21) \<le> pow2 (-19)" by (simp add: pow2_def)
  with e1 e2 show "\<bar>fval (dmul (dlit n d) x) - of_int n / 10 ^ d * fval x\<bar> \<le> pow2 (-19)"
    unfolding prod(1) q_def [symmetric] by linarith
  show "is_num (dmul (dlit n d) x)" by (rule prod(2))
  show "\<bar>fval (dmul (dlit n d) x)\<bar> \<le> pow2 33"
    unfolding prod(1) using rnd_abs_le [OF kx] by (simp add: b64_consts)
qed

text \<open>A term with a negated constant is the negated term.\<close>

lemma round_fl_minus: "q \<noteq> 0 \<Longrightarrow> round_fl f (- q) = fneg (round_fl f q)"
  by (auto simp: round_fl_def pack_def rnd_minus)

lemma fl_in_nonzero: "fl_in f (Fin q) \<Longrightarrow> q \<noteq> 0"
  by (simp add: finite_in_def)

lemma fmul_fneg:
  "fl_in f x \<Longrightarrow> fl_in f y \<Longrightarrow> fmul f (fneg x) y = fneg (fmul f x y)"
  by (cases x; cases y; auto simp: finite_in_def round_fl_minus)

lemma term_error_neg:
  assumes x: "float_ok x" "fl_in binary64 x" and c: "n \<noteq> 0" "\<bar>of_int n / 10 ^ d\<bar> < (2::real)"
  shows "\<bar>fval (dmul (fneg (dlit n d)) x) + of_int n / 10 ^ d * fval x\<bar> \<le> pow2 (-19)"
    and "is_num (dmul (fneg (dlit n d)) x)"
    and "\<bar>fval (dmul (fneg (dlit n d)) x)\<bar> \<le> pow2 33"
proof -
  have e: "dmul (fneg (dlit n d)) x = fneg (dmul (dlit n d) x)"
    using x(2) by (intro fmul_fneg) (simp_all add: fl_in_ops)
  show "\<bar>fval (dmul (fneg (dlit n d)) x) + of_int n / 10 ^ d * fval x\<bar> \<le> pow2 (-19)"
    unfolding e using term_error(1) [OF x(1) c] by (simp add: abs_minus_commute)
  show "is_num (dmul (fneg (dlit n d)) x)" "\<bar>fval (dmul (fneg (dlit n d)) x)\<bar> \<le> pow2 33"
    unfolding e using term_error(2,3) [OF x(1) c] by simp_all
qed

text \<open>The running sum: each addition is off by at most \<open>2 ^ -15\<close>.\<close>

definition term_ok :: "fl \<Rightarrow> bool" where
  "term_ok t \<longleftrightarrow> is_num t \<and> fl_in binary64 t \<and> \<bar>fval t\<bar> \<le> pow2 33"

lemma running_sum_error:
  assumes "\<forall>t \<in> set ts. term_ok t" "is_num a" "fl_in binary64 a" "\<bar>fval a\<bar> \<le> real k * pow2 34"
    "k + length ts \<le> 16"
  shows "\<bar>fval (foldl dadd a ts) - (fval a + sum_list (map fval ts))\<bar> \<le> real (length ts) * pow2 (-15)
    \<and> is_num (foldl dadd a ts) \<and> \<bar>fval (foldl dadd a ts)\<bar> \<le> real (k + length ts) * pow2 34"
  using assms
proof (induction ts arbitrary: a k)
  case (Cons t ts)
  let ?q = "fval a + fval t"
  have t: "is_num t" "fl_in binary64 t" "\<bar>fval t\<bar> \<le> pow2 33"
    using Cons.prems(1) by (simp_all add: term_ok_def)
  have p34: "pow2 34 = 2 * pow2 33" using pow2_add [of 1 33] by simp
  have "real k * pow2 34 \<le> 15 * pow2 34"
    using Cons.prems(5) by (intro mult_right_mono) auto
  moreover have "16 * pow2 34 = pow2 38" using pow2_add [of 4 34] by (simp add: pow2_def)
  moreover have "0 < pow2 33" by simp
  ultimately have q: "\<bar>?q\<bar> \<le> pow2 38" using t(3) Cons.prems(4) p34 by linarith
  have s: "fval (dadd a t) = rnd binary64 ?q" "is_num (dadd a t)"
    using fval_fadd [OF Cons.prems(2) t(1) Cons.prems(3) t(2) q] by (simp_all add: b64_consts)
  have "\<bar>?q\<bar> < pow2 39" using q by (rule le_less_trans) simp
  then have e: "\<bar>rnd binary64 ?q - ?q\<bar> \<le> pow2 (-15)"
    using rnd_error_le [of ?q 39 binary64] by (simp add: b64_consts)
  have "pow2 (-15) \<le> pow2 33" "real (Suc k) * pow2 34 = real k * pow2 34 + pow2 34"
    by (simp, simp add: algebra_simps)
  then have m: "\<bar>fval (dadd a t)\<bar> \<le> real (Suc k) * pow2 34"
    using e t(3) Cons.prems(4) p34 unfolding s(1) by linarith
  have IH: "\<bar>fval (foldl dadd (dadd a t) ts) - (fval (dadd a t) + sum_list (map fval ts))\<bar>
      \<le> real (length ts) * pow2 (-15)
    \<and> is_num (foldl dadd (dadd a t) ts)
    \<and> \<bar>fval (foldl dadd (dadd a t) ts)\<bar> \<le> real (Suc k + length ts) * pow2 34"
    using Cons.prems t s m by (intro Cons.IH) (simp_all add: fl_in_ops)
  have "\<bar>fval (foldl dadd (dadd a t) ts) - (?q + sum_list (map fval ts))\<bar>
      \<le> real (length ts) * pow2 (-15) + pow2 (-15)"
    using conjunct1 [OF IH] e s(1) by linarith
  then show ?case using IH by (simp add: algebra_simps)
qed simp

text \<open>The features a prediction reads are values of \<open>float\<close>, as every C variable of that type.\<close>

definition slopes_in :: "system_features_with_slopes \<Rightarrow> bool" where
  "slopes_in f \<longleftrightarrow> (\<forall>x \<in> {gen_time f, n_th_slope f, mem_used_slope f, mem_free_slope f,
     cpu_user_slope f, cpu_idle_slope f, s_cpu_user f, s_cpu_system f, s_cpu_idle f}.
     fl_in binary32 x)"

lemma fl_in_int_to_double [simp]: "fl_in binary64 (int_to_double w)"
  by (simp add: int_to_double_def fl_in_ops)

lemma dlit_const: "is_num (dlit 2428923 4)" "\<bar>fval (dlit 2428923 4) - 2428923 / 10000\<bar> \<le> pow2 (-19)"
  "\<bar>fval (dlit 2428923 4)\<bar> \<le> pow2 33"
proof -
  have v: "fval (dlit 2428923 4) = rnd binary64 (2428923 / 10000)" "is_num (dlit 2428923 4)"
    using fval_round_fl [of "2428923 / 10000" 8 binary64]
    by (simp_all add: f_lit_def b64_consts pow2_def)
  show "is_num (dlit 2428923 4)" by (rule v(2))
  have "\<bar>rnd binary64 (2428923 / 10000) - 2428923 / 10000\<bar> \<le> pow2 (8 - 53 - 1)"
    using rnd_error_le [of "2428923 / 10000" 8 binary64] by (simp add: b64_consts pow2_def)
  also have "\<dots> \<le> pow2 (-19)" by simp
  finally show "\<bar>fval (dlit 2428923 4) - 2428923 / 10000\<bar> \<le> pow2 (-19)" unfolding v .
  have "\<bar>rnd binary64 (2428923 / 10000)\<bar> \<le> pow2 8"
    by (rule rnd_abs_le) (simp_all add: b64_consts pow2_def)
  also have "\<dots> \<le> pow2 33" by simp
  finally show "\<bar>fval (dlit 2428923 4)\<bar> \<le> pow2 33" unfolding v .
qed

definition regression_sum :: "system_features_with_slopes \<Rightarrow> fl" where
  "regression_sum f = foldl dadd (hd (regression_terms f)) (tl (regression_terms f))"

lemma regression_terms_ok:
  assumes "slopes_ok f" "slopes_in f"
  shows "\<forall>t \<in> set (regression_terms f). term_ok t"
proof -
  have ok: "float_ok x \<Longrightarrow> fl_in binary32 x \<Longrightarrow> n \<noteq> 0 \<Longrightarrow> \<bar>of_int n / 10 ^ d\<bar> < (2::real) \<Longrightarrow>
      term_ok (dmul (dlit n d) x) \<and> term_ok (dmul (fneg (dlit n d)) x)" for x n d
    using term_error [of x n d] term_error_neg [of x n d]
    by (simp add: term_ok_def fl_in_ops fl_in_float_double)
  have oki: "n \<noteq> 0 \<Longrightarrow> \<bar>of_int n / 10 ^ d\<bar> < (2::real) \<Longrightarrow>
      term_ok (dmul (dlit n d) (int_to_double w)) \<and> term_ok (dmul (fneg (dlit n d)) (int_to_double w))"
    for w n d
    using term_error [of "int_to_double w" n d] term_error_neg [of "int_to_double w" n d] float_ok_int
    by (simp add: term_ok_def fl_in_ops)
  have "term_ok (dlit 2428923 4)" using dlit_const by (simp add: term_ok_def fl_in_ops)
  then show ?thesis using assms
    by (simp add: regression_terms_def slopes_ok_def slopes_in_def ok oki)
qed

lemma sum_list_close:
  "list_all2 (\<lambda>x y. \<bar>x - y\<bar> \<le> e) xs ys \<Longrightarrow> \<bar>sum_list xs - sum_list ys\<bar> \<le> real (length xs) * e"
proof (induction rule: list_all2_induct)
  case (Cons x xs y ys)
  then have "\<bar>(x - y) + (sum_list xs - sum_list ys)\<bar> \<le> e + real (length xs) * e" by linarith
  then show ?case by (simp add: algebra_simps)
qed simp

lemma regression_terms_sum:
  assumes "slopes_ok f" "slopes_in f"
  shows "\<bar>sum_list (map fval (regression_terms f)) - regression_exact f\<bar> \<le> 15 * pow2 (-19)"
proof -
  have fl: "float_ok x \<and> fl_in binary64 x"
    if "x \<in> {gen_time f, n_th_slope f, mem_used_slope f, mem_free_slope f, cpu_user_slope f,
       cpu_idle_slope f, s_cpu_user f, s_cpu_system f, s_cpu_idle f}" for x
    using that assms by (auto simp: slopes_ok_def slopes_in_def fl_in_float_double)
  have pos: "\<bar>fval (dmul (dlit n d) x) - c * fval x\<bar> \<le> pow2 (-19)"
    if "float_ok x \<and> fl_in binary64 x" "n \<noteq> 0" "c = of_int n / 10 ^ d" "\<bar>c\<bar> < 2" for x n d c
    using that term_error(1) [of x n d] by simp
  have neg: "\<bar>fval (dmul (fneg (dlit n d)) x) - - (c * fval x)\<bar> \<le> pow2 (-19)"
    if "float_ok x \<and> fl_in binary64 x" "n \<noteq> 0" "c = of_int n / 10 ^ d" "\<bar>c\<bar> < 2" for x n d c
    using that term_error_neg(1) [of x n d] by simp
  let ?exact = "[(5929 / 10000 * fval (gen_time f)),
    - (2645 / 10000 * fval (n_th_slope f)),
    - (2 / 10000 * fval (mem_used_slope f)),
    (2 / 10000 * fval (mem_free_slope f)),
    (4242 / 10000 * fval (cpu_user_slope f)),
    - (9884 / 10000 * fval (cpu_idle_slope f)),
    - (459 / 1000 * fval (int_to_double (s_n_th f))),
    (2 / 10000 * fval (int_to_double (s_mem_free f))),
    - (13 / 10000 * fval (int_to_double (s_mem_buffers f))),
    (1 / 10000 * fval (int_to_double (s_mem_cached f))),
    - (4 / 10000 * fval (int_to_double (s_swap_used f))),
    (11191 / 10000 * fval (s_cpu_user f)),
    (9517 / 10000 * fval (s_cpu_system f)),
    (8971 / 10000 * fval (s_cpu_idle f)),
    2428923 / 10000]"
  have bounds:
    "\<bar>fval (dmul (dlit 5929 4) (gen_time f)) - (5929 / 10000 * fval (gen_time f))\<bar> \<le> pow2 (-19)"
    "\<bar>fval (dmul (fneg (dlit 2645 4)) (n_th_slope f)) - - (2645 / 10000 * fval (n_th_slope f))\<bar> \<le> pow2 (-19)"
    "\<bar>fval (dmul (fneg (dlit 2 4)) (mem_used_slope f)) - - (2 / 10000 * fval (mem_used_slope f))\<bar> \<le> pow2 (-19)"
    "\<bar>fval (dmul (dlit 2 4) (mem_free_slope f)) - (2 / 10000 * fval (mem_free_slope f))\<bar> \<le> pow2 (-19)"
    "\<bar>fval (dmul (dlit 4242 4) (cpu_user_slope f)) - (4242 / 10000 * fval (cpu_user_slope f))\<bar> \<le> pow2 (-19)"
    "\<bar>fval (dmul (fneg (dlit 9884 4)) (cpu_idle_slope f)) - - (9884 / 10000 * fval (cpu_idle_slope f))\<bar> \<le> pow2 (-19)"
    "\<bar>fval (dmul (fneg (dlit 459 3)) (int_to_double (s_n_th f))) - - (459 / 1000 * fval (int_to_double (s_n_th f)))\<bar> \<le> pow2 (-19)"
    "\<bar>fval (dmul (dlit 2 4) (int_to_double (s_mem_free f))) - (2 / 10000 * fval (int_to_double (s_mem_free f)))\<bar> \<le> pow2 (-19)"
    "\<bar>fval (dmul (fneg (dlit 13 4)) (int_to_double (s_mem_buffers f))) - - (13 / 10000 * fval (int_to_double (s_mem_buffers f)))\<bar> \<le> pow2 (-19)"
    "\<bar>fval (dmul (dlit 1 4) (int_to_double (s_mem_cached f))) - (1 / 10000 * fval (int_to_double (s_mem_cached f)))\<bar> \<le> pow2 (-19)"
    "\<bar>fval (dmul (fneg (dlit 4 4)) (int_to_double (s_swap_used f))) - - (4 / 10000 * fval (int_to_double (s_swap_used f)))\<bar> \<le> pow2 (-19)"
    "\<bar>fval (dmul (dlit 11191 4) (s_cpu_user f)) - (11191 / 10000 * fval (s_cpu_user f))\<bar> \<le> pow2 (-19)"
    "\<bar>fval (dmul (dlit 9517 4) (s_cpu_system f)) - (9517 / 10000 * fval (s_cpu_system f))\<bar> \<le> pow2 (-19)"
    "\<bar>fval (dmul (dlit 8971 4) (s_cpu_idle f)) - (8971 / 10000 * fval (s_cpu_idle f))\<bar> \<le> pow2 (-19)"
    by (rule pos neg; simp add: fl float_ok_int)+
  have "list_all2 (\<lambda>x y. \<bar>x - y\<bar> \<le> pow2 (-19)) (map fval (regression_terms f)) ?exact"
    unfolding regression_terms_def list.map by (intro list_all2_Cons [THEN iffD2] conjI bounds dlit_const(2)) simp
  moreover have "regression_exact f = sum_list ?exact"
    by (simp add: regression_exact_def float_ok_int(2))
  ultimately show ?thesis
    using sum_list_close [of "pow2 (-19)" "map fval (regression_terms f)" ?exact]
    by (simp add: regression_terms_def)
qed

lemma regression_sum_error:
  assumes "slopes_ok f" "slopes_in f"
  shows "is_num (regression_sum f)" "\<bar>fval (regression_sum f) - regression_exact f\<bar> \<le> pow2 (-11)"
    "\<bar>fval (regression_sum f)\<bar> \<le> pow2 38"
proof -
  obtain a ts where l: "regression_terms f = a # ts" "length ts = 14"
    by (simp add: regression_terms_def)
  have ok: "\<forall>t \<in> set (a # ts). term_ok t" using regression_terms_ok [OF assms] l by simp
  have "pow2 33 \<le> pow2 34" by simp
  then have "\<bar>fval a\<bar> \<le> real 1 * pow2 34" using ok by (simp add: term_ok_def del: pow2_le_iff)
  then have "\<bar>fval (foldl dadd a ts) - (fval a + sum_list (map fval ts))\<bar> \<le> real (length ts) * pow2 (-15)
    \<and> is_num (foldl dadd a ts) \<and> \<bar>fval (foldl dadd a ts)\<bar> \<le> real (1 + length ts) * pow2 34"
    using ok l by (intro running_sum_error) (auto simp: term_ok_def)
  moreover have "regression_sum f = foldl dadd a ts" by (simp add: regression_sum_def l)
  moreover have "\<bar>fval a + sum_list (map fval ts) - regression_exact f\<bar> \<le> 15 * pow2 (-19)"
    using regression_terms_sum [OF assms] by (simp add: l)
  moreover have "14 * pow2 (-15) + 15 * pow2 (-19) \<le> pow2 (-11)" "15 * pow2 34 \<le> pow2 38"
    by (simp_all add: pow2_def)
  ultimately show "is_num (regression_sum f)"
    "\<bar>fval (regression_sum f) - regression_exact f\<bar> \<le> pow2 (-11)" "\<bar>fval (regression_sum f)\<bar> \<le> pow2 38"
    unfolding l(2) by auto
qed

lemma fconv_b32:
  assumes "is_num x" "\<bar>fval x\<bar> \<le> pow2 38"
  shows "is_num (fconv binary32 x)" "fval (fconv binary32 x) = rnd binary32 (fval x)"
  using assms by (cases x; simp add: fval_round_fl [of _ 38] emin_def binary32_def)+

lemma calculate_accuracy:
  assumes "slopes_ok f" "slopes_in f"
  shows "is_num (calculate_linear_regression f)
    \<and> \<bar>fval (calculate_linear_regression f) - regression_exact f\<bar>
        \<le> pow2 (-10) + \<bar>regression_exact f\<bar> * pow2 (-24)"
proof -
  define q where "q = fval (regression_sum f)"
  define E where "E = regression_exact f"
  note sum = regression_sum_error [OF assms]
  have r: "calculate_linear_regression f = fconv binary32 (regression_sum f)"
    by (simp add: calculate_linear_regression_def regression_sum_def)
  have v: "is_num (calculate_linear_regression f)"
    "fval (calculate_linear_regression f) = rnd binary32 q"
    using fconv_b32 [OF sum(1,3)] by (simp_all add: r q_def)
  have "\<bar>rnd binary32 q - q\<bar> \<le> \<bar>q\<bar> * pow2 (-24) + pow2 (-150)"
    using rnd_error_rel [of binary32 q] by (simp add: emin_def binary32_def)
  moreover have qE: "\<bar>q - E\<bar> \<le> pow2 (-11)" using sum(2) by (simp add: q_def E_def)
  moreover have "\<bar>q\<bar> * pow2 (-24) \<le> (\<bar>E\<bar> + pow2 (-11)) * pow2 (-24)"
    using qE by (intro mult_right_mono) auto
  moreover have "pow2 (-150) \<le> pow2 (-12)" by (simp only: pow2_le_iff)
  moreover have "pow2 (-11) + pow2 (-11) * pow2 (-24) + pow2 (-12) \<le> pow2 (-10)"
    by (simp add: pow2_def)
  ultimately have "\<bar>rnd binary32 q - E\<bar> \<le> pow2 (-10) + \<bar>E\<bar> * pow2 (-24)"
    unfolding distrib_right by linarith
  then show ?thesis unfolding v(2) E_def [symmetric] using v(1) by simp
qed

text \<open>
  C21. The prediction is the exact linear model up to rounding: it is never NaN or infinite, and
  differs from the exact value by at most \<open>2 ^ -10\<close> plus the relative \<open>2 ^ -24\<close> of the final
  conversion to \<open>float\<close>.
\<close>

theorem regression_accuracy:
  assumes "slopes_ok f" "slopes_in f"
  shows "is_num (calculate_linear_regression f)
    \<and> \<bar>fval (calculate_linear_regression f) - regression_exact f\<bar>
        \<le> pow2 (-10) + \<bar>regression_exact f\<bar> * pow2 (-24)"
  using assms by (rule calculate_accuracy)

theorem regression_accuracy_witness:
  "is_num (calculate_linear_regression zero_slopes)
    \<and> \<bar>fval (calculate_linear_regression zero_slopes) - regression_exact zero_slopes\<bar>
        \<le> pow2 (-10) + \<bar>regression_exact zero_slopes\<bar> * pow2 (-24)"
  by (rule regression_accuracy [of zero_slopes])
     (simp_all add: slopes_ok_def slopes_in_def float_ok_def zero_slopes_def)

text \<open>
  What a prediction reads: besides the features it is given, exactly the two fields
  \<open>mem_free\<close> and \<open>mem_cached\<close> of its uninitialised local structure; the number of the
  machine-learning model is ignored, and the two predictors differ only in the structure the
  absolute features are taken from.
\<close>

theorem prediction_reads:
  "get_predicted_rttc stack m l c =
     get_predicted_rttc (zero_slopes\<lparr>s_mem_free := s_mem_free stack, s_mem_cached := s_mem_cached stack\<rparr>)
       0 l c
   \<and> get_predicted_rttc stack m l c = get_predicted_mttf stack m' l c l"
  using mttf_stack [of stack m' l c l 0] by (simp add: predictions_agree [of stack m l c m']
      predictions_agree [of _ 0 l c 0])

text \<open>
  The two unassigned fields decide: on the same features the prediction lies on either side
  of the rejuvenation threshold of 300 seconds, depending on what the stack happened to hold.
\<close>

theorem prediction_uninitialised:
  "flt (get_predicted_rttc zero_slopes 1 zero_features zero_features) (f_of_int binary32 300)
   \<and> flt (f_of_int binary32 300)
       (get_predicted_rttc (zero_slopes\<lparr>s_mem_free := 1000000\<rparr>) 1 zero_features zero_features)"
  by (simp add: get_predicted_rttc_def calculate_linear_regression_def regression_terms_def
      zero_slopes_def zero_features_def int_to_float_def int_to_double_def fl_eval)

end
