(* ===== verification/Protocol.thy ===== *)
theory Protocol
  imports A2PM_Prelude
begin

text \<open>
  The data that travels between the programs: the services and states of a virtual machine
  (\<open>enum services\<close>, \<open>enum vm_state\<close>, \<open>struct vm_service\<close>), the requests of the controller to
  the load balancer (\<open>enum operations\<close>, \<open>struct virtual_machine\<close>), the commands of the
  controller to a virtual machine (\<open>enum massage\<close> of \<open>controller/commands.h\<close>) and the constants
  both sides compile in. An enumeration received from a socket is an unchecked integer, so each
  one has a constructor for the values it does not name.
\<close>

definition NUMBER_GROUPS :: nat where
  "NUMBER_GROUPS = 3"

definition NUMBER_VMs :: nat where
  "NUMBER_VMs = 5"

lemma number_consts [simp]: "0 < NUMBER_GROUPS" "0 < NUMBER_VMs"
  by (simp_all add: NUMBER_GROUPS_def NUMBER_VMs_def)

datatype operations = ADD | DELETE | REJ | Other_Operation nat

datatype vm_state = STAND_BY | ACTIVE | REJUVENATING | Other_State nat

datatype massage = WAITING_DATA | CONTINUE | REJUVENATE | READY | STARTING_REJUVENATING

text \<open>A service is the unsigned number of its group: it is used as an index without a cast.\<close>

record vm_service =
  service :: nat
  state :: vm_state
  provided_port :: c_int

record virtual_machine =
  req_ip :: string
  req_port :: c_int
  req_service :: nat
  req_op :: operations

text \<open>\<open>htons\<close> on the x86 targets of the repository: the two bytes of a 16 bit value swapped.\<close>

definition htons :: "16 word \<Rightarrow> 16 word" where
  "htons w = word_of_nat (256 * (unat w mod 256) + unat w div 256)"

text \<open>The port every request carries: \<open>htons(8080)\<close>, stored in an \<open>int\<close>.\<close>

definition request_port :: c_int where
  "request_port = ucast (htons 8080)"

lemma htons_htons: "htons (htons w) = w"
proof -
  let ?n = "unat w"
  have n: "?n < 65536" using unsigned_less [of w] by simp
  have m: "256 * (?n mod 256) + ?n div 256 < 65536"
  proof -
    have "?n div 256 < 256" using n by (simp add: less_mult_imp_div_less)
    moreover have "?n mod 256 < 256" by simp
    ultimately show ?thesis by linarith
  qed
  have h: "unat (htons w) = 256 * (?n mod 256) + ?n div 256"
    using m by (simp add: htons_def unat_word_ariths take_bit_nat_eq_self unat_of_nat)
  have d: "?n div 256 < 256" using n by (simp add: less_mult_imp_div_less)
  have "(256 * (?n mod 256) + ?n div 256) mod 256 = ?n div 256"
    using d by (metis mod_less mod_mult_self4)
  moreover have "(256 * (?n mod 256) + ?n div 256) div 256 = ?n mod 256"
    using d by (simp add: div_add1_eq div_less)
  ultimately have "256 * (unat (htons w) mod 256) + unat (htons w) div 256 = ?n"
    unfolding h by (simp add: add.commute)
  then show ?thesis by (simp add: htons_def [of "htons w"])
qed

lemma request_port_val: "request_port = 36895"
  by (simp add: request_port_def htons_def)

end
