(* ===== verification/Vm_Table.thy ===== *)
theory Vm_Table
  imports A2PM_Prelude
begin

text \<open>
  The interface of a table of virtual machines. The controller (\<open>server.c\<close>) and the load
  balancer (\<open>balancer.c\<close>) each keep one table per service: an array with a count, extended at
  the end, searched from the front, and closed up after a deletion by moving the last entry
  into the hole. The locale states that contract over the live entries; the two components
  interpret it on their own operations and take from it the refinement to a set of machines.
\<close>

section \<open>The operations on the list of live entries\<close>

definition del_first :: "('a \<Rightarrow> bool) \<Rightarrow> 'a list \<Rightarrow> 'a list" where
  "del_first P xs = (case find_index P xs of None \<Rightarrow> xs | Some i \<Rightarrow> swap_del i xs)"

lemma mset_del_first:
  "mset (del_first P xs) =
     (case find_index P xs of None \<Rightarrow> mset xs | Some i \<Rightarrow> mset xs - {#xs ! i#})"
  by (auto simp: del_first_def mset_swap_del dest: find_index_SomeD split: option.split)

lemma mset_del_first_eq: "mset (del_first (\<lambda>y. y = k) xs) = mset xs - {#k#}"
proof (cases "find_index (\<lambda>y. y = k) xs")
  case None
  then have "k \<notin># mset xs" by (auto simp: find_index_None_iff)
  then show ?thesis by (simp add: mset_del_first None diff_single_trivial)
next
  case (Some i)
  then show ?thesis by (auto simp: mset_del_first dest: find_index_SomeD)
qed

lemma set_del_first_subset: "set (del_first P xs) \<subseteq> set xs"
  using set_swap_del_subset
  by (fastforce simp: del_first_def dest: find_index_SomeD split: option.splits)

lemma length_del_first:
  "length (del_first P xs) = length xs - (if \<exists>x \<in> set xs. P x then 1 else 0)"
  by (auto simp: del_first_def find_index_None_iff dest: find_index_SomeD split: option.split)

lemma distinct_del_first: "distinct xs \<Longrightarrow> distinct (del_first P xs)"
  by (auto simp: del_first_def distinct_swap_del dest: find_index_SomeD split: option.split)

lemma map_del_first: "map f (del_first (\<lambda>x. Q (f x)) xs) = del_first Q (map f xs)"
proof -
  have "find_index Q (map f xs) = find_index (\<lambda>x. Q (f x)) xs"
    by (induction xs) auto
  then show ?thesis
    by (auto simp: del_first_def swap_del_map [symmetric] dest: find_index_SomeD split: option.split)
qed

text \<open>Deleting by key from a table without duplicate keys removes exactly the matching entries.\<close>

lemma set_del_first_key:
  assumes "distinct (map key xs)"
  shows "set (del_first (\<lambda>x. key x = k) xs) = {x \<in> set xs. key x \<noteq> k}"
proof (cases "find_index (\<lambda>x. key x = k) xs")
  case None
  then have "\<forall>x \<in> set xs. key x \<noteq> k" by (simp add: find_index_None_iff)
  then show ?thesis by (auto simp: del_first_def None)
next
  case (Some i)
  then have i: "i < length xs" "key (xs ! i) = k" by (auto dest: find_index_SomeD)
  have d: "distinct xs" using assms by (simp add: distinct_map)
  have "mset (swap_del i xs) = mset (remove1 (xs ! i) xs)"
    using i(1) by (simp add: mset_swap_del)
  then have "set (swap_del i xs) = set xs - {xs ! i}"
    using d by (metis mset_eq_setD set_remove1_eq)
  moreover have "key x = k \<longleftrightarrow> x = xs ! i" if "x \<in> set xs" for x
    using inj_onD [of key "set xs" x "xs ! i"] that i assms by (auto simp: distinct_map)
  ultimately show ?thesis using Some by (auto simp: del_first_def)
qed

text \<open>Deleting the entry that was just added, when no older entry matches, restores the table.\<close>

lemma del_first_snoc:
  assumes "\<forall>x \<in> set xs. \<not> P x" "P v"
  shows "del_first P (xs @ [v]) = xs"
proof -
  have "find_index P (xs @ [v]) = Some (length xs)"
    using assms by (intro find_index_eq_SomeI) (auto simp: nth_append)
  then show ?thesis by (simp add: del_first_def swap_del_def)
qed

section \<open>The interface\<close>

locale vm_table =
  fixes live :: "'t \<Rightarrow> 'v list"
    and capacity :: "'t \<Rightarrow> nat"
    and ok :: "'t \<Rightarrow> bool"
    and add :: "'v \<Rightarrow> 't \<Rightarrow> 't"
    and del :: "'k \<Rightarrow> 't \<Rightarrow> 't"
    and key :: "'v \<Rightarrow> 'k"
  assumes live_add: "ok t \<Longrightarrow> live (add v t) = live t @ [v]"
    and live_del: "ok t \<Longrightarrow> live (del k t) = del_first (\<lambda>x. key x = k) (live t)"
    and ok_add: "ok t \<Longrightarrow> ok (add v t)"
    and ok_del: "ok t \<Longrightarrow> ok (del k t)"
    and live_fits: "ok t \<Longrightarrow> length (live t) \<le> capacity t"
    and capacity_add: "ok t \<Longrightarrow> capacity (add v t) = (if length (live t) = capacity t then 2 * capacity t else capacity t)"
    and capacity_del: "ok t \<Longrightarrow> capacity t \<le> capacity (del k t)"
begin

lemma add_then_del:
  "ok t \<Longrightarrow> key v \<notin> key ` set (live t) \<Longrightarrow> live (del (key v) (add v t)) = live t"
  by (simp add: live_add live_del ok_add) (rule del_first_snoc, auto simp: image_iff)

lemma set_add: "ok t \<Longrightarrow> set (live (add v t)) = insert v (set (live t))"
  by (simp add: live_add)

lemma distinct_add:
  "ok t \<Longrightarrow> distinct (map key (live t)) \<Longrightarrow> key v \<notin> key ` set (live t) \<Longrightarrow>
   distinct (map key (live (add v t)))"
  by (simp add: live_add)

lemma distinct_del:
  "ok t \<Longrightarrow> distinct (map key (live t)) \<Longrightarrow> distinct (map key (live (del k t)))"
  by (simp add: live_del map_del_first [of key "\<lambda>y. y = k"] distinct_del_first)

lemma set_del:
  "ok t \<Longrightarrow> distinct (map key (live t)) \<Longrightarrow>
   set (live (del k t)) = {v \<in> set (live t). key v \<noteq> k}"
  by (simp add: live_del set_del_first_key)

lemma length_del:
  "ok t \<Longrightarrow> length (live (del k t)) = length (live t) - (if k \<in> key ` set (live t) then 1 else 0)"
  by (auto simp: live_del length_del_first)

lemma mset_add: "ok t \<Longrightarrow> mset (map key (live (add v t))) = add_mset (key v) (mset (map key (live t)))"
  by (simp add: live_add)

text \<open>On the keys alone the table is a multiset, whatever duplicates it holds.\<close>

lemma mset_del: "ok t \<Longrightarrow> mset (map key (live (del k t))) = mset (map key (live t)) - {#k#}"
  by (simp add: live_del map_del_first [of key "\<lambda>y. y = k"] mset_del_first_eq)

lemma capacity_mono: "ok t \<Longrightarrow> capacity t \<le> capacity (add v t)"
  by (simp add: capacity_add)

end

end
