(* ===== verification/Balancer.thy ===== *)
theory Balancer
  imports Protocol Vm_Table
begin

text \<open>
  The load balancer's picture of the system (\<open>controller/balancer.c\<close>): the tables of virtual
  machines that the controller's requests maintain (\<open>controller_thread\<close> and its helpers) and the
  choice of a machine for a new client connection (\<open>get_current_socket\<close>).

  Each machine holds five pointers to client addresses. They are allocated one by one, copied
  with the structure when an entry is moved, and written through when a client is placed, so
  they are addresses of an explicit store (\<open>clients\<close>). Memory that \<open>malloc\<close> or \<open>realloc\<close>
  returns is not initialised: its contents are an argument (\<open>junk\<close>) of the operations.
\<close>

definition MAX_CONNECTED_CLIENTS :: nat where
  "MAX_CONNECTED_CLIENTS = 5"

definition no_client :: string where
  "no_client = ''0.0.0.0''"

record vm_data =
  ip_address :: string
  vm_port :: c_int
  connected_clients :: "nat list"

record balancer =
  current_vms :: "nat \<Rightarrow> nat"
  allocated_vms :: "nat \<Rightarrow> nat"
  actual_index :: "nat \<Rightarrow> nat"
  vm_data_set :: "nat \<Rightarrow> vm_data list"
  clients :: "nat \<rightharpoonup> string"
  next_block :: nat

section \<open>Maintaining the tables\<close>

definition create_system_image :: "(nat \<Rightarrow> nat \<Rightarrow> vm_data) \<Rightarrow> balancer" where
  "create_system_image junk =
     \<lparr>current_vms = (\<lambda>_. 0), allocated_vms = (\<lambda>_. NUMBER_VMs), actual_index = (\<lambda>_. 0),
      vm_data_set = (\<lambda>g. map (junk g) [0..<NUMBER_VMs]),
      clients = Map.empty, next_block = 0\<rparr>"

definition check_vm_data_set_size :: "(nat \<Rightarrow> vm_data) \<Rightarrow> nat \<Rightarrow> balancer \<Rightarrow> balancer" where
  "check_vm_data_set_size junk g b =
     (if current_vms b g = allocated_vms b g
      then b\<lparr>vm_data_set := (vm_data_set b)(g := vm_data_set b g
               @ map junk [length (vm_data_set b g)..<2 * allocated_vms b g]),
             allocated_vms := (allocated_vms b)(g := 2 * allocated_vms b g)\<rparr>
      else b)"

definition create_empty_list :: "nat \<Rightarrow> nat \<Rightarrow> balancer \<Rightarrow> balancer" where
  "create_empty_list g i b =
     (let ps = [next_block b..<next_block b + MAX_CONNECTED_CLIENTS] in
      b\<lparr>vm_data_set := (vm_data_set b)(g := (vm_data_set b g)
           [i := (vm_data_set b g ! i)\<lparr>connected_clients := ps\<rparr>]),
        clients := (\<lambda>a. if a \<in> set ps then Some no_client else clients b a),
        next_block := next_block b + MAX_CONNECTED_CLIENTS\<rparr>)"

definition delete_vm :: "string \<Rightarrow> nat \<Rightarrow> c_int \<Rightarrow> balancer \<Rightarrow> balancer" where
  "delete_vm ip g port b =
     (case find_index (\<lambda>v. ip_address v = ip \<and> vm_port v = port)
             (take (current_vms b g) (vm_data_set b g)) of
        None \<Rightarrow> b
      | Some i \<Rightarrow>
          b\<lparr>current_vms := (current_vms b)(g := current_vms b g - 1),
            vm_data_set := (vm_data_set b)(g := (vm_data_set b g)
              [i := vm_data_set b g ! (current_vms b g - 1)])\<rparr>)"

definition add_vm :: "string \<Rightarrow> nat \<Rightarrow> c_int \<Rightarrow> balancer \<Rightarrow> balancer" where
  "add_vm ip g port b =
     b\<lparr>vm_data_set := (vm_data_set b)(g := (vm_data_set b g)
         [current_vms b g := (vm_data_set b g ! current_vms b g)
            \<lparr>ip_address := ip, vm_port := port\<rparr>]),
       current_vms := (current_vms b)(g := current_vms b g + 1)\<rparr>"

text \<open>
  One pass of the loop of \<open>controller_thread\<close> after a request was received. The new slot is
  prepared before the operation is looked at, whatever the operation is.
\<close>

definition apply_request :: "(nat \<Rightarrow> vm_data) \<Rightarrow> virtual_machine \<Rightarrow> balancer \<Rightarrow> balancer" where
  "apply_request junk vm b =
     (let g = req_service vm;
          b1 = check_vm_data_set_size junk g b;
          b2 = create_empty_list g (current_vms b1 g) b1
      in case req_op vm of
           ADD \<Rightarrow> add_vm (req_ip vm) g (req_port vm) b2
         | DELETE \<Rightarrow> delete_vm (req_ip vm) g (req_port vm) b2
         | REJ \<Rightarrow> delete_vm (req_ip vm) g (req_port vm) b2
         | Other_Operation n \<Rightarrow> b2)"

text \<open>
  The loop itself. Each pass is what \<open>recv\<close> did and what \<open>realloc\<close> would find in the memory
  it returns. The service of a request indexes the arrays without a check. A failed \<open>recv\<close>
  closes the socket, an orderly shutdown returns 0; in both cases the code goes on with the
  request it received before.
\<close>

datatype controller_recv = Request virtual_machine | Recv_Failed | Recv_Closed

fun request_of :: "controller_recv \<Rightarrow> virtual_machine \<Rightarrow> virtual_machine" where
  "request_of (Request m) vm = m"
| "request_of Recv_Failed vm = vm"
| "request_of Recv_Closed vm = vm"

definition controller_step ::
  "(nat \<Rightarrow> vm_data) \<Rightarrow> controller_recv \<Rightarrow> virtual_machine \<times> balancer \<Rightarrow> (virtual_machine \<times> balancer) res"
where
  "controller_step junk ev s =
     (let vm = request_of ev (fst s) in
      if NUMBER_GROUPS \<le> req_service vm then Inl Out_Of_Bounds
      else Inr (vm, apply_request junk vm (snd s)))"

fun controller_thread ::
  "(controller_recv \<times> (nat \<Rightarrow> vm_data)) list \<Rightarrow> virtual_machine \<times> balancer \<Rightarrow> (virtual_machine \<times> balancer) res"
where
  "controller_thread [] s = Inr s"
| "controller_thread ((ev, junk) # evs) s =
     rbind (controller_step junk ev s) (controller_thread evs)"

section \<open>Choosing a machine for a client\<close>

text \<open>\<open>search_ip\<close>: the position of an address in the client list, counted from 1, or 0.\<close>

fun search_from :: "(nat \<rightharpoonup> string) \<Rightarrow> string \<Rightarrow> nat \<Rightarrow> nat list \<Rightarrow> nat res" where
  "search_from h ip k [] = Inr 0"
| "search_from h ip k (p # ps) =
     (case h p of
        None \<Rightarrow> Inl Uninit_Read
      | Some s \<Rightarrow> if s = ip then Inr (Suc k) else search_from h ip (Suc k) ps)"

definition search_ip :: "(nat \<rightharpoonup> string) \<Rightarrow> vm_data \<Rightarrow> string \<Rightarrow> nat res" where
  "search_ip h v ip = search_from h ip 0 (connected_clients v)"

fun find_client :: "(nat \<rightharpoonup> string) \<Rightarrow> string \<Rightarrow> vm_data list \<Rightarrow> vm_data option res" where
  "find_client h ip [] = Inr None"
| "find_client h ip (v # vs) =
     rbind (search_ip h v ip) (\<lambda>k. if 0 < k then Inr (Some v) else find_client h ip vs)"

definition place_client :: "string \<Rightarrow> balancer \<Rightarrow> ((string \<times> c_int) \<times> balancer) res" where
  "place_client ip b =
     (let i = actual_index b 0 in
      if length (vm_data_set b 0) \<le> i then Inl Out_Of_Bounds
      else
        (let v = vm_data_set b 0 ! i in
         rbind (search_ip (clients b) v no_client)
           (\<lambda>k. if k = 0 then Inl Out_Of_Bounds
                else Inr ((ip_address v, vm_port v),
                     b\<lparr>clients := (clients b)(connected_clients v ! (k - 1) \<mapsto> ip),
                       actual_index := (actual_index b)(0 := i + 1)\<rparr>))))"

definition check_already_connected :: "string \<Rightarrow> balancer \<Rightarrow> ((string \<times> c_int) \<times> balancer) res" where
  "check_already_connected ip b =
     rbind (find_client (clients b) ip (take (current_vms b 0) (vm_data_set b 0)))
       (\<lambda>r. case r of
              Some v \<Rightarrow> Inr ((ip_address v, vm_port v), b)
            | None \<Rightarrow> place_client ip b)"

definition reset_index :: "balancer \<Rightarrow> balancer" where
  "reset_index b =
     (if actual_index b 0 = current_vms b 0
      then b\<lparr>actual_index := (actual_index b)(0 := 0)\<rparr> else b)"

text \<open>
  The destination of a client's connection. The three arguments say whether \<open>socket\<close>,
  \<open>connect\<close> and the two \<open>fcntl\<close> calls of \<open>setnonblocking\<close> succeed; each failure exits.
\<close>

definition get_current_socket ::
  "bool \<Rightarrow> bool \<Rightarrow> bool \<Rightarrow> string \<Rightarrow> balancer \<Rightarrow> ((string \<times> c_int) \<times> balancer) res"
where
  "get_current_socket sock_ok connect_ok fcntl_ok ip b =
     (if \<not> sock_ok then Inl Exit_Failure
      else rbind (check_already_connected ip (reset_index b))
        (\<lambda>(dest, b'). if \<not> connect_ok \<or> \<not> fcntl_ok then Inl Exit_Failure else Inr (dest, b')))"

section \<open>The invariant\<close>

text \<open>
  The live entries of a service, their client pointers, and what a request finds and leaves:
  the counts fit the arrays, every live entry has five pointers to allocated blocks, and no two
  live entries of a service share a block. (The slot behind the last live entry does share its
  pointers with the entry that was moved away from it.)
\<close>

definition live_vms :: "nat \<Rightarrow> balancer \<Rightarrow> vm_data list" where
  "live_vms g b = take (current_vms b g) (vm_data_set b g)"

definition live_blocks :: "nat \<Rightarrow> balancer \<Rightarrow> nat list" where
  "live_blocks g b = concat (map connected_clients (live_vms g b))"

definition table_ok :: "nat \<Rightarrow> balancer \<Rightarrow> bool" where
  "table_ok g b \<longleftrightarrow>
     current_vms b g \<le> allocated_vms b g \<and> 0 < allocated_vms b g \<and>
     length (vm_data_set b g) = allocated_vms b g \<and>
     distinct (live_blocks g b) \<and>
     (\<forall>p \<in> set (live_blocks g b). p < next_block b \<and> clients b p \<noteq> None) \<and>
     (\<forall>v \<in> set (live_vms g b). length (connected_clients v) = MAX_CONNECTED_CLIENTS)"

definition bal_ok :: "balancer \<Rightarrow> bool" where
  "bal_ok b \<longleftrightarrow> (\<forall>g. table_ok g b)"

lemma bal_okD: "bal_ok b \<Longrightarrow> table_ok g b"
  by (simp add: bal_ok_def)

lemma bal_ok_create: "bal_ok (create_system_image junk)"
  by (simp add: bal_ok_def table_ok_def create_system_image_def live_vms_def live_blocks_def)

text \<open>Preparing the slot behind the last live entry.\<close>

definition prepare_slot :: "(nat \<Rightarrow> vm_data) \<Rightarrow> nat \<Rightarrow> balancer \<Rightarrow> balancer" where
  "prepare_slot junk g b =
     (let b1 = check_vm_data_set_size junk g b in create_empty_list g (current_vms b1 g) b1)"

lemma apply_request_alt:
  "apply_request junk vm b =
     (case req_op vm of
        ADD \<Rightarrow> add_vm (req_ip vm) (req_service vm) (req_port vm) (prepare_slot junk (req_service vm) b)
      | DELETE \<Rightarrow> delete_vm (req_ip vm) (req_service vm) (req_port vm) (prepare_slot junk (req_service vm) b)
      | REJ \<Rightarrow> delete_vm (req_ip vm) (req_service vm) (req_port vm) (prepare_slot junk (req_service vm) b)
      | Other_Operation n \<Rightarrow> prepare_slot junk (req_service vm) b)"
  by (cases "req_op vm") (simp_all add: apply_request_def prepare_slot_def Let_def)

lemma check_size [tbl_simps]:
  "current_vms (check_vm_data_set_size junk g b) = current_vms b"
  "clients (check_vm_data_set_size junk g b) = clients b"
  "next_block (check_vm_data_set_size junk g b) = next_block b"
  "actual_index (check_vm_data_set_size junk g b) = actual_index b"
  by (simp_all add: check_vm_data_set_size_def)

lemma live_check:
  assumes "table_ok g b"
  shows "live_vms h (check_vm_data_set_size junk g b) = live_vms h b"
  using assms by (simp add: check_vm_data_set_size_def live_vms_def table_ok_def)

lemma check_room:
  assumes "table_ok g b"
  shows "current_vms b g < allocated_vms (check_vm_data_set_size junk g b) g"
    and "length (vm_data_set (check_vm_data_set_size junk g b) g)
         = allocated_vms (check_vm_data_set_size junk g b) g"
  using assms by (auto simp: check_vm_data_set_size_def table_ok_def)

lemma check_other:
  "h \<noteq> g \<Longrightarrow> vm_data_set (check_vm_data_set_size junk g b) h = vm_data_set b h"
  "h \<noteq> g \<Longrightarrow> allocated_vms (check_vm_data_set_size junk g b) h = allocated_vms b h"
  by (simp_all add: check_vm_data_set_size_def)

lemma prepare_simps [tbl_simps]:
  "current_vms (prepare_slot junk g b) = current_vms b"
  "actual_index (prepare_slot junk g b) = actual_index b"
  "next_block (prepare_slot junk g b) = next_block b + MAX_CONNECTED_CLIENTS"
  by (simp_all add: prepare_slot_def create_empty_list_def Let_def tbl_simps)

lemma live_prepare:
  assumes "table_ok g b"
  shows "live_vms h (prepare_slot junk g b) = live_vms h b"
  using live_check [OF assms, of h junk]
  by (auto simp: prepare_slot_def create_empty_list_def Let_def live_vms_def tbl_simps)

lemma prepare_room:
  assumes "table_ok g b"
  shows "current_vms b g < allocated_vms (prepare_slot junk g b) g"
    and "length (vm_data_set (prepare_slot junk g b) g) = allocated_vms (prepare_slot junk g b) g"
  using check_room [OF assms, of junk]
  by (simp_all add: prepare_slot_def create_empty_list_def Let_def tbl_simps)

lemma prepare_slot_new:
  assumes "table_ok g b"
  shows "connected_clients (vm_data_set (prepare_slot junk g b) g ! current_vms b g)
         = [next_block b..<next_block b + MAX_CONNECTED_CLIENTS]"
  using check_room [OF assms, of junk]
  by (simp add: prepare_slot_def create_empty_list_def Let_def tbl_simps)

lemma prepare_clients:
  "clients (prepare_slot junk g b) p =
     (if next_block b \<le> p \<and> p < next_block b + MAX_CONNECTED_CLIENTS then Some no_client
      else clients b p)"
  by (simp add: prepare_slot_def create_empty_list_def Let_def tbl_simps)

lemma prepare_other:
  "h \<noteq> g \<Longrightarrow> vm_data_set (prepare_slot junk g b) h = vm_data_set b h"
  "h \<noteq> g \<Longrightarrow> allocated_vms (prepare_slot junk g b) h = allocated_vms b h"
  by (simp_all add: prepare_slot_def create_empty_list_def Let_def tbl_simps check_other)

lemma table_ok_prepare:
  assumes "table_ok g b" "table_ok h b"
  shows "table_ok h (prepare_slot junk g b)"
proof -
  have live: "live_vms h (prepare_slot junk g b) = live_vms h b"
    using assms(1) by (rule live_prepare)
  have "current_vms b h \<le> allocated_vms (prepare_slot junk g b) h
      \<and> length (vm_data_set (prepare_slot junk g b) h) = allocated_vms (prepare_slot junk g b) h
      \<and> 0 < allocated_vms (prepare_slot junk g b) h"
    using prepare_room [OF assms(1), of junk] assms(2)
    by (cases "h = g") (auto simp: table_ok_def prepare_other)
  moreover have "p < next_block b + MAX_CONNECTED_CLIENTS
      \<and> clients (prepare_slot junk g b) p \<noteq> None" if "p \<in> set (live_blocks h b)" for p
    using assms(2) that by (auto simp: table_ok_def prepare_clients)
  ultimately show ?thesis using assms(2)
    by (simp add: table_ok_def live live_blocks_def tbl_simps)
qed

definition new_vm :: "string \<Rightarrow> c_int \<Rightarrow> balancer \<Rightarrow> vm_data" where
  "new_vm ip port b = \<lparr>ip_address = ip, vm_port = port,
     connected_clients = [next_block b..<next_block b + MAX_CONNECTED_CLIENTS]\<rparr>"

lemma live_add_vm:
  assumes "table_ok g b"
  shows "live_vms h (add_vm ip g port (prepare_slot junk g b)) =
    (if h = g then live_vms g b @ [new_vm ip port b] else live_vms h b)"
proof (cases "h = g")
  case True
  have "take (current_vms b g) (vm_data_set (prepare_slot junk g b) g) = live_vms g b"
    using live_prepare [OF assms, of g junk] by (simp add: live_vms_def tbl_simps)
  then show ?thesis
    using True prepare_room [OF assms, of junk] prepare_slot_new [OF assms, of junk]
    by (simp add: live_vms_def add_vm_def new_vm_def tbl_simps take_Suc_conv_app_nth)
next
  case False
  then show ?thesis
    using live_prepare [OF assms, of h junk] by (simp add: live_vms_def add_vm_def tbl_simps)
qed

lemma live_delete_vm:
  assumes "table_ok g b"
  shows "live_vms h (delete_vm ip g port b) =
    (if h = g then del_first (\<lambda>v. ip_address v = ip \<and> vm_port v = port) (live_vms g b)
     else live_vms h b)"
proof (cases "find_index (\<lambda>v. ip_address v = ip \<and> vm_port v = port) (live_vms g b)")
  case None
  then show ?thesis by (auto simp: delete_vm_def del_first_def live_vms_def)
next
  case (Some i)
  have i: "i < current_vms b g"
    using find_index_SomeD [OF Some] by (simp add: live_vms_def)
  have "current_vms b g \<le> length (vm_data_set b g)" using assms by (simp add: table_ok_def)
  from take_update_last [OF i this] Some show ?thesis
    by (auto simp: delete_vm_def del_first_def live_vms_def)
qed

definition vm_key :: "vm_data \<Rightarrow> string \<times> c_int" where
  "vm_key v = (ip_address v, vm_port v)"

definition vm_keys :: "nat \<Rightarrow> balancer \<Rightarrow> (string \<times> c_int) list" where
  "vm_keys g b = map vm_key (live_vms g b)"

lemma del_first_key:
  "map vm_key (del_first (\<lambda>v. ip_address v = ip \<and> vm_port v = port) vs)
   = del_first (\<lambda>k. k = (ip, port)) (map vm_key vs)"
  using map_del_first [of vm_key "\<lambda>k. k = (ip, port)" vs] by (simp add: vm_key_def)

text \<open>The invariant survives each of the two operations on a prepared slot.\<close>

lemma delete_simps [tbl_simps]:
  "clients (delete_vm ip g port b) = clients b"
  "next_block (delete_vm ip g port b) = next_block b"
  "actual_index (delete_vm ip g port b) = actual_index b"
  "allocated_vms (delete_vm ip g port b) = allocated_vms b"
  "length (vm_data_set (delete_vm ip g port b) h) = length (vm_data_set b h)"
  "current_vms (delete_vm ip g port b) h \<le> current_vms b h"
  by (auto simp: delete_vm_def split: option.split)

lemma mset_concat_le: "mset xs \<subseteq># mset ys \<Longrightarrow> mset (concat xs) \<subseteq># mset (concat ys)"
proof -
  assume "mset xs \<subseteq># mset ys"
  then obtain c where "mset ys = mset xs + c" by (auto simp: mset_subset_eq_exists_conv)
  then have "sum_mset (image_mset mset (mset ys)) = sum_mset (image_mset mset (mset xs)) + sum_mset (image_mset mset c)"
    by simp
  then show ?thesis by (simp add: mset_concat sum_mset_sum_list [symmetric])
qed

lemma mset_del_first_le: "mset (del_first P xs) \<subseteq># mset xs"
  by (simp add: mset_del_first split: option.split)

lemma table_ok_delete:
  assumes "table_ok g b" "table_ok h b"
  shows "table_ok h (delete_vm ip g port b)"
proof (cases "h = g")
  case False
  then show ?thesis using assms(2) live_delete_vm [OF assms(1), of h ip port]
    by (auto simp: table_ok_def live_blocks_def delete_vm_def split: option.splits)
next
  case True
  let ?b = "delete_vm ip g port b"
  have live: "live_vms g ?b = del_first (\<lambda>v. ip_address v = ip \<and> vm_port v = port) (live_vms g b)"
    using live_delete_vm [OF assms(1), of g] by simp
  have sub: "mset (live_blocks g ?b) \<subseteq># mset (live_blocks g b)"
    unfolding live_blocks_def live
    by (intro mset_concat_le) (simp add: image_mset_subseteq_mono mset_del_first_le)
  have "set (live_blocks g ?b) \<subseteq> set (live_blocks g b)"
    using set_mset_mono [OF sub] by simp
  then have p: "\<forall>p \<in> set (live_blocks g ?b). p < next_block b \<and> clients b p \<noteq> None"
    using assms(1) unfolding table_ok_def by blast
  have d: "distinct (live_blocks g ?b)"
    using assms(1) unfolding table_ok_def by (blast intro: distinct_submset [OF sub])
  have "set (live_vms g ?b) \<subseteq> set (live_vms g b)"
    unfolding live by (rule set_del_first_subset)
  then have l: "\<forall>v \<in> set (live_vms g ?b). length (connected_clients v) = MAX_CONNECTED_CLIENTS"
    using assms(1) unfolding table_ok_def by blast
  have c: "current_vms ?b g \<le> allocated_vms b g"
    using assms(1) delete_simps(6) [of ip g port b g] unfolding table_ok_def by linarith
  show ?thesis using assms(1) p d l c unfolding table_ok_def True delete_simps(1-5) by blast
qed

lemma table_ok_add:
  assumes "table_ok g b" "table_ok h b"
  shows "table_ok h (add_vm ip g port (prepare_slot junk g b))"
proof (cases "h = g")
  case False
  then show ?thesis using table_ok_prepare [OF assms, of junk]
    by (auto simp: table_ok_def live_blocks_def live_vms_def add_vm_def)
next
  case True
  let ?p = "prepare_slot junk g b" and ?ps = "[next_block b..<next_block b + MAX_CONNECTED_CLIENTS]"
  have live: "live_vms g (add_vm ip g port ?p) = live_vms g b @ [new_vm ip port b]"
    using live_add_vm [OF assms(1), of g] by simp
  have blocks: "live_blocks g (add_vm ip g port ?p) = live_blocks g b @ ?ps"
    by (simp add: live_blocks_def live new_vm_def)
  have old: "p < next_block b \<and> clients ?p p \<noteq> None" if "p \<in> set (live_blocks g b)" for p
    using that assms(1) by (auto simp: table_ok_def prepare_clients)
  have "distinct (live_blocks g b @ ?ps)"
    using assms(1) old by (fastforce simp: table_ok_def)
  moreover have "p < next_block b + MAX_CONNECTED_CLIENTS \<and> clients ?p p \<noteq> None"
    if "p \<in> set (live_blocks g b @ ?ps)" for p
    using that old [of p]
    by (cases "p \<in> set (live_blocks g b)") (auto simp: prepare_clients)
  moreover have "length (connected_clients (new_vm ip port b)) = MAX_CONNECTED_CLIENTS"
    by (simp add: new_vm_def)
  ultimately show ?thesis
    using True assms(1) prepare_room [OF assms(1), of junk]
    by (simp add: table_ok_def blocks live) (auto simp: add_vm_def tbl_simps)
qed

section \<open>What a request does\<close>

lemma bal_ok_apply: "bal_ok b \<Longrightarrow> bal_ok (apply_request junk vm b)"
  by (cases "req_op vm")
     (auto simp: apply_request_alt bal_ok_def intro!: table_ok_add table_ok_delete table_ok_prepare)

lemma vm_keys_apply:
  assumes "bal_ok b"
  shows "vm_keys g (apply_request junk vm b) =
    (if g \<noteq> req_service vm then vm_keys g b
     else case req_op vm of
            ADD \<Rightarrow> vm_keys g b @ [(req_ip vm, req_port vm)]
          | DELETE \<Rightarrow> del_first (\<lambda>k. k = (req_ip vm, req_port vm)) (vm_keys g b)
          | REJ \<Rightarrow> del_first (\<lambda>k. k = (req_ip vm, req_port vm)) (vm_keys g b)
          | Other_Operation n \<Rightarrow> vm_keys g b)"
proof -
  let ?g = "req_service vm"
  have ok: "table_ok ?g b" "table_ok ?g (prepare_slot junk ?g b)"
    using assms by (simp_all add: bal_okD table_ok_prepare)
  show ?thesis
    by (cases "req_op vm")
       (simp_all add: apply_request_alt vm_keys_def live_add_vm [OF ok(1)] live_delete_vm [OF ok(2)]
          live_prepare [OF ok(1)] del_first_key, simp_all add: new_vm_def vm_key_def)
qed

lemma allocated_prepare:
  "allocated_vms (prepare_slot junk g b) g =
     (if current_vms b g = allocated_vms b g then 2 * allocated_vms b g else allocated_vms b g)"
  by (simp add: prepare_slot_def create_empty_list_def check_vm_data_set_size_def Let_def)

lemma length_vm_keys: "bal_ok b \<Longrightarrow> length (vm_keys g b) = current_vms b g"
  by (simp add: vm_keys_def live_vms_def bal_ok_def table_ok_def)

definition add_request :: "nat \<Rightarrow> string \<times> c_int \<Rightarrow> virtual_machine" where
  "add_request g k = \<lparr>req_ip = fst k, req_port = snd k, req_service = g, req_op = ADD\<rparr>"

definition delete_request :: "nat \<Rightarrow> string \<times> c_int \<Rightarrow> virtual_machine" where
  "delete_request g k = \<lparr>req_ip = fst k, req_port = snd k, req_service = g, req_op = DELETE\<rparr>"

text \<open>The requests of the controller give each service a table in the sense of the interface.\<close>

interpretation bal: vm_table "vm_keys g" "\<lambda>b. allocated_vms b g" bal_ok
  "\<lambda>k. apply_request junk (add_request g k)" "\<lambda>k. apply_request junk (delete_request g k)" id
  for g junk
proof (unfold_locales, goal_cases)
  case (1 t v) then show ?case by (simp add: vm_keys_apply add_request_def)
next
  case (2 t k) then show ?case by (simp add: vm_keys_apply delete_request_def)
next
  case (3 t v) then show ?case by (rule bal_ok_apply)
next
  case (4 t k) then show ?case by (rule bal_ok_apply)
next
  case (5 t) then show ?case by (simp add: length_vm_keys) (simp add: bal_ok_def table_ok_def)
next
  case (6 t v) then show ?case
    by (simp add: length_vm_keys apply_request_alt add_request_def add_vm_def allocated_prepare)
next
  case (7 t k) then show ?case
    by (simp add: apply_request_alt delete_request_def tbl_simps allocated_prepare)
qed

text \<open>
  The specification of \<open>controller_thread\<close>: every service has a multiset of (address, port)
  pairs, \<open>ADD\<close> puts one in, \<open>DELETE\<close> and \<open>REJ\<close> take one out.
\<close>

definition spec_request ::
  "virtual_machine \<Rightarrow> (nat \<Rightarrow> (string \<times> c_int) multiset) \<Rightarrow> nat \<Rightarrow> (string \<times> c_int) multiset" where
  "spec_request vm r =
     (case req_op vm of
        ADD \<Rightarrow> r(req_service vm := add_mset (req_ip vm, req_port vm) (r (req_service vm)))
      | DELETE \<Rightarrow> r(req_service vm := r (req_service vm) - {#(req_ip vm, req_port vm)#})
      | REJ \<Rightarrow> r(req_service vm := r (req_service vm) - {#(req_ip vm, req_port vm)#})
      | Other_Operation n \<Rightarrow> r)"

fun spec_requests ::
  "controller_recv list \<Rightarrow> virtual_machine \<Rightarrow> (nat \<Rightarrow> (string \<times> c_int) multiset) \<Rightarrow> nat \<Rightarrow> (string \<times> c_int) multiset"
where
  "spec_requests [] vm r = r"
| "spec_requests (ev # evs) vm r =
     spec_requests evs (request_of ev vm) (spec_request (request_of ev vm) r)"

fun services_ok :: "controller_recv list \<Rightarrow> virtual_machine \<Rightarrow> bool" where
  "services_ok [] vm = True"
| "services_ok (ev # evs) vm =
     (req_service (request_of ev vm) < NUMBER_GROUPS \<and> services_ok evs (request_of ev vm))"

definition vm_bag :: "balancer \<Rightarrow> nat \<Rightarrow> (string \<times> c_int) multiset" where
  "vm_bag b g = mset (vm_keys g b)"

lemma vm_bag_create: "vm_bag (create_system_image junk) g = {#}"
  by (simp add: vm_bag_def vm_keys_def live_vms_def create_system_image_def)

lemma vm_bag_apply:
  assumes "bal_ok b"
  shows "vm_bag (apply_request junk vm b) = spec_request vm (vm_bag b)"
proof
  fix g
  show "vm_bag (apply_request junk vm b) g = spec_request vm (vm_bag b) g"
    by (cases "req_op vm") (simp_all add: vm_bag_def vm_keys_apply [OF assms] spec_request_def mset_del_first_eq)
qed

lemma controller_thread_spec:
  assumes "bal_ok b"
  shows "if services_ok (map fst evs) vm
         then \<exists>vm' b'. controller_thread evs (vm, b) = Inr (vm', b') \<and> bal_ok b'
                \<and> vm_bag b' = spec_requests (map fst evs) vm (vm_bag b)
         else controller_thread evs (vm, b) = Inl Out_Of_Bounds"
  using assms
proof (induction evs arbitrary: vm b)
  case Nil
  then show ?case by simp
next
  case (Cons e evs)
  obtain ev junk where e: "e = (ev, junk)" by fastforce
  let ?vm = "request_of ev vm"
  have ok: "bal_ok (apply_request junk ?vm b)" using Cons.prems by (rule bal_ok_apply)
  show ?case
    using Cons.IH [OF ok, of ?vm] Cons.prems
    by (auto simp: e controller_step_def Let_def vm_bag_apply not_less not_le)
qed

text \<open>
  C1. Started on a table that satisfies the invariant, the balancer's \<open>controller_thread\<close> gets
  through every sequence of requests, timeouts and shutdowns whose services are in range; it
  keeps the invariant, and the machines it then holds for each service are those of the
  specification, duplicates counted, whatever the reallocations and moves inside the arrays.
  With a service out of range it stops at an access outside the arrays.
\<close>

theorem controller_thread_refines:
  assumes "bal_ok b"
  shows "if services_ok (map fst evs) vm
         then \<exists>vm' b'. controller_thread evs (vm, b) = Inr (vm', b') \<and> bal_ok b'
                \<and> vm_bag b' = spec_requests (map fst evs) vm (vm_bag b)
         else controller_thread evs (vm, b) = Inl Out_Of_Bounds"
  using assms by (rule controller_thread_spec)

text \<open>A request followed by a shutdown of the connection: the request is executed twice.\<close>

definition some_vm :: vm_data where
  "some_vm = \<lparr>ip_address = '''', vm_port = 0, connected_clients = []\<rparr>"

theorem controller_thread_refines_witness:
  "\<exists>vm b. controller_thread
      [(Request (add_request 0 (''10.0.0.1'', 80)), \<lambda>_. some_vm), (Recv_Closed, \<lambda>_. some_vm)]
      (delete_request 0 ('''', 0), create_system_image (\<lambda>_ _. some_vm)) = Inr (vm, b)
    \<and> vm_bag b 0 = {#(''10.0.0.1'', 80), (''10.0.0.1'', 80)#}"
proof -
  let ?evs = "[(Request (add_request 0 (''10.0.0.1'', 80)), \<lambda>_. some_vm), (Recv_Closed, \<lambda>_. some_vm)]"
  let ?b = "create_system_image (\<lambda>_ _. some_vm)"
  have "services_ok (map fst ?evs) (delete_request 0 ('''', 0))"
    by (simp add: add_request_def NUMBER_GROUPS_def)
  with controller_thread_refines [OF bal_ok_create, of ?evs "delete_request 0 ('''', 0)" "\<lambda>_ _. some_vm"]
  obtain vm' b' where r: "controller_thread ?evs (delete_request 0 ('''', 0), ?b) = Inr (vm', b')"
    and bag: "vm_bag b' = spec_requests (map fst ?evs) (delete_request 0 ('''', 0)) (vm_bag ?b)"
    by auto
  have "vm_bag b' 0 = {#(''10.0.0.1'', 80), (''10.0.0.1'', 80)#}"
    unfolding bag by (simp add: spec_request_def add_request_def vm_bag_create)
  with r show ?thesis by blast
qed

section \<open>Routing\<close>

lemma search_from_eq:
  "\<forall>p \<in> set ps. h p \<noteq> None \<Longrightarrow>
   search_from h ip k ps =
     Inr (case find_index (\<lambda>p. h p = Some ip) ps of None \<Rightarrow> 0 | Some j \<Rightarrow> Suc (k + j))"
  by (induction h ip k ps rule: search_from.induct) (auto split: option.splits)

definition holds :: "balancer \<Rightarrow> string \<Rightarrow> vm_data \<Rightarrow> bool" where
  "holds b ip v \<longleftrightarrow> (\<exists>p \<in> set (connected_clients v). clients b p = Some ip)"

definition client_slot :: "balancer \<Rightarrow> string \<Rightarrow> vm_data \<Rightarrow> nat option" where
  "client_slot b ip v = find_index (\<lambda>p. clients b p = Some ip) (connected_clients v)"

lemma search_ip_eq:
  "\<forall>p \<in> set (connected_clients v). clients b p \<noteq> None \<Longrightarrow>
   search_ip (clients b) v ip = Inr (case client_slot b ip v of None \<Rightarrow> 0 | Some j \<Rightarrow> Suc j)"
  by (simp add: search_ip_def search_from_eq client_slot_def split: option.split)

lemma holds_iff: "holds b ip v \<longleftrightarrow> client_slot b ip v \<noteq> None"
  by (auto simp: holds_def client_slot_def find_index_None_iff)

lemma find_client_eq:
  "\<forall>v \<in> set vs. \<forall>p \<in> set (connected_clients v). clients b p \<noteq> None \<Longrightarrow>
   find_client (clients b) ip vs = Inr (map_option ((!) vs) (find_index (holds b ip) vs))"
proof (induction vs)
  case (Cons v vs)
  have "search_ip (clients b) v ip = Inr (case client_slot b ip v of None \<Rightarrow> 0 | Some j \<Rightarrow> Suc j)"
    using Cons.prems by (simp add: search_ip_eq)
  then show ?case
    using Cons by (auto simp: holds_iff option.map_comp comp_def split: option.split)
qed simp

lemma live_initialised:
  assumes "bal_ok b" "v \<in> set (live_vms g b)" "p \<in> set (connected_clients v)"
  shows "clients b p \<noteq> None"
  using assms by (auto simp: bal_ok_def table_ok_def live_blocks_def)

lemma reset_simps [tbl_simps]:
  "clients (reset_index b) = clients b"
  "current_vms (reset_index b) = current_vms b"
  "vm_data_set (reset_index b) = vm_data_set b"
  "allocated_vms (reset_index b) = allocated_vms b"
  "next_block (reset_index b) = next_block b"
  "live_vms g (reset_index b) = live_vms g b"
  "actual_index (reset_index b) 0 = (if actual_index b 0 = current_vms b 0 then 0 else actual_index b 0)"
  by (simp_all add: reset_index_def live_vms_def)

text \<open>The index points into the live entries whenever it has not run past them.\<close>

definition next_index :: "balancer \<Rightarrow> nat" where
  "next_index b = (if actual_index b 0 = current_vms b 0 then 0 else actual_index b 0)"

definition index_ok :: "balancer \<Rightarrow> bool" where
  "index_ok b \<longleftrightarrow> actual_index b 0 \<le> current_vms b 0 \<and> 0 < current_vms b 0"

lemma length_live: "bal_ok b \<Longrightarrow> length (live_vms g b) = current_vms b g"
  by (simp add: live_vms_def bal_ok_def table_ok_def)

lemma route:
  assumes ok: "bal_ok b" and ix: "index_ok b"
  shows "get_current_socket True True True ip b =
    (case find_index (holds b ip) (live_vms 0 b) of
       Some j \<Rightarrow> Inr (vm_key (live_vms 0 b ! j), reset_index b)
     | None \<Rightarrow>
        (case client_slot b no_client (live_vms 0 b ! next_index b) of
           None \<Rightarrow> Inl Out_Of_Bounds
         | Some k \<Rightarrow> Inr (vm_key (live_vms 0 b ! next_index b),
             (reset_index b)\<lparr>clients := (clients b)(connected_clients (live_vms 0 b ! next_index b) ! k \<mapsto> ip),
                actual_index := (actual_index (reset_index b))(0 := next_index b + 1)\<rparr>)))"
proof -
  let ?i = "next_index b"
  have i: "?i < current_vms b 0" using ix by (auto simp: index_ok_def next_index_def)
  have len: "current_vms b 0 \<le> length (vm_data_set b 0)"
    using ok by (simp add: bal_ok_def table_ok_def)
  have nth: "live_vms 0 b ! ?i = vm_data_set b 0 ! ?i" using i by (simp add: live_vms_def)
  have "live_vms 0 b ! ?i \<in> set (live_vms 0 b)" using i ok by (simp add: length_live)
  then have s: "search_ip (clients b) (vm_data_set b 0 ! ?i) no_client =
      Inr (case client_slot b no_client (live_vms 0 b ! ?i) of None \<Rightarrow> 0 | Some k \<Rightarrow> Suc k)"
    using live_initialised [OF ok] nth by (simp add: search_ip_eq)
  have idx: "actual_index (reset_index b) 0 = ?i" by (simp add: tbl_simps next_index_def)
  have p: "place_client ip (reset_index b) =
     (case client_slot b no_client (live_vms 0 b ! ?i) of
           None \<Rightarrow> Inl Out_Of_Bounds
         | Some k \<Rightarrow> Inr (vm_key (live_vms 0 b ! ?i),
             (reset_index b)\<lparr>clients := (clients b)(connected_clients (live_vms 0 b ! ?i) ! k \<mapsto> ip),
                actual_index := (actual_index (reset_index b))(0 := ?i + 1)\<rparr>))"
    using i len s nth unfolding place_client_def Let_def idx
    by (auto simp: reset_simps(1-6) vm_key_def split: option.split)
  have f: "find_client (clients b) ip (take (current_vms b 0) (vm_data_set b 0)) =
      Inr (map_option ((!) (live_vms 0 b)) (find_index (holds b ip) (live_vms 0 b)))"
    unfolding live_vms_def [symmetric] by (rule find_client_eq) (use live_initialised [OF ok] in blast)
  show ?thesis
    by (simp add: get_current_socket_def check_already_connected_def reset_simps(1-6) f p vm_key_def
        split: option.split)
qed

text \<open>
  Connections are served one at a time: the accepting thread takes \<open>mutex\<close> before it starts the
  thread of a connection, which releases it after \<open>get_current_socket\<close>. This is the sequence of
  the choices for a list of client addresses, when every socket call succeeds.
\<close>

fun accept_clients :: "string list \<Rightarrow> balancer \<Rightarrow> ((string \<times> c_int) list \<times> balancer) res" where
  "accept_clients [] b = Inr ([], b)"
| "accept_clients (ip # ips) b =
     rbind (get_current_socket True True True ip b)
       (\<lambda>(d, b'). rbind (accept_clients ips b') (\<lambda>(ds, b''). Inr (d # ds, b'')))"

lemma accept_clients_append:
  "accept_clients (xs @ ys) b =
     rbind (accept_clients xs b)
       (\<lambda>(ds, b'). rbind (accept_clients ys b') (\<lambda>(es, b''). Inr (ds @ es, b'')))"
proof (induction xs arbitrary: b)
  case Nil
  show ?case by (cases "accept_clients ys b") auto
next
  case (Cons x xs)
  show ?case
    by (cases "get_current_socket True True True x b")
       (auto simp: Cons.IH rbind_assoc split_beta)
qed

text \<open>Two positions of the client lists are the same block only if they are the same position.\<close>

lemma concat_nth_inj:
  "distinct (concat (map f vs)) \<Longrightarrow> i < length vs \<Longrightarrow> i' < length vs \<Longrightarrow>
   j < length (f (vs ! i)) \<Longrightarrow> j' < length (f (vs ! i')) \<Longrightarrow>
   f (vs ! i) ! j = f (vs ! i') ! j' \<longleftrightarrow> i = i' \<and> j = j'"
proof (induction vs arbitrary: i i')
  case (Cons v vs)
  have no: "f v ! a \<noteq> f (vs ! k) ! c" if "a < length (f v)" "k < length vs" "c < length (f (vs ! k))" for a k c
  proof -
    have "f (vs ! k) ! c \<in> (\<Union>x \<in> set vs. set (f x))" using that by (meson UN_I nth_mem)
    moreover have "f v ! a \<in> set (f v)" using that by simp
    ultimately show ?thesis using Cons.prems(1) by auto
  qed
  show ?case
  proof (cases i; cases i')
    assume "i = 0" "i' = 0"
    then show ?thesis using Cons.prems by (simp add: nth_eq_iff_index_eq)
  next
    fix k assume "i = 0" "i' = Suc k"
    then show ?thesis using Cons.prems no [of j k j'] by simp
  next
    fix k assume "i = Suc k" "i' = 0"
    moreover have "f v ! j' \<noteq> f (vs ! k) ! j" using Cons.prems calculation by (intro no) simp_all
    ultimately show ?thesis using Cons.prems by auto
  next
    fix k k' assume "i = Suc k" "i' = Suc k'"
    then show ?thesis using Cons.prems Cons.IH [of k k'] by simp
  qed
qed simp

lemma length_blocks:
  assumes "bal_ok b" "i < current_vms b 0"
  shows "length (connected_clients (live_vms 0 b ! i)) = MAX_CONNECTED_CLIENTS"
proof -
  have "live_vms 0 b ! i \<in> set (live_vms 0 b)" using assms by (simp add: length_live)
  then show ?thesis using assms(1) by (simp add: bal_ok_def table_ok_def)
qed

lemma block_inj:
  assumes "bal_ok b" "i < current_vms b 0" "i' < current_vms b 0"
    and "j < MAX_CONNECTED_CLIENTS" "j' < MAX_CONNECTED_CLIENTS"
  shows "connected_clients (live_vms 0 b ! i) ! j = connected_clients (live_vms 0 b ! i') ! j'
         \<longleftrightarrow> i = i' \<and> j = j'"
proof (rule concat_nth_inj)
  show "distinct (concat (map connected_clients (live_vms 0 b)))"
    using assms(1) by (simp add: bal_ok_def table_ok_def live_blocks_def)
  show "j < length (connected_clients (live_vms 0 b ! i))"
    "j' < length (connected_clients (live_vms 0 b ! i'))" using assms by (simp_all add: length_blocks)
qed (use assms in \<open>simp_all add: length_live\<close>)

text \<open>
  The state after the first \<open>k\<close> of the addresses \<open>ips\<close> were placed on \<open>n\<close> machines: position
  \<open>j\<close> of machine \<open>i\<close> holds address number \<open>i + n * j\<close>.
\<close>

definition placed :: "string list \<Rightarrow> nat \<Rightarrow> balancer \<Rightarrow> bool" where
  "placed ips k b \<longleftrightarrow>
     bal_ok b \<and> next_index b = k mod current_vms b 0 \<and> index_ok b \<and>
     (\<forall>i < current_vms b 0. \<forall>j < MAX_CONNECTED_CLIENTS.
        clients b (connected_clients (live_vms 0 b ! i) ! j) =
          Some (if i + current_vms b 0 * j < k then ips ! (i + current_vms b 0 * j) else no_client))"

lemma placed_holds:
  assumes "placed ips k b" "k \<le> length ips" "ip \<notin> set (take k ips)" "ip \<noteq> no_client"
    and "v \<in> set (live_vms 0 b)"
  shows "\<not> holds b ip v"
proof
  assume "holds b ip v"
  then obtain p where p: "p \<in> set (connected_clients v)" "clients b p = Some ip"
    by (auto simp: holds_def)
  have ok: "bal_ok b" using assms(1) by (simp add: placed_def)
  obtain i where i: "i < current_vms b 0" "v = live_vms 0 b ! i"
    using assms(5) length_live [OF ok, of 0] by (auto simp: in_set_conv_nth)
  obtain j where j: "j < MAX_CONNECTED_CLIENTS" "p = connected_clients v ! j"
    using p(1) length_blocks [OF ok i(1)] i(2) by (auto simp: in_set_conv_nth)
  let ?m = "i + current_vms b 0 * j"
  have "clients b p = Some (if ?m < k then ips ! ?m else no_client)"
    using assms(1) i j by (simp add: placed_def)
  then have m: "?m < k" "ips ! ?m = ip" using p(2) assms(4) by (auto split: if_splits)
  then have "take k ips ! ?m = ip" "?m < length (take k ips)" using assms(2) by simp_all
  then show False using assms(3) nth_mem by blast
qed

lemma position_eq:
  fixes n :: nat
  assumes "i < n"
  shows "i + n * j = k \<longleftrightarrow> i = k mod n \<and> j = k div n"
  using assms by auto

lemma placed_slot:
  assumes "placed ips k b" "k \<le> length ips" "no_client \<notin> set ips"
  shows "client_slot b no_client (live_vms 0 b ! (k mod current_vms b 0)) =
    (if k < current_vms b 0 * MAX_CONNECTED_CLIENTS then Some (k div current_vms b 0) else None)"
proof -
  let ?n = "current_vms b 0" and ?v = "live_vms 0 b ! (k mod current_vms b 0)"
  have n: "0 < ?n" and ok: "bal_ok b" using assms(1) by (simp_all add: placed_def index_ok_def)
  have len: "length (connected_clients ?v) = MAX_CONNECTED_CLIENTS"
    using length_blocks [OF ok] n by simp
  have c: "clients b (connected_clients ?v ! j) = Some no_client \<longleftrightarrow> k div ?n \<le> j"
    if "j < MAX_CONNECTED_CLIENTS" for j
  proof -
    have "k mod ?n + ?n * j < k \<longleftrightarrow> j < k div ?n"
    proof -
      have "k = k mod ?n + ?n * (k div ?n)" by simp
      then have "k mod ?n + ?n * j < k \<longleftrightarrow> ?n * j < ?n * (k div ?n)" by linarith
      then show ?thesis using n by simp
    qed
    moreover have "ips ! (k mod ?n + ?n * j) \<noteq> no_client" if "k mod ?n + ?n * j < k"
      using that assms(2,3) by (metis nth_mem order_less_le_trans)
    ultimately show ?thesis using assms(1) that n by (auto simp: placed_def)
  qed
  have d: "k div ?n < MAX_CONNECTED_CLIENTS \<longleftrightarrow> k < ?n * MAX_CONNECTED_CLIENTS"
    using n by (simp add: div_less_iff_less_mult mult.commute)
  show ?thesis
  proof (cases "k < ?n * MAX_CONNECTED_CLIENTS")
    case True
    then have "client_slot b no_client ?v = Some (k div ?n)"
      unfolding client_slot_def using c d len by (intro find_index_eq_SomeI) auto
    then show ?thesis using True by simp
  next
    case False
    have "\<not> clients b p = Some no_client" if "p \<in> set (connected_clients ?v)" for p
      using that c d len False by (auto simp: in_set_conv_nth)
    then show ?thesis using False by (simp add: client_slot_def find_index_None_iff)
  qed
qed

text \<open>Writing a client's address keeps the invariant.\<close>

lemma bal_ok_write:
  assumes "bal_ok b" "clients b p \<noteq> None"
  shows "bal_ok ((reset_index b)\<lparr>clients := (clients b)(p \<mapsto> ip), actual_index := ai\<rparr>)"
  using assms by (auto simp: bal_ok_def table_ok_def live_blocks_def live_vms_def tbl_simps)

lemma place_step:
  assumes pl: "placed ips k b" and k: "k < length ips" "k < current_vms b 0 * MAX_CONNECTED_CLIENTS"
    and ips: "distinct ips" "no_client \<notin> set ips"
  shows "\<exists>b'. get_current_socket True True True (ips ! k) b
      = Inr (vm_key (live_vms 0 b ! (k mod current_vms b 0)), b')
    \<and> placed ips (Suc k) b' \<and> live_vms 0 b' = live_vms 0 b \<and> current_vms b' = current_vms b"
proof -
  let ?n = "current_vms b 0" and ?i = "k mod current_vms b 0" and ?j = "k div current_vms b 0"
  let ?p = "connected_clients (live_vms 0 b ! ?i) ! ?j"
  let ?b = "(reset_index b)\<lparr>clients := (clients b)(?p \<mapsto> ips ! k),
    actual_index := (actual_index (reset_index b))(0 := ?i + 1)\<rparr>"
  have ok: "bal_ok b" and ix: "index_ok b" and n: "0 < ?n" and nx: "next_index b = ?i"
    using pl by (simp_all add: placed_def index_ok_def)
  have j: "?j < MAX_CONNECTED_CLIENTS" using k(2) n by (simp add: div_less_iff_less_mult mult.commute)
  have i: "?i < ?n" using n by simp
  have "ips ! k \<notin> set (take k ips)"
    using ips(1) k(1) by (auto simp: in_set_conv_nth nth_eq_iff_index_eq)
  moreover have "ips ! k \<noteq> no_client" using ips(2) k(1) by (metis nth_mem)
  ultimately have "find_index (holds b (ips ! k)) (live_vms 0 b) = None"
    using placed_holds [OF pl] k(1) by (simp add: find_index_None_iff)
  moreover have "client_slot b no_client (live_vms 0 b ! ?i) = Some ?j"
    using placed_slot [OF pl _ ips(2)] k by simp
  ultimately have r: "get_current_socket True True True (ips ! k) b = Inr (vm_key (live_vms 0 b ! ?i), ?b)"
    using route [OF ok ix, of "ips ! k"] by (simp add: nx)
  have "?p \<in> set (connected_clients (live_vms 0 b ! ?i))"
    using length_blocks [OF ok i] j by simp
  then have "clients b ?p \<noteq> None"
    using live_initialised [OF ok _] i length_live [OF ok, of 0] by (metis nth_mem)
  from bal_ok_write [OF ok this] have okb: "bal_ok ?b" .
  have cs: "clients ?b (connected_clients (live_vms 0 b ! i) ! j)
      = Some (if i + ?n * j < Suc k then ips ! (i + ?n * j) else no_client)"
    if "i < ?n" "j < MAX_CONNECTED_CLIENTS" for i j
  proof (cases "i + ?n * j = k")
    case True
    then have "i = ?i" "j = ?j" using that position_eq by blast+
    then show ?thesis using True by simp
  next
    case False
    then have "connected_clients (live_vms 0 b ! i) ! j \<noteq> ?p"
      using block_inj [OF ok that(1) i that(2) j] position_eq [OF that(1)] by blast
    then show ?thesis using pl that False by (simp add: placed_def less_Suc_eq)
  qed
  have "next_index ?b = Suc k mod ?n" "index_ok ?b"
    using i by (auto simp: next_index_def index_ok_def tbl_simps mod_Suc)
  then have "placed ips (Suc k) ?b"
    unfolding placed_def using okb cs by (simp add: live_vms_def tbl_simps)
  then show ?thesis using r by (intro exI [of _ ?b]) (simp add: live_vms_def tbl_simps)
qed

lemma accept_prefix:
  assumes pl: "placed ips 0 b" and ips: "distinct ips" "no_client \<notin> set ips"
    and m: "m \<le> length ips" "m \<le> current_vms b 0 * MAX_CONNECTED_CLIENTS"
  shows "\<exists>b'. accept_clients (take m ips) b
      = Inr (map (\<lambda>k. vm_keys 0 b ! (k mod current_vms b 0)) [0..<m], b')
    \<and> placed ips m b' \<and> live_vms 0 b' = live_vms 0 b \<and> current_vms b' = current_vms b"
  using m
proof (induction m)
  case 0
  then show ?case using pl by simp
next
  case (Suc m)
  let ?n = "current_vms b 0"
  obtain b' where b': "accept_clients (take m ips) b = Inr (map (\<lambda>k. vm_keys 0 b ! (k mod ?n)) [0..<m], b')"
    "placed ips m b'" "live_vms 0 b' = live_vms 0 b" "current_vms b' = current_vms b"
    using Suc by auto
  have "m mod ?n < length (live_vms 0 b)"
    using pl by (simp add: placed_def index_ok_def length_live)
  then have key: "vm_key (live_vms 0 b ! (m mod ?n)) = vm_keys 0 b ! (m mod ?n)"
    by (simp add: vm_keys_def)
  obtain b'' where b'': "get_current_socket True True True (ips ! m) b' = Inr (vm_keys 0 b ! (m mod ?n), b'')"
    "placed ips (Suc m) b''" "live_vms 0 b'' = live_vms 0 b" "current_vms b'' = current_vms b"
    using place_step [OF b'(2) _ _ ips] Suc.prems b'(3,4) key by auto
  have t: "take (Suc m) ips = take m ips @ [ips ! m]"
    using Suc.prems by (simp add: take_Suc_conv_app_nth)
  show ?case unfolding t accept_clients_append using b'(1) b'' by simp
qed

text \<open>
  C28. Placement of new clients. On machines whose client lists are empty, clients with distinct
  addresses are dealt to the machines in turn; each machine takes five. The first client after
  that is not refused: the search for a free position returns 0 and the address is written
  through \<open>connected_clients[-1]\<close>.
\<close>

theorem round_robin:
  assumes "bal_ok b" "0 < current_vms b 0" "actual_index b 0 \<in> {0, current_vms b 0}"
    and "\<forall>p \<in> set (live_blocks 0 b). clients b p = Some no_client"
    and "distinct ips" "no_client \<notin> set ips"
  shows "if length ips \<le> current_vms b 0 * MAX_CONNECTED_CLIENTS
    then \<exists>b'. accept_clients ips b
           = Inr (map (\<lambda>k. vm_keys 0 b ! (k mod current_vms b 0)) [0..<length ips], b')
    else accept_clients ips b = Inl Out_Of_Bounds"
proof -
  let ?n = "current_vms b 0" and ?m = "current_vms b 0 * MAX_CONNECTED_CLIENTS"
  have "clients b (connected_clients (live_vms 0 b ! i) ! j) = Some no_client"
    if "i < ?n" "j < MAX_CONNECTED_CLIENTS" for i j
  proof -
    have "live_vms 0 b ! i \<in> set (live_vms 0 b)" using that assms(1) by (simp add: length_live)
    moreover have "connected_clients (live_vms 0 b ! i) ! j \<in> set (connected_clients (live_vms 0 b ! i))"
      using that assms(1) by (simp add: length_blocks)
    ultimately show ?thesis using assms(4) by (auto simp: live_blocks_def)
  qed
  then have pl: "placed ips 0 b"
    using assms(1,2,3) by (auto simp: placed_def next_index_def index_ok_def)
  show ?thesis
  proof (cases "length ips \<le> ?m")
    case True
    then show ?thesis using accept_prefix [OF pl assms(5,6), of "length ips"] by auto
  next
    case False
    then obtain b' where b': "accept_clients (take ?m ips) b
        = Inr (map (\<lambda>k. vm_keys 0 b ! (k mod ?n)) [0..<?m], b')"
      "placed ips ?m b'" "current_vms b' = current_vms b"
      using accept_prefix [OF pl assms(5,6), of ?m] by auto
    have "?m < length ips" using False by simp
    then have new: "ips ! ?m \<notin> set (take ?m ips)" and mem: "ips ! ?m \<in> set ips"
      using assms(5) by (auto simp: in_set_conv_nth nth_eq_iff_index_eq)
    have "ips ! ?m \<noteq> no_client" using mem assms(6) by metis
    then have "find_index (holds b' (ips ! ?m)) (live_vms 0 b') = None"
      using placed_holds [OF b'(2) _ new] False unfolding find_index_None_iff by simp
    moreover have "client_slot b' no_client (live_vms 0 b' ! next_index b') = None"
      using placed_slot [OF b'(2) _ assms(6)] False b'(2,3) by (simp add: placed_def)
    ultimately have "get_current_socket True True True (ips ! ?m) b' = Inl Out_Of_Bounds"
      using route [of b' "ips ! ?m"] b'(2) by (simp add: placed_def)
    moreover have "ips = take ?m ips @ ips ! ?m # drop (Suc ?m) ips"
      using False by (simp add: id_take_nth_drop [symmetric])
    ultimately have "accept_clients ips b = Inl Out_Of_Bounds"
      using b'(1) accept_clients_append [of "take ?m ips" "ips ! ?m # drop (Suc ?m) ips" b] by simp
    then show ?thesis using False by simp
  qed
qed

lemma get_current_socket_ok:
  assumes ok: "bal_ok b" "index_ok b"
    and r: "get_current_socket True True True ip b = Inr (d, b')"
  shows "bal_ok b' \<and> index_ok b' \<and> live_vms 0 b' = live_vms 0 b"
proof (cases "find_index (holds b ip) (live_vms 0 b)")
  case (Some j)
  then have "b' = reset_index b" using r route [OF ok, of ip] by simp
  then show ?thesis using ok
    by (auto simp: bal_ok_def table_ok_def live_blocks_def tbl_simps index_ok_def)
next
  case None
  let ?i = "next_index b" and ?v = "live_vms 0 b ! next_index b"
  obtain k where k: "client_slot b no_client ?v = Some k"
    and b': "b' = (reset_index b)\<lparr>clients := (clients b)(connected_clients ?v ! k \<mapsto> ip),
                actual_index := (actual_index (reset_index b))(0 := ?i + 1)\<rparr>"
    using r route [OF ok, of ip] None by (auto split: option.splits)
  have i: "?i < current_vms b 0" using ok(2) by (auto simp: index_ok_def next_index_def)
  have "k < length (connected_clients ?v)"
    using k find_index_SomeD by (fastforce simp: client_slot_def)
  moreover have "?v \<in> set (live_vms 0 b)" using i ok(1) by (simp add: length_live)
  ultimately have "clients b (connected_clients ?v ! k) \<noteq> None"
    using live_initialised [OF ok(1)] by simp
  from bal_ok_write [OF ok(1) this] i show ?thesis
    by (simp add: b' index_ok_def live_vms_def tbl_simps)
qed

lemma accept_clients_ok:
  "bal_ok b \<Longrightarrow> index_ok b \<Longrightarrow> accept_clients ips b = Inr (ds, b') \<Longrightarrow> bal_ok b' \<and> index_ok b'"
proof (induction ips arbitrary: b ds)
  case (Cons ip ips)
  obtain d b1 ds1 where g: "get_current_socket True True True ip b = Inr (d, b1)"
    and a: "accept_clients ips b1 = Inr (ds1, b')"
    using Cons.prems(3) by (auto simp: res_simps)
  from Cons.IH [OF _ _ a] get_current_socket_ok [OF Cons.prems(1,2) g] show ?case by simp
qed simp


section \<open>A concrete balancer\<close>

definition two_vms :: balancer where
  "two_vms = apply_request (\<lambda>_. some_vm) (add_request 0 (''10.0.0.2'', 80))
     (apply_request (\<lambda>_. some_vm) (add_request 0 (''10.0.0.1'', 80)) (create_system_image (\<lambda>_ _. some_vm)))"

lemma two_vms_ok: "bal_ok two_vms"
  by (simp add: two_vms_def bal_ok_apply bal_ok_create)

lemma two_vms_live:
  "live_vms 0 two_vms = [\<lparr>ip_address = ''10.0.0.1'', vm_port = 80, connected_clients = [0..<5]\<rparr>,
     \<lparr>ip_address = ''10.0.0.2'', vm_port = 80, connected_clients = [5..<10]\<rparr>]"
  "current_vms two_vms 0 = 2" "actual_index two_vms 0 = 0"
  by (simp_all add: two_vms_def apply_request_def create_system_image_def check_vm_data_set_size_def
      create_empty_list_def add_vm_def add_request_def live_vms_def NUMBER_VMs_def
      MAX_CONNECTED_CLIENTS_def Let_def upt_rec [of _ "numeral n" for n] eval_nat_numeral some_vm_def)

lemma two_vms_clients: "p < 10 \<Longrightarrow> clients two_vms p = Some no_client"
  by (auto simp: two_vms_def apply_request_def create_system_image_def check_vm_data_set_size_def
      create_empty_list_def add_vm_def add_request_def NUMBER_VMs_def MAX_CONNECTED_CLIENTS_def Let_def)

lemma two_vms_keys: "vm_keys 0 two_vms = [(''10.0.0.1'', 80), (''10.0.0.2'', 80)]"
  by (simp add: vm_keys_def two_vms_live vm_key_def)

lemma two_vms_free: "\<forall>p \<in> set (live_blocks 0 two_vms). clients two_vms p = Some no_client"
  by (auto simp: live_blocks_def two_vms_live two_vms_clients)

theorem round_robin_witness:
  "\<exists>b'. accept_clients [''192.168.0.1'', ''192.168.0.2'', ''192.168.0.3''] two_vms
     = Inr ([(''10.0.0.1'', 80), (''10.0.0.2'', 80), (''10.0.0.1'', 80)], b')"
  using round_robin [OF two_vms_ok _ _ two_vms_free, of "[''192.168.0.1'', ''192.168.0.2'', ''192.168.0.3'']"]
  by (simp add: two_vms_live two_vms_keys no_client_def MAX_CONNECTED_CLIENTS_def upt_rec)


text \<open>
  C32. Removing a machine does not adjust the index of the next machine, and the wrap-around
  only tests it for equality with the count. Once the index lies beyond the count, every new
  client is sent to the array slot the index points to, which no live machine occupies, and the
  index moves on: it never returns to the live machines by serving clients.
\<close>

theorem stale_index:
  assumes "bal_ok b" "current_vms b 0 < actual_index b 0"
    and "\<forall>v \<in> set (live_vms 0 b). \<not> holds b ip v"
  shows "case get_current_socket True True True ip b of
           Inl e \<Rightarrow> e = Out_Of_Bounds \<or> e = Uninit_Read
         | Inr (d, b') \<Rightarrow> d = vm_key (vm_data_set b 0 ! actual_index b 0)
             \<and> actual_index b' 0 = actual_index b 0 + 1 \<and> current_vms b' 0 < actual_index b' 0"
proof -
  have "find_client (clients b) ip (take (current_vms b 0) (vm_data_set b 0)) = Inr None"
    unfolding live_vms_def [symmetric]
    using assms(3) live_initialised [OF assms(1)] by (simp add: find_client_eq find_index_None_iff)
  moreover have "e = Uninit_Read" if "search_from h s k ps = Inl e" for h s k ps e
    using that by (induction h s k ps rule: search_from.induct) (auto split: option.splits if_splits)
  moreover have "reset_index b = b" using assms(2) by (simp add: reset_index_def)
  ultimately show ?thesis
    using assms(2) by (cases "search_ip (clients b) (vm_data_set b 0 ! actual_index b 0) no_client")
       (auto simp: get_current_socket_def check_already_connected_def place_client_def Let_def
          vm_key_def search_ip_def)
qed

text \<open>
  Two machines, two clients, the second machine removed: the third client is sent to what the
  never initialised third slot of the array holds.
\<close>

lemma accept_two:
  "accept_clients [''192.168.0.1'', ''192.168.0.2''] two_vms =
     Inr ([(''10.0.0.1'', 80), (''10.0.0.2'', 80)],
       two_vms\<lparr>clients := (clients two_vms)(0 \<mapsto> ''192.168.0.1'', 5 \<mapsto> ''192.168.0.2''),
         actual_index := (actual_index two_vms)(0 := 2)\<rparr>)"
proof -
  have ix: "index_ok two_vms" by (simp add: index_ok_def two_vms_live)
  let ?b = "two_vms\<lparr>clients := (clients two_vms)(0 \<mapsto> ''192.168.0.1''),
    actual_index := (actual_index two_vms)(0 := 1)\<rparr>"
  have s1: "get_current_socket True True True ''192.168.0.1'' two_vms = Inr ((''10.0.0.1'', 80), ?b)"
    using route [OF two_vms_ok ix, of "''192.168.0.1''"]
    by (simp add: two_vms_live two_vms_clients holds_def client_slot_def next_index_def reset_index_def
        no_client_def vm_key_def upt_rec)
  have ok: "bal_ok ?b" "index_ok ?b" and live: "live_vms 0 ?b = live_vms 0 two_vms"
    using get_current_socket_ok [OF two_vms_ok ix s1] by simp_all
  have s2: "get_current_socket True True True ''192.168.0.2'' ?b = Inr ((''10.0.0.2'', 80),
     two_vms\<lparr>clients := (clients two_vms)(0 \<mapsto> ''192.168.0.1'', 5 \<mapsto> ''192.168.0.2''),
         actual_index := (actual_index two_vms)(0 := 2)\<rparr>)"
    using route [OF ok, of "''192.168.0.2''"] unfolding live
    by (simp add: two_vms_live two_vms_clients holds_def client_slot_def next_index_def reset_index_def
        no_client_def vm_key_def upt_rec eval_nat_numeral)
  show ?thesis using s1 s2 by simp
qed

definition two_clients :: balancer where
  "two_clients = two_vms\<lparr>clients := (clients two_vms)(0 \<mapsto> ''192.168.0.1'', 5 \<mapsto> ''192.168.0.2''),
         actual_index := (actual_index two_vms)(0 := 2)\<rparr>"

definition after_delete :: balancer where
  "after_delete = apply_request (\<lambda>_. some_vm) (delete_request 0 (''10.0.0.2'', 80)) two_clients"

lemma after_delete_state:
  "bal_ok after_delete" "current_vms after_delete 0 = 1" "actual_index after_delete 0 = 2"
  "live_vms 0 after_delete = [\<lparr>ip_address = ''10.0.0.1'', vm_port = 80, connected_clients = [0..<5]\<rparr>]"
  "vm_key (vm_data_set after_delete 0 ! 2) = vm_key some_vm"
proof -
  have "index_ok two_vms" by (simp add: index_ok_def two_vms_live)
  from accept_clients_ok [OF two_vms_ok this accept_two]
  have ok: "bal_ok two_clients" by (simp add: two_clients_def)
  then show ok': "bal_ok after_delete" by (simp add: after_delete_def bal_ok_apply)
  have alt: "after_delete = delete_vm ''10.0.0.2'' 0 80 (prepare_slot (\<lambda>_. some_vm) 0 two_clients)"
    by (simp add: after_delete_def apply_request_alt delete_request_def)
  have live: "live_vms 0 two_clients = live_vms 0 two_vms" by (simp add: two_clients_def live_vms_def)
  show l: "live_vms 0 after_delete = [\<lparr>ip_address = ''10.0.0.1'', vm_port = 80, connected_clients = [0..<5]\<rparr>]"
    unfolding alt live_delete_vm [OF table_ok_prepare [OF bal_okD [OF ok] bal_okD [OF ok]]]
      live_prepare [OF bal_okD [OF ok]] live
    by (simp add: two_vms_live del_first_def swap_del_def)
  show "current_vms after_delete 0 = 1" using length_live [OF ok', of 0] l by simp
  show "actual_index after_delete 0 = 2" by (simp add: alt tbl_simps two_clients_def)
  have "vm_data_set two_vms 0 = live_vms 0 two_vms @ [some_vm, some_vm, some_vm]"
    unfolding two_vms_live
    by (simp add: two_vms_def apply_request_def create_system_image_def check_vm_data_set_size_def
      create_empty_list_def add_vm_def add_request_def NUMBER_VMs_def
      MAX_CONNECTED_CLIENTS_def Let_def upt_rec [of _ "numeral n" for n] eval_nat_numeral some_vm_def)
  moreover have "allocated_vms two_vms 0 = 5"
    by (simp add: two_vms_def apply_request_def create_system_image_def check_vm_data_set_size_def
      create_empty_list_def add_vm_def add_request_def NUMBER_VMs_def Let_def)
  ultimately show "vm_key (vm_data_set after_delete 0 ! 2) = vm_key some_vm"
    by (simp add: alt delete_vm_def prepare_slot_def check_vm_data_set_size_def create_empty_list_def
        Let_def two_clients_def two_vms_live vm_key_def eval_nat_numeral)
qed

theorem stale_index_witness:
  "\<exists>b ds. accept_clients [''192.168.0.1'', ''192.168.0.2''] two_vms = Inr (ds, b)
     \<and> (case get_current_socket True True True ''192.168.0.3''
            (apply_request (\<lambda>_. some_vm) (delete_request 0 (''10.0.0.2'', 80)) b) of
          Inl e \<Rightarrow> e = Out_Of_Bounds \<or> e = Uninit_Read
        | Inr (d, b') \<Rightarrow> d = vm_key some_vm \<and> actual_index b' 0 = 3)"
proof -
  have c: "clients after_delete p = clients two_clients p" if "p < 5" for p
    using that by (simp add: after_delete_def apply_request_alt delete_request_def tbl_simps
        prepare_clients two_clients_def two_vms_def add_request_def add_vm_def create_system_image_def
        MAX_CONNECTED_CLIENTS_def)
  have "\<forall>v \<in> set (live_vms 0 after_delete). \<not> holds after_delete ''192.168.0.3'' v"
    by (auto simp: after_delete_state holds_def c two_clients_def two_vms_clients no_client_def)
  from stale_index [OF after_delete_state(1) _ this]
  have "case get_current_socket True True True ''192.168.0.3'' after_delete of
          Inl e \<Rightarrow> e = Out_Of_Bounds \<or> e = Uninit_Read
        | Inr (d, b') \<Rightarrow> d = vm_key some_vm \<and> actual_index b' 0 = 3"
    by (simp add: after_delete_state split: sum.splits prod.splits)
  then show ?thesis using accept_two by (auto simp: after_delete_def two_clients_def)
qed

end
