(* ===== verification/Server.thy ===== *)
theory Server
  imports Protocol Vm_Table Ml_Model
begin

text \<open>
  The controller's registry of virtual machines (\<open>controller/server.c\<close>): the initial
  allocation of \<open>main\<close>, the handshake and the registration of \<open>accept_new_client\<close>,
  \<open>manage_disconnected_vms\<close> and \<open>switch_active_machine\<close>. A machine's thread holds a private copy
  of its entry; the two last functions get that copy by value.

  Sockets are numbers. What the operations send and close is returned as a list of actions, what
  the network does is an argument: the outcome of each \<open>send\<close> and \<open>recv\<close>.
\<close>

record vm_data =
  socket :: c_int
  ip_address :: string
  port :: c_int
  service_info :: vm_service
  last_features :: system_features
  last_system_features_stored :: c_int

record server =
  current_vms :: "nat \<Rightarrow> nat"
  allocated_vms :: "nat \<Rightarrow> nat"
  vm_data_set :: "nat \<Rightarrow> vm_data list"
  rej_rate_bytes :: nat

datatype action =
    Send_Command c_int massage
  | Send_Text c_int string
  | Close c_int

section \<open>Initial state\<close>

text \<open>The loop of \<open>main\<close>. It allocates \<open>rej_rate\<close> three times; only the last block is kept.\<close>

definition init_server :: "(nat \<Rightarrow> nat \<Rightarrow> vm_data) \<Rightarrow> server" where
  "init_server junk =
     \<lparr>current_vms = (\<lambda>_. 0), allocated_vms = (\<lambda>_. NUMBER_VMs),
      vm_data_set = (\<lambda>g. map (junk g) [0..<NUMBER_VMs]),
      rej_rate_bytes = 4 * NUMBER_GROUPS * NUMBER_VMs\<rparr>"

section \<open>Removing and promoting machines\<close>

definition remove_by_ip :: "nat \<Rightarrow> string \<Rightarrow> server \<Rightarrow> server" where
  "remove_by_ip g ip s =
     (case find_index (\<lambda>v. ip_address v = ip) (take (current_vms s g) (vm_data_set s g)) of
        None \<Rightarrow> s
      | Some i \<Rightarrow>
          s\<lparr>current_vms := (current_vms s)(g := current_vms s g - 1),
            vm_data_set := (vm_data_set s)(g := (vm_data_set s g)
              [i := vm_data_set s g ! (current_vms s g - 1)])\<rparr>)"

definition manage_disconnected_vms :: "vm_data \<Rightarrow> server \<Rightarrow> server" where
  "manage_disconnected_vms vm s = remove_by_ip (service (service_info vm)) (ip_address vm) s"

definition set_state :: "vm_state \<Rightarrow> vm_data \<Rightarrow> vm_data" where
  "set_state st v = v\<lparr>service_info := (service_info v)\<lparr>state := st\<rparr>\<rparr>"

definition is_standby :: "vm_data \<Rightarrow> bool" where
  "is_standby v \<longleftrightarrow> state (service_info v) = STAND_BY"

definition promote_standby :: "nat \<Rightarrow> server \<Rightarrow> server" where
  "promote_standby g s =
     (case find_index is_standby (take (current_vms s g) (vm_data_set s g)) of
        None \<Rightarrow> s
      | Some i \<Rightarrow> s\<lparr>vm_data_set := (vm_data_set s)(g := (vm_data_set s g)
              [i := set_state ACTIVE (vm_data_set s g ! i)])\<rparr>)"

text \<open>
  \<open>switch_active_machine(vm)\<close>. The assignments to \<open>vm.service_info.state\<close> and
  \<open>vm.last_system_features_stored\<close> change the parameter, a copy that the caller never sees, and
  \<open>manage_disconnected_vms\<close> looks at neither. \<open>send_ok\<close> is whether \<open>send\<close> succeeds.
\<close>

definition switch_active_machine :: "bool \<Rightarrow> vm_data \<Rightarrow> server \<Rightarrow> action list \<times> server" where
  "switch_active_machine send_ok vm0 s0 =
     (let vm = set_state REJUVENATING vm0;
          s1 = promote_standby (service (service_info vm)) s0;
          vm' = vm\<lparr>last_system_features_stored := 0\<rparr>
      in if send_ok then ([Send_Command (socket vm') REJUVENATE], s1)
         else ([Send_Command (socket vm') REJUVENATE, Close (socket vm')],
               manage_disconnected_vms vm' s1))"

section \<open>The handshake\<close>

text \<open>
  What a \<open>recv\<close> of a \<open>struct vm_service\<close> can do: fail (with a timeout or otherwise), report the
  end of the connection, or leave a value in the structure.
\<close>

datatype info_recv = Info_Error bool | Info_Closed | Info vm_service

definition reply :: "vm_service \<Rightarrow> string" where
  "reply i = (if NUMBER_GROUPS \<le> service i then ''groups'' else ''ok'')"

text \<open>
  The loop \<open>while(1)\<close> of the handshake. Each pass uses one outcome of \<open>send\<close> and, when the
  service was refused, one of \<open>recv\<close>; an empty list means that the loop has not ended yet.
\<close>

fun handshake_loop :: "c_int \<Rightarrow> vm_service \<Rightarrow> (bool \<times> info_recv) list \<Rightarrow> (vm_service \<times> action list) option" where
  "handshake_loop sk i [] = None"
| "handshake_loop sk i ((send_ok, ev) # evs) =
     (let acts = Send_Text sk (reply i) # (if send_ok then [] else [Close sk]) in
      if reply i = ''ok'' then Some (i, acts)
      else
        (case ev of
           Info_Error timeout \<Rightarrow>
             map_option (\<lambda>(j, as). (j, acts @ (if timeout then [Close sk] else []) @ as))
               (handshake_loop sk i evs)
         | Info_Closed \<Rightarrow>
             map_option (\<lambda>(j, as). (j, acts @ [Close sk] @ as)) (handshake_loop sk i evs)
         | Info i' \<Rightarrow> map_option (\<lambda>(j, as). (j, acts @ as)) (handshake_loop sk i' evs)))"

section \<open>Registration\<close>

definition grow_tables :: "(nat \<Rightarrow> vm_data) \<Rightarrow> nat \<Rightarrow> server \<Rightarrow> server" where
  "grow_tables junk g s =
     (if current_vms s g = allocated_vms s g
      then s\<lparr>vm_data_set := (vm_data_set s)(g := vm_data_set s g
               @ map junk [length (vm_data_set s g)..<2 * allocated_vms s g]),
             allocated_vms := (allocated_vms s)(g := 2 * allocated_vms s g),
             rej_rate_bytes := 4 * NUMBER_GROUPS * NUMBER_VMs + 2 * allocated_vms s g - allocated_vms s g\<rparr>
      else s)"

definition register_vm :: "c_int \<Rightarrow> string \<Rightarrow> c_int \<Rightarrow> vm_service \<Rightarrow> server \<Rightarrow> nat \<times> server" where
  "register_vm sk ip pt i s =
     (let g = service i; n = current_vms s g in
      (n, s\<lparr>vm_data_set := (vm_data_set s)(g := (vm_data_set s g)
              [n := (vm_data_set s g ! n)\<lparr>service_info := i, ip_address := ip, socket := sk, port := pt\<rparr>]),
            current_vms := (current_vms s)(g := n + 1)\<rparr>))"

text \<open>
  \<open>accept_new_client\<close>, up to the creation of the machine's thread: the accepted socket, the
  peer's address and port, the outcome of the first \<open>recv\<close>, those of the loop. The result says
  what was sent and closed, the entry that was filled (service and index) and the request for
  the load balancer, if the machine registered.
\<close>

definition add_of :: "string \<Rightarrow> vm_service \<Rightarrow> virtual_machine option" where
  "add_of ip i =
     (if state i = ACTIVE
      then Some \<lparr>req_ip = ip, req_port = request_port, req_service = service i, req_op = ADD\<rparr>
      else None)"

fun accept_new_client ::
  "(nat \<Rightarrow> vm_data) \<Rightarrow> c_int \<Rightarrow> string \<Rightarrow> c_int \<Rightarrow> info_recv \<Rightarrow> (bool \<times> info_recv) list \<Rightarrow> server \<Rightarrow>
   (action list \<times> (nat \<times> nat) option \<times> virtual_machine option \<times> server) option"
where
  "accept_new_client junk sk ip pt (Info_Error timeout) evs s =
     Some (if timeout then [Close sk] else [], None, None, s)"
| "accept_new_client junk sk ip pt Info_Closed evs s = Some ([Close sk], None, None, s)"
| "accept_new_client junk sk ip pt (Info i0) evs s =
     (case handshake_loop sk i0 evs of
        None \<Rightarrow> None
      | Some (i, acts) \<Rightarrow>
          (let (n, s') = register_vm sk ip pt i (grow_tables junk (service i) s)
           in Some (acts, Some (service i, n), add_of ip i, s')))"

section \<open>The invariant\<close>

definition live_vms :: "nat \<Rightarrow> server \<Rightarrow> vm_data list" where
  "live_vms g s = take (current_vms s g) (vm_data_set s g)"

definition server_ok :: "server \<Rightarrow> bool" where
  "server_ok s \<longleftrightarrow> (\<forall>g. current_vms s g \<le> allocated_vms s g \<and> NUMBER_VMs \<le> allocated_vms s g \<and>
     length (vm_data_set s g) = allocated_vms s g \<and>
     (\<forall>v \<in> set (live_vms g s). service (service_info v) = g))"

lemma server_ok_init: "server_ok (init_server junk)"
  by (simp add: server_ok_def init_server_def live_vms_def)

lemma server_okD:
  assumes "server_ok s"
  shows "current_vms s g \<le> allocated_vms s g" "NUMBER_VMs \<le> allocated_vms s g"
    "length (vm_data_set s g) = allocated_vms s g"
    "length (live_vms g s) = current_vms s g"
  using assms by (auto simp: server_ok_def live_vms_def)

lemma server_ok_service: "server_ok s \<Longrightarrow> v \<in> set (live_vms g s) \<Longrightarrow> service (service_info v) = g"
  by (simp add: server_ok_def)

lemma live_remove_by_ip:
  assumes "server_ok s"
  shows "live_vms h (remove_by_ip g ip s) =
    (if h = g then del_first (\<lambda>v. ip_address v = ip) (live_vms g s) else live_vms h s)"
proof (cases "find_index (\<lambda>v. ip_address v = ip) (live_vms g s)")
  case None
  then show ?thesis by (auto simp: remove_by_ip_def del_first_def live_vms_def)
next
  case (Some i)
  have "i < current_vms s g" using find_index_SomeD [OF Some] by (simp add: live_vms_def)
  moreover have "current_vms s g \<le> length (vm_data_set s g)" using server_okD [OF assms] by simp
  ultimately show ?thesis using Some take_update_last
    by (auto simp: remove_by_ip_def del_first_def live_vms_def)
qed

lemma remove_simps [tbl_simps]:
  "allocated_vms (remove_by_ip g ip s) = allocated_vms s"
  "rej_rate_bytes (remove_by_ip g ip s) = rej_rate_bytes s"
  "length (vm_data_set (remove_by_ip g ip s) h) = length (vm_data_set s h)"
  "current_vms (remove_by_ip g ip s) h \<le> current_vms s h"
  by (auto simp: remove_by_ip_def split: option.split)

lemma server_ok_remove: "server_ok s \<Longrightarrow> server_ok (remove_by_ip g ip s)"
  unfolding server_ok_def [of "remove_by_ip g ip s"]
proof (intro allI conjI ballI)
  fix h v
  assume ok: "server_ok s"
  note d = server_okD [OF ok, of h]
  show "current_vms (remove_by_ip g ip s) h \<le> allocated_vms (remove_by_ip g ip s) h"
    using d(1) remove_simps(4) [of g ip s h] unfolding remove_simps(1) by linarith
  show "NUMBER_VMs \<le> allocated_vms (remove_by_ip g ip s) h"
    "length (vm_data_set (remove_by_ip g ip s) h) = allocated_vms (remove_by_ip g ip s) h"
    using d by (simp_all add: tbl_simps)
  assume "v \<in> set (live_vms h (remove_by_ip g ip s))"
  then have "v \<in> set (live_vms h s)"
    using set_del_first_subset [of "\<lambda>v. ip_address v = ip" "live_vms g s"]
    by (auto simp: live_remove_by_ip [OF ok] split: if_splits)
  then show "service (service_info v) = h" by (rule server_ok_service [OF ok])
qed

text \<open>Growing the arrays leaves the live entries alone and makes room.\<close>

lemma grow_simps [tbl_simps]:
  "current_vms (grow_tables junk g s) = current_vms s"
  by (simp add: grow_tables_def)

lemma live_grow: "server_ok s \<Longrightarrow> live_vms h (grow_tables junk g s) = live_vms h s"
  using server_okD [of s h] by (auto simp: grow_tables_def live_vms_def)

lemma server_ok_grow:
  assumes "server_ok s"
  shows "server_ok (grow_tables junk g s)"
  unfolding server_ok_def
proof (intro allI conjI ballI)
  fix h v
  note d = server_okD [OF assms, of h]
  show "current_vms (grow_tables junk g s) h \<le> allocated_vms (grow_tables junk g s) h"
    "NUMBER_VMs \<le> allocated_vms (grow_tables junk g s) h"
    "length (vm_data_set (grow_tables junk g s) h) = allocated_vms (grow_tables junk g s) h"
    using d by (auto simp: grow_tables_def)
  assume "v \<in> set (live_vms h (grow_tables junk g s))"
  then show "service (service_info v) = h"
    by (simp add: live_grow [OF assms] server_ok_service [OF assms])
qed

lemma grow_room: "server_ok s \<Longrightarrow> current_vms s g < allocated_vms (grow_tables junk g s) g"
  using server_okD [of s g] by (auto simp: grow_tables_def NUMBER_VMs_def)

text \<open>What a registration adds: the fields that are assigned, and the old bytes of the slot.\<close>

definition new_entry :: "c_int \<Rightarrow> string \<Rightarrow> c_int \<Rightarrow> vm_service \<Rightarrow> vm_data \<Rightarrow> vm_data" where
  "new_entry sk ip pt i old = old\<lparr>service_info := i, ip_address := ip, socket := sk, port := pt\<rparr>"

lemma register_live:
  assumes "server_ok s" "current_vms s (service i) < allocated_vms s (service i)"
  shows "live_vms h (snd (register_vm sk ip pt i s)) =
    (if h = service i
     then live_vms h s @ [new_entry sk ip pt i (vm_data_set s h ! current_vms s h)]
     else live_vms h s)"
  using assms server_okD [OF assms(1), of "service i"]
  by (auto simp: register_vm_def Let_def live_vms_def new_entry_def take_Suc_conv_app_nth)

lemma server_ok_register:
  assumes "server_ok s" "current_vms s (service i) < allocated_vms s (service i)"
  shows "server_ok (snd (register_vm sk ip pt i s))"
  unfolding server_ok_def
proof (intro allI conjI ballI)
  fix h v
  note d = server_okD [OF assms(1), of h]
  show "current_vms (snd (register_vm sk ip pt i s)) h \<le> allocated_vms (snd (register_vm sk ip pt i s)) h"
    "NUMBER_VMs \<le> allocated_vms (snd (register_vm sk ip pt i s)) h"
    "length (vm_data_set (snd (register_vm sk ip pt i s)) h) = allocated_vms (snd (register_vm sk ip pt i s)) h"
    using d assms(2) by (auto simp: register_vm_def Let_def)
  assume "v \<in> set (live_vms h (snd (register_vm sk ip pt i s)))"
  then show "service (service_info v) = h"
    using server_ok_service [OF assms(1), of v] by (auto simp: register_live [OF assms] new_entry_def split: if_splits)
qed

text \<open>The registry of each service is a table in the sense of the interface, keyed by address.\<close>

definition entry_of :: "vm_data \<Rightarrow> c_int \<times> string \<times> c_int \<times> vm_state \<times> c_int" where
  "entry_of v = (socket v, ip_address v, port v, state (service_info v), provided_port (service_info v))"

definition entry_ip :: "c_int \<times> string \<times> c_int \<times> vm_state \<times> c_int \<Rightarrow> string" where
  "entry_ip e = fst (snd e)"

fun register_entry :: "(nat \<Rightarrow> vm_data) \<Rightarrow> nat \<Rightarrow> c_int \<times> string \<times> c_int \<times> vm_state \<times> c_int \<Rightarrow> server \<Rightarrow> server" where
  "register_entry junk g (sk, ip, pt, st, pp) s =
     snd (register_vm sk ip pt \<lparr>service = g, state = st, provided_port = pp\<rparr> (grow_tables junk g s))"

interpretation srv: vm_table "\<lambda>s. map entry_of (live_vms g s)" "\<lambda>s. allocated_vms s g" server_ok
  "register_entry junk g" "remove_by_ip g" entry_ip
  for g junk
proof (unfold_locales, goal_cases)
  case (1 s v)
  then show ?case
    by (cases v) (simp add: register_live server_ok_grow grow_room live_grow tbl_simps entry_of_def new_entry_def)
next
  case (2 s k)
  have "map entry_of (del_first (\<lambda>v. ip_address v = k) (live_vms g s))
      = del_first (\<lambda>e. entry_ip e = k) (map entry_of (live_vms g s))"
    using map_del_first [of entry_of "\<lambda>e. entry_ip e = k" "live_vms g s"]
    by (simp add: entry_of_def entry_ip_def)
  then show ?case using 2 by (simp add: live_remove_by_ip)
next
  case (3 s v)
  then show ?case by (cases v) (simp add: server_ok_register server_ok_grow grow_room tbl_simps)
next
  case (4 s k) then show ?case by (rule server_ok_remove)
next
  case (5 s) then show ?case using server_okD [of s g] by simp
next
  case (6 s v)
  then show ?case using server_okD [of s g]
    by (cases v) (simp add: register_vm_def Let_def grow_tables_def)
next
  case (7 s k) then show ?case by (simp add: tbl_simps)
qed

section \<open>Promotion\<close>

lemma promote_simps [tbl_simps]:
  "current_vms (promote_standby g s) = current_vms s"
  "allocated_vms (promote_standby g s) = allocated_vms s"
  "rej_rate_bytes (promote_standby g s) = rej_rate_bytes s"
  "length (vm_data_set (promote_standby g s) h) = length (vm_data_set s h)"
  by (simp_all add: promote_standby_def split: option.split)

definition promoted :: "vm_data list \<Rightarrow> vm_data list" where
  "promoted vs = (case find_index is_standby vs of None \<Rightarrow> vs | Some i \<Rightarrow> vs[i := set_state ACTIVE (vs ! i)])"

lemma live_promote:
  "live_vms h (promote_standby g s) = (if h = g then promoted (live_vms g s) else live_vms h s)"
proof (cases "find_index is_standby (live_vms g s)")
  case None
  then show ?thesis by (simp add: promote_standby_def promoted_def live_vms_def)
next
  case (Some i)
  have "i < current_vms s g" using find_index_SomeD [OF Some] by (simp add: live_vms_def)
  then show ?thesis using Some
    by (auto simp: promote_standby_def promoted_def live_vms_def take_update_swap)
qed

lemma set_state_simps [simp]:
  "ip_address (set_state st v) = ip_address v" "socket (set_state st v) = socket v"
  "service (service_info (set_state st v)) = service (service_info v)"
  "state (service_info (set_state st v)) = st"
  by (simp_all add: set_state_def)

lemma promoted_map:
  assumes "\<And>v. f (set_state ACTIVE v) = f v"
  shows "map f (promoted vs) = map f vs"
proof (cases "find_index is_standby vs")
  case (Some i)
  then have "i < length vs" using find_index_SomeD by blast
  then show ?thesis using Some assms by (simp add: promoted_def map_update list_update_same_conv)
qed (simp add: promoted_def)

lemma server_ok_promote: "server_ok s \<Longrightarrow> server_ok (promote_standby g s)"
  unfolding server_ok_def [of "promote_standby g s"]
proof (intro allI conjI ballI)
  fix h v
  assume ok: "server_ok s"
  show "current_vms (promote_standby g s) h \<le> allocated_vms (promote_standby g s) h"
    "NUMBER_VMs \<le> allocated_vms (promote_standby g s) h"
    "length (vm_data_set (promote_standby g s) h) = allocated_vms (promote_standby g s) h"
    using server_okD [OF ok, of h] by (simp_all add: tbl_simps)
  assume "v \<in> set (live_vms h (promote_standby g s))"
  then have "service (service_info v) \<in> set (map (\<lambda>v. service (service_info v)) (live_vms h (promote_standby g s)))"
    by simp
  also have "map (\<lambda>v. service (service_info v)) (live_vms h (promote_standby g s))
      = map (\<lambda>v. service (service_info v)) (live_vms h s)"
    by (simp add: live_promote promoted_map)
  finally show "service (service_info v) = h" using server_ok_service [OF ok] by auto
qed

section \<open>The registry under any sequence of operations\<close>

text \<open>
  Every access to the tables is made under \<open>mutex\<close>: by the accepting thread, which hands the
  lock to the thread it creates, and by the two functions above. So what the threads do to the
  registry is a sequence of these operations.
\<close>

datatype registry_op =
    Register "nat \<Rightarrow> vm_data" c_int string c_int vm_service
  | Disconnect vm_data
  | Switch bool vm_data

fun registry_step :: "registry_op \<Rightarrow> server \<Rightarrow> server" where
  "registry_step (Register junk sk ip pt i) s =
     snd (register_vm sk ip pt i (grow_tables junk (service i) s))"
| "registry_step (Disconnect vm) s = manage_disconnected_vms vm s"
| "registry_step (Switch send_ok vm) s = snd (switch_active_machine send_ok vm s)"

fun registry_spec :: "registry_op \<Rightarrow> (nat \<Rightarrow> string multiset) \<Rightarrow> nat \<Rightarrow> string multiset" where
  "registry_spec (Register junk sk ip pt i) r = r(service i := add_mset ip (r (service i)))"
| "registry_spec (Disconnect vm) r =
     r(service (service_info vm) := r (service (service_info vm)) - {#ip_address vm#})"
| "registry_spec (Switch send_ok vm) r =
     (if send_ok then r
      else r(service (service_info vm) := r (service (service_info vm)) - {#ip_address vm#}))"

definition ip_bag :: "server \<Rightarrow> nat \<Rightarrow> string multiset" where
  "ip_bag s g = mset (map ip_address (live_vms g s))"

lemma ip_bag_entries: "ip_bag s g = mset (map entry_ip (map entry_of (live_vms g s)))"
  by (simp add: ip_bag_def entry_of_def entry_ip_def comp_def)

lemma ip_bag_remove:
  assumes "server_ok s"
  shows "ip_bag (remove_by_ip g ip s) = (ip_bag s)(g := ip_bag s g - {#ip#})"
proof
  fix h
  show "ip_bag (remove_by_ip g ip s) h = ((ip_bag s)(g := ip_bag s g - {#ip#})) h"
  proof (cases "h = g")
    case True
    show ?thesis unfolding True fun_upd_same ip_bag_entries by (rule srv.mset_del [OF assms])
  next
    case False
    then show ?thesis by (simp add: ip_bag_def live_remove_by_ip [OF assms])
  qed
qed

lemma ip_bag_register:
  assumes "server_ok s"
  shows "ip_bag (registry_step (Register junk sk ip pt i) s)
       = (ip_bag s)(service i := add_mset ip (ip_bag s (service i)))"
  by (rule ext) (use assms in \<open>simp add: ip_bag_def register_live server_ok_grow grow_room live_grow tbl_simps new_entry_def\<close>)

lemma ip_bag_promote: "ip_bag (promote_standby g s) = ip_bag s"
  by (rule ext) (simp add: ip_bag_def live_promote promoted_map flip: mset_map)

lemma server_ok_step: "server_ok s \<Longrightarrow> server_ok (registry_step op s)"
  by (cases op) (auto simp: server_ok_register server_ok_grow grow_room tbl_simps
      manage_disconnected_vms_def server_ok_remove switch_active_machine_def Let_def server_ok_promote)

lemma ip_bag_step: "server_ok s \<Longrightarrow> ip_bag (registry_step op s) = registry_spec op (ip_bag s)"
  using ip_bag_register
  by (cases op) (auto simp: manage_disconnected_vms_def ip_bag_remove
      switch_active_machine_def Let_def server_ok_promote ip_bag_promote simp del: registry_step.simps(1))

lemma registry_ok: "server_ok s \<Longrightarrow> server_ok (fold registry_step ops s)"
  by (induction ops arbitrary: s) (simp_all add: server_ok_step)

text \<open>
  C2. The registry. Under every sequence of registrations, disconnections and switches the
  counts stay within the allocated arrays, every live entry lies in the array of its service,
  and the addresses registered for a service are those of the specification: a registration
  adds one, a disconnection (and a switch whose \<open>send\<close> fails) removes one occurrence.
\<close>

theorem registry_refines:
  assumes "server_ok s"
  shows "server_ok (fold registry_step ops s)
    \<and> ip_bag (fold registry_step ops s) = fold registry_spec ops (ip_bag s)"
  using assms
proof (induction ops arbitrary: s)
  case Nil
  then show ?case by simp
next
  case (Cons op ops)
  from Cons.IH [OF server_ok_step [OF Cons.prems, of op]] show ?case
    by (simp add: ip_bag_step [OF Cons.prems])
qed

text \<open>Two registrations and a disconnection, from the state \<open>main\<close> sets up.\<close>

definition blank_vm :: vm_data where
  "blank_vm = \<lparr>socket = 0, ip_address = '''', port = 0,
     service_info = \<lparr>service = 0, state = STAND_BY, provided_port = 0\<rparr>,
     last_features = zero_features, last_system_features_stored = 0\<rparr>"

definition info_of :: "nat \<Rightarrow> vm_state \<Rightarrow> vm_service" where
  "info_of g st = \<lparr>service = g, state = st, provided_port = 0\<rparr>"

definition vm_at :: "c_int \<Rightarrow> string \<Rightarrow> nat \<Rightarrow> vm_state \<Rightarrow> vm_data" where
  "vm_at sk ip g st = blank_vm\<lparr>socket := sk, ip_address := ip, service_info := info_of g st\<rparr>"

lemma ip_bag_init: "ip_bag (init_server junk) g = {#}"
  by (simp add: ip_bag_def live_vms_def init_server_def)

theorem registry_refines_witness:
  "server_ok (fold registry_step
     [Register (\<lambda>_. blank_vm) 5 ''10.0.0.1'' 4000 (info_of 0 ACTIVE),
      Register (\<lambda>_. blank_vm) 6 ''10.0.0.2'' 4001 (info_of 0 STAND_BY),
      Disconnect (vm_at 5 ''10.0.0.1'' 0 ACTIVE)] (init_server (\<lambda>_ _. blank_vm)))
   \<and> ip_bag (fold registry_step
     [Register (\<lambda>_. blank_vm) 5 ''10.0.0.1'' 4000 (info_of 0 ACTIVE),
      Register (\<lambda>_. blank_vm) 6 ''10.0.0.2'' 4001 (info_of 0 STAND_BY),
      Disconnect (vm_at 5 ''10.0.0.1'' 0 ACTIVE)] (init_server (\<lambda>_ _. blank_vm))) 0 = {#''10.0.0.2''#}"
proof -
  let ?ops = "[Register (\<lambda>_. blank_vm) 5 ''10.0.0.1'' 4000 (info_of 0 ACTIVE),
      Register (\<lambda>_. blank_vm) 6 ''10.0.0.2'' 4001 (info_of 0 STAND_BY),
      Disconnect (vm_at 5 ''10.0.0.1'' 0 ACTIVE)]"
  have "fold registry_spec ?ops (ip_bag (init_server (\<lambda>_ _. blank_vm))) 0 = {#''10.0.0.2''#}"
    by (simp add: ip_bag_init info_of_def vm_at_def)
  with registry_refines [OF server_ok_init [of "\<lambda>_ _. blank_vm"], of ?ops] show ?thesis by metis
qed

section \<open>The handshake\<close>

text \<open>The services offered in turn: the one sent first, then what each refused pass received.\<close>

fun offers :: "vm_service \<Rightarrow> (bool \<times> info_recv) list \<Rightarrow> vm_service list" where
  "offers i [] = []"
| "offers i ((ok, ev) # evs) =
     i # offers (case ev of Info j \<Rightarrow> j | Info_Error t \<Rightarrow> i | Info_Closed \<Rightarrow> i) evs"

definition valid_service :: "vm_service \<Rightarrow> bool" where
  "valid_service i \<longleftrightarrow> service i < NUMBER_GROUPS"

lemma reply_ok_iff: "reply i = ''ok'' \<longleftrightarrow> valid_service i"
  by (simp add: reply_def valid_service_def)

lemma handshake_find:
  "map_option fst (handshake_loop sk i evs) = List.find valid_service (offers i evs)"
proof (induction sk i evs rule: handshake_loop.induct)
  case (1 sk i)
  then show ?case by simp
next
  case (2 sk i send_ok ev evs)
  show ?case
  proof (cases "valid_service i")
    case True
    then show ?thesis by (simp add: reply_ok_iff Let_def)
  next
    case False
    then have r: "reply i \<noteq> ''ok''" by (simp add: reply_ok_iff)
    have f: "map_option fst (map_option (\<lambda>(j, as). (j, h as)) x) = map_option fst x"
      for x :: "(vm_service \<times> action list) option" and h
      by (simp add: option.map_comp comp_def case_prod_beta)
    show ?thesis using 2 r False
      by (cases ev) (simp_all add: Let_def f)
  qed
qed

text \<open>
  The handshake ends exactly with the first service below \<open>NUMBER_GROUPS\<close> that is offered.
  It has no other exit: failed sends, timeouts and the end of the connection keep it going with
  the service received last.
\<close>

theorem handshake_first_valid:
  "map_option fst (handshake_loop sk i evs) = List.find valid_service (offers i evs)"
  by (rule handshake_find)

text \<open>
  A machine that offers a service out of range and then disconnects holds the accepting
  thread in the handshake for ever: every pass closes the socket again and tries anew, and no
  other machine is accepted.
\<close>

theorem handshake_stuck:
  assumes "\<not> valid_service i" "\<forall>e \<in> set evs. snd e = Info_Closed \<or> (\<exists>t. snd e = Info_Error t)"
  shows "accept_new_client junk sk ip pt (Info i) evs s = None"
proof -
  have "handshake_loop sk i evs = None"
    using assms(2)
  proof (induction evs)
    case Nil
    then show ?case by simp
  next
    case (Cons e evs)
    then show ?case using assms(1) by (cases e) (auto simp: Let_def reply_ok_iff)
  qed
  then show ?thesis by simp
qed

theorem handshake_stuck_witness:
  "accept_new_client (\<lambda>_. blank_vm) 7 ''10.0.0.9'' 4002 (Info (info_of 3 ACTIVE))
     (replicate 1000 (False, Info_Closed)) (init_server (\<lambda>_ _. blank_vm)) = None"
  by (rule handshake_stuck) (auto simp: valid_service_def info_of_def NUMBER_GROUPS_def)

section \<open>Registration\<close>



text \<open>
  A \<open>send\<close> that fails closes the socket but not the handshake: when the service is valid
  the machine is registered, with the closed socket, and announced to the load balancer.
\<close>

theorem closed_socket_registered:
  assumes "server_ok s" "valid_service i"
  shows "\<exists>acts n s' v. accept_new_client junk sk ip pt (Info i) ((False, ev) # evs) s
       = Some (acts, Some (service i, n), add_of ip i, s')
     \<and> Close sk \<in> set acts \<and> v \<in> set (live_vms (service i) s') \<and> socket v = sk \<and> ip_address v = ip"
proof -
  let ?s = "grow_tables junk (service i) s"
  note g = server_ok_grow [OF assms(1), of junk "service i"] grow_room [OF assms(1), of "service i" junk]
  have "reply i = ''ok''" using assms(2) by (simp add: reply_ok_iff)
  moreover have "live_vms (service i) (snd (register_vm sk ip pt i ?s))
      = live_vms (service i) s @ [new_entry sk ip pt i (vm_data_set ?s (service i) ! current_vms s (service i))]"
    using register_live [OF g(1)] g(2) by (simp add: tbl_simps live_grow [OF assms(1)])
  ultimately show ?thesis
    by (simp add: Let_def case_prod_beta) (auto simp: new_entry_def)
qed

theorem closed_socket_registered_witness:
  "\<exists>acts n s' v. accept_new_client (\<lambda>_. blank_vm) 5 ''10.0.0.1'' 4000 (Info (info_of 0 ACTIVE))
        [(False, Info_Closed)] (init_server (\<lambda>_ _. blank_vm))
       = Some (acts, Some (service (info_of 0 ACTIVE), n), add_of ''10.0.0.1'' (info_of 0 ACTIVE), s')
     \<and> Close 5 \<in> set acts \<and> v \<in> set (live_vms (service (info_of 0 ACTIVE)) s') \<and> socket v = 5
     \<and> ip_address v = ''10.0.0.1''"
  by (rule closed_socket_registered [OF server_ok_init])
     (simp add: valid_service_def info_of_def NUMBER_GROUPS_def)

section \<open>Switching and removing\<close>






text \<open>
  C17. \<open>manage_disconnected_vms\<close> identifies a machine by its address alone. When no two machines
  of the service share an address, exactly the entries of that address go.
\<close>

theorem disconnect_removes:
  assumes "server_ok s" "distinct (map ip_address (live_vms (service (service_info vm)) s))"
  shows "entry_of ` set (live_vms (service (service_info vm)) (manage_disconnected_vms vm s))
    = {e \<in> entry_of ` set (live_vms (service (service_info vm)) s). entry_ip e \<noteq> ip_address vm}"
proof -
  let ?g = "service (service_info vm)"
  have "distinct (map entry_ip (map entry_of (live_vms ?g s)))"
    using assms(2) by (simp add: entry_of_def entry_ip_def comp_def)
  from srv.set_del [OF assms(1) this, of "ip_address vm"] show ?thesis
    by (simp add: manage_disconnected_vms_def)
qed

text \<open>
  Two machines behind one address: the thread of the second one disconnects and the entry of the
  first one goes.
\<close>

definition shared_address :: server where
  "shared_address = fold registry_step
     [Register (\<lambda>_. blank_vm) 5 ''10.0.0.1'' 4000 (info_of 0 ACTIVE),
      Register (\<lambda>_. blank_vm) 6 ''10.0.0.1'' 4001 (info_of 0 STAND_BY)] (init_server (\<lambda>_ _. blank_vm))"

text \<open>
  When two machines share an address, the disconnection of the second removes the first from
  the registry and leaves the disconnected one, closed socket and all.
\<close>

theorem disconnect_wrong_entry:
  "map socket (live_vms 0 shared_address) = [5, 6]
   \<and> map socket (live_vms 0 (manage_disconnected_vms (vm_at 6 ''10.0.0.1'' 0 STAND_BY) shared_address)) = [6]"
  by (simp add: shared_address_def register_vm_def grow_tables_def init_server_def Let_def NUMBER_VMs_def
      info_of_def vm_at_def live_vms_def manage_disconnected_vms_def remove_by_ip_def blank_vm_def
      eval_nat_numeral upt_rec)

theorem disconnect_removes_witness:
  "entry_of ` set (live_vms 0 (manage_disconnected_vms (vm_at 5 ''10.0.0.1'' 0 ACTIVE)
     (fold registry_step [Register (\<lambda>_. blank_vm) 5 ''10.0.0.1'' 4000 (info_of 0 ACTIVE)] (init_server (\<lambda>_ _. blank_vm)))))
   = {}"
proof -
  let ?s = "fold registry_step [Register (\<lambda>_. blank_vm) 5 ''10.0.0.1'' 4000 (info_of 0 ACTIVE)] (init_server (\<lambda>_ _. blank_vm))"
  have live: "live_vms 0 ?s = [vm_at 5 ''10.0.0.1'' 0 ACTIVE\<lparr>port := 4000\<rparr>]"
    by (simp add: register_vm_def grow_tables_def init_server_def Let_def NUMBER_VMs_def
      info_of_def vm_at_def live_vms_def blank_vm_def eval_nat_numeral upt_rec)
  have "distinct (map ip_address (live_vms (service (service_info (vm_at 5 ''10.0.0.1'' 0 ACTIVE))) ?s))"
    using live by (simp add: vm_at_def info_of_def)
  from disconnect_removes [OF registry_ok [OF server_ok_init] this] live show ?thesis
    by (simp add: vm_at_def info_of_def entry_of_def entry_ip_def)
qed

section \<open>The array of rejuvenation rates\<close>

text \<open>
  The size of \<open>rej_rate\<close> after the table of a service grew: \<open>sizeof(float)\<close> multiplies only
  the initial number of machines, so the array has 60 bytes and one more byte, not four, for each
  machine that was added. It then holds fewer values than there are machines, and a growth of a
  smaller table makes it smaller again.
\<close>

theorem rej_rate_too_small:
  assumes "server_ok s" "current_vms s g = allocated_vms s g" "g < NUMBER_GROUPS"
    and "s' = grow_tables junk g s"
  shows "rej_rate_bytes s' = 60 + allocated_vms s g
    \<and> rej_rate_bytes s' div 4 < (\<Sum>h<NUMBER_GROUPS. allocated_vms s' h)
    \<and> (rej_rate_bytes s' < rej_rate_bytes s \<longleftrightarrow> 60 + allocated_vms s g < rej_rate_bytes s)"
proof -
  let ?a = "allocated_vms s g"
  have b: "rej_rate_bytes s' = 60 + ?a"
    using assms(2,4) by (simp add: grow_tables_def NUMBER_GROUPS_def NUMBER_VMs_def)
  have v: "allocated_vms s' h = (if h = g then 2 * ?a else allocated_vms s h)" for h
    using assms(2,4) by (simp add: grow_tables_def)
  have five: "5 \<le> allocated_vms s h" for h
    using server_okD(2) [OF assms(1), of h] by (simp add: NUMBER_VMs_def)
  have "(\<Sum>h<NUMBER_GROUPS. allocated_vms s' h) = allocated_vms s' 0 + allocated_vms s' 1 + allocated_vms s' 2"
    by (simp add: NUMBER_GROUPS_def eval_nat_numeral)
  moreover have "2 * ?a + 10 \<le> allocated_vms s' 0 + allocated_vms s' 1 + allocated_vms s' 2"
    using assms(3) five [of 0] five [of 1] five [of 2]
    by (auto simp: v NUMBER_GROUPS_def less_Suc_eq eval_nat_numeral)
  ultimately show ?thesis using five [of g] by (simp add: b)
qed

definition full_server :: server where
  "full_server = fold registry_step
     (replicate 5 (Register (\<lambda>_. blank_vm) 5 ''10.0.0.1'' 4000 (info_of 0 ACTIVE))) (init_server (\<lambda>_ _. blank_vm))"

theorem rej_rate_too_small_witness:
  "server_ok full_server \<and> rej_rate_bytes (grow_tables (\<lambda>_. blank_vm) 0 full_server) = 65
   \<and> rej_rate_bytes (grow_tables (\<lambda>_. blank_vm) 0 full_server) div 4
      < (\<Sum>h<NUMBER_GROUPS. allocated_vms (grow_tables (\<lambda>_. blank_vm) 0 full_server) h)"
proof -
  have ok: "server_ok full_server"
    unfolding full_server_def using registry_ok [OF server_ok_init] .
  have c: "current_vms full_server 0 = 5" "allocated_vms full_server 0 = 5"
    by (simp_all add: full_server_def eval_nat_numeral register_vm_def grow_tables_def Let_def
        init_server_def NUMBER_VMs_def info_of_def)
  have "current_vms full_server 0 = allocated_vms full_server 0" "0 < NUMBER_GROUPS"
    by (simp_all add: c)
  note t = rej_rate_too_small [OF ok this refl, of "\<lambda>_. blank_vm"]
  have "rej_rate_bytes (grow_tables (\<lambda>_. blank_vm) 0 full_server) = 65" using t c by simp
  then show ?thesis using ok t by blast
qed

end
