(* ===== verification/Linked_List.thy ===== *)
theory Linked_List
  imports C_Float
begin

text \<open>
  The linked lists of the model builder (\<open>model_build/list.h\<close>, \<open>model_build/list.c\<close>): the node
  structure, the heap it lives in, and the five operations. The heap is a partial map from
  addresses to nodes; an address that is not in it is freed or was never allocated. Pointers are
  \<open>nat option\<close>, with \<open>None\<close> for \<open>NULL\<close>.
\<close>

section \<open>Nodes\<close>

record point =
  key :: fl
  generation_time :: fl
  n_th_slope :: fl
  mem_used_slope :: fl
  mem_free_slope :: fl
  mem_shared_slope :: fl
  mem_buffers_slope :: fl
  mem_cached_slope :: fl
  swap_used_slope :: fl
  swap_free_slope :: fl
  cpu_user_slope :: fl
  cpu_nice_slope :: fl
  cpu_system_slope :: fl
  cpu_iowait_slope :: fl
  cpu_steal_slope :: fl
  cpu_idle_slope :: fl
  n_th :: c_int
  mem_used :: c_int
  mem_free :: c_int
  mem_shared :: c_int
  mem_buffers :: c_int
  mem_cached :: c_int
  swap_used :: c_int
  swap_free :: c_int
  cpu_user :: fl
  cpu_nice :: fl
  cpu_system :: fl
  cpu_iowait :: fl
  cpu_steal :: fl
  cpu_idle :: fl

type_synonym list_link = "nat option"

record node = point +
  next_node :: list_link

type_synonym heap = "nat \<rightharpoonup> node"

record c_list =
  head :: list_link
  tail :: list_link

definition initList :: c_list where
  "initList = \<lparr>head = None, tail = None\<rparr>"

section \<open>Operations\<close>

definition load :: "heap \<Rightarrow> list_link \<Rightarrow> node res" where
  "load h p = (case p of
     None \<Rightarrow> Inl Null_Deref
   | Some a \<Rightarrow> (case h a of None \<Rightarrow> Inl Use_After_Free | Some n \<Rightarrow> Inr n))"

definition set_next :: "list_link \<Rightarrow> list_link \<Rightarrow> heap \<Rightarrow> heap res" where
  "set_next p q h = rbind (load h p) (\<lambda>n. Inr (h(the p \<mapsto> n\<lparr>next_node := q\<rparr>)))"

definition insertFront :: "list_link \<Rightarrow> c_list \<times> heap \<Rightarrow> (c_list \<times> heap) res" where
  "insertFront temp s = (case s of (l, h) \<Rightarrow>
     if head l = None then Inr (l\<lparr>head := temp, tail := temp\<rparr>, h)
     else rbind (set_next temp (head l) h) (\<lambda>h'. Inr (l\<lparr>head := temp\<rparr>, h')))"

definition insertRear :: "list_link \<Rightarrow> c_list \<times> heap \<Rightarrow> (c_list \<times> heap) res" where
  "insertRear temp s = (case s of (l, h) \<Rightarrow>
     if head l = None then Inr (l\<lparr>head := temp, tail := temp\<rparr>, h)
     else rbind (set_next (tail l) temp h) (\<lambda>h'. Inr (l\<lparr>tail := temp\<rparr>, h')))"

text \<open>
  The search loop of \<open>insertNext\<close> and \<open>deleteNode\<close>, with the trailing pointer \<open>tp\<close> of the
  latter. It need not end: the list can have a cycle. \<open>x\<close> is an \<open>int\<close> that is compared with the
  \<open>double\<close> key. The loop returns the last two values of \<open>tp\<close> and \<open>t\<close>.
\<close>

definition key_is :: "c_int \<Rightarrow> fl \<Rightarrow> bool" where
  "key_is x k = feq k (f_of_int binary64 (sint x))"

partial_function (option) search_key :: "heap \<Rightarrow> c_int \<Rightarrow> list_link \<Rightarrow> list_link \<Rightarrow> (list_link \<times> list_link) res option"
where
  "search_key h x tp t =
     (if t = None then Some (Inr (tp, t))
      else (case load h t of
              Inl e \<Rightarrow> Some (Inl e)
            | Inr n \<Rightarrow> if key_is x (key n) then Some (Inr (tp, t)) else search_key h x t (next_node n)))"

definition insert_after :: "list_link \<Rightarrow> list_link \<Rightarrow> c_list \<times> heap \<Rightarrow> (c_list \<times> heap) res" where
  "insert_after temp t s = (case s of (l, h) \<Rightarrow>
     rbind (load h t) (\<lambda>n.
       if next_node n = None then rbind (set_next t temp h) (\<lambda>h'. Inr (l\<lparr>tail := temp\<rparr>, h'))
       else rbind (set_next temp (next_node n) h) (\<lambda>h1.
              rbind (set_next t temp h1) (\<lambda>h2. Inr (l, h2)))))"

definition insertNext :: "list_link \<Rightarrow> c_int \<Rightarrow> c_list \<times> heap \<Rightarrow> (c_list \<times> heap) res option" where
  "insertNext temp x s =
     map_option (\<lambda>r. rbind r (\<lambda>(tp, t). if t = None then Inr s else insert_after temp t s))
       (search_key (snd s) x (head (fst s)) (head (fst s)))"

definition free_node :: "list_link \<Rightarrow> heap \<Rightarrow> heap res" where
  "free_node p h = rbind (load h p) (\<lambda>_. Inr (h(the p := None)))"

definition unlink :: "list_link \<Rightarrow> list_link \<Rightarrow> c_list \<times> heap \<Rightarrow> (c_list \<times> heap) res" where
  "unlink tp t s = (case s of (l, h) \<Rightarrow>
     rbind (load h t) (\<lambda>n.
       if t = tp then
         rbind (load h (head l)) (\<lambda>m.
           if next_node m = None then Inr (l\<lparr>head := None, tail := None\<rparr>, h)
           else Inr (l\<lparr>head := next_node n\<rparr>, h))
       else if next_node n = None then rbind (set_next tp None h) (\<lambda>h'. Inr (l\<lparr>tail := tp\<rparr>, h'))
       else rbind (set_next tp (next_node n) h) (\<lambda>h'. Inr (l, h'))))"

definition deleteNode :: "c_int \<Rightarrow> c_list \<times> heap \<Rightarrow> (c_list \<times> heap) res option" where
  "deleteNode x s =
     map_option (\<lambda>r. rbind r (\<lambda>(tp, t).
        if t = None then Inr s
        else rbind (unlink tp t s) (\<lambda>(l, h). rbind (free_node t h) (\<lambda>h'. Inr (l, h')))))
       (search_key (snd s) x (head (fst s)) (head (fst s)))"

section \<open>The list a heap holds\<close>

fun seg :: "heap \<Rightarrow> list_link \<Rightarrow> nat list \<Rightarrow> list_link \<Rightarrow> bool" where
  "seg h p [] q \<longleftrightarrow> p = q"
| "seg h p (a # as) q \<longleftrightarrow> p = Some a \<and> (\<exists>n. h a = Some n \<and> seg h (next_node n) as q)"

lemma seg_append: "seg h p (as @ bs) q \<longleftrightarrow> (\<exists>r. seg h p as r \<and> seg h r bs q)"
  by (induction as arbitrary: p) auto

lemma seg_upd [simp]: "a \<notin> set as \<Longrightarrow> seg (h(a := m)) p as q \<longleftrightarrow> seg h p as q"
  by (induction as arbitrary: p) auto

lemma seg_alloc: "seg h p as q \<Longrightarrow> a \<in> set as \<Longrightarrow> h a \<noteq> None"
  by (induction as arbitrary: p) auto

definition rep :: "heap \<Rightarrow> c_list \<Rightarrow> nat list \<Rightarrow> bool" where
  "rep h l as \<longleftrightarrow> seg h (head l) as None \<and> distinct as \<and>
     tail l = (if as = [] then None else Some (last as))"

definition contents :: "heap \<Rightarrow> nat list \<Rightarrow> point list" where
  "contents h as = map (\<lambda>a. point.truncate (the (h a))) as"

lemma truncate_next [simp]: "point.truncate (n\<lparr>next_node := q\<rparr>) = point.truncate (n :: node)"
  by (cases n) (simp add: point.truncate_def)

lemma key_truncate [simp]: "key (point.truncate p) = key p"
  by (cases p) (simp add: point.truncate_def)

lemma contents_upd [simp]: "a \<notin> set as \<Longrightarrow> contents (h(a := m)) as = contents h as"
  by (auto simp: contents_def)

lemma contents_set_next:
  "h a = Some n \<Longrightarrow> contents (h(a \<mapsto> n\<lparr>next_node := q\<rparr>)) as = contents h as"
  by (auto simp: contents_def)

lemma contents_append: "contents h (as @ bs) = contents h as @ contents h bs"
  by (simp add: contents_def)

lemma load_Some [res_simps]: "h a = Some n \<Longrightarrow> load h (Some a) = Inr n"
  by (simp add: load_def)

lemma set_next_Some [res_simps]:
  "h a = Some n \<Longrightarrow> set_next (Some a) q h = Inr (h(a \<mapsto> n\<lparr>next_node := q\<rparr>))"
  by (simp add: set_next_def load_Some)

lemma rep_init: "rep h initList []"
  by (simp add: rep_def initList_def)

lemma rep_head: "rep h l as \<Longrightarrow> head l = (case as of [] \<Rightarrow> None | a # _ \<Rightarrow> Some a)"
  by (cases as) (auto simp: rep_def)

lemma seg_cong: "(\<And>b. b \<in> set as \<Longrightarrow> h' b = h b) \<Longrightarrow> seg h' p as q \<longleftrightarrow> seg h p as q"
  by (induction as arbitrary: p) auto

lemma contents_cong: "(\<And>b. b \<in> set as \<Longrightarrow> h' b = h b) \<Longrightarrow> contents h' as = contents h as"
  by (simp add: contents_def)

lemma rep_cong: "(\<And>b. b \<in> set as \<Longrightarrow> h' b = h b) \<Longrightarrow> rep h' l as \<longleftrightarrow> rep h l as"
  using seg_cong [of as h' h "head l" None] by (simp add: rep_def)

section \<open>Insertion at the ends\<close>

lemma insertRear_rep:
  assumes "rep h l as" "h a = Some n" "next_node n = None" "a \<notin> set as"
  shows "\<exists>l' h'. insertRear (Some a) (l, h) = Inr (l', h') \<and> rep h' l' (as @ [a])
    \<and> contents h' (as @ [a]) = contents h as @ [point.truncate n]
    \<and> (\<forall>b. b \<notin> set as \<longrightarrow> h' b = h b)"
proof (cases as rule: rev_cases)
  case Nil
  then show ?thesis using assms by (auto simp: insertRear_def rep_def contents_def)
next
  case (snoc bs z)
  obtain m where s: "seg h (head l) bs (Some z)" "h z = Some m" "next_node m = None"
    using assms(1) by (auto simp: rep_def snoc seg_append)
  have ne: "head l \<noteq> None" using s(1) by (cases bs) auto
  have z: "z \<notin> set bs" "a \<noteq> z" "a \<notin> set bs" "tail l = Some z"
    using assms(1,4) by (auto simp: rep_def snoc)
  let ?h = "h(z \<mapsto> m\<lparr>next_node := Some a\<rparr>)"
  have "insertRear (Some a) (l, h) = Inr (l\<lparr>tail := Some a\<rparr>, ?h)"
    using ne z s by (auto simp: insertRear_def res_simps)
  moreover have "rep ?h (l\<lparr>tail := Some a\<rparr>) (as @ [a])"
    using assms s z by (auto simp: rep_def snoc seg_append)
  moreover have "contents ?h (as @ [a]) = contents h as @ [point.truncate n]"
    using assms(2) s(2) z by (simp add: contents_append contents_set_next) (simp add: contents_def)
  ultimately show ?thesis by (auto simp: snoc)
qed

text \<open>
  The interface the aggregation and the reading of the database rely on: an insertion at the end of
  a list of the heap. Both insert nodes they have just allocated.
\<close>

locale end_insertion =
  fixes insertion :: "list_link \<Rightarrow> c_list \<times> heap \<Rightarrow> (c_list \<times> heap) res"
  assumes insertion_rep: "rep h l as \<Longrightarrow> h a = Some n \<Longrightarrow> next_node n = None \<Longrightarrow> a \<notin> set as \<Longrightarrow>
    \<exists>l' h'. insertion (Some a) (l, h) = Inr (l', h') \<and> rep h' l' (as @ [a])
      \<and> contents h' (as @ [a]) = contents h as @ [point.truncate n]
      \<and> (\<forall>b. b \<notin> set as \<longrightarrow> h' b = h b)"
begin

lemma insert_new:
  assumes "rep h l as" "a \<notin> set as" "next_node n = None"
  shows "\<exists>l' h'. insertion (Some a) (l, h(a \<mapsto> n)) = Inr (l', h') \<and> rep h' l' (as @ [a])
      \<and> contents h' (as @ [a]) = contents h as @ [point.truncate n]
      \<and> (\<forall>b. b \<notin> set as \<longrightarrow> h' b = (h(a \<mapsto> n)) b)"
proof -
  have "rep (h(a \<mapsto> n)) l as" using assms(1,2) by (simp add: rep_def)
  from insertion_rep [OF this, of a n] show ?thesis using assms(2,3) by simp
qed

end

interpretation rear: end_insertion insertRear
  by unfold_locales (rule insertRear_rep)

lemma insertFront_rep:
  assumes "rep h l as" "h a = Some n" "as = [] \<Longrightarrow> next_node n = None" "a \<notin> set as"
  shows "\<exists>l' h'. insertFront (Some a) (l, h) = Inr (l', h') \<and> rep h' l' (a # as)
    \<and> contents h' (a # as) = point.truncate n # contents h as"
proof (cases as)
  case Nil
  then show ?thesis using assms by (auto simp: insertFront_def rep_def contents_def)
next
  case (Cons b bs)
  let ?h = "h(a \<mapsto> n\<lparr>next_node := head l\<rparr>)"
  have "insertFront (Some a) (l, h) = Inr (l\<lparr>head := Some a\<rparr>, ?h)"
    using assms by (auto simp: insertFront_def rep_def Cons res_simps)
  moreover have "rep ?h (l\<lparr>head := Some a\<rparr>) (a # as)"
    using assms by (auto simp: rep_def Cons)
  moreover have "contents ?h (a # as) = point.truncate n # contents h as"
    using assms(4) by (simp add: contents_def)
  ultimately show ?thesis by blast
qed

section \<open>Search, insertion and deletion by key\<close>

lemma search_key_seg:
  "seg h t as None \<Longrightarrow>
   search_key h x tp t = Some (Inr
     (case find_index (\<lambda>a. key_is x (key (the (h a)))) as of
        None \<Rightarrow> (if as = [] then tp else Some (last as), None)
      | Some i \<Rightarrow> (if i = 0 then tp else Some (as ! (i - 1)), Some (as ! i))))"
proof (induction as arbitrary: tp t)
  case Nil
  then show ?case by (simp add: search_key.simps)
next
  case (Cons a as)
  obtain n where n: "t = Some a" "h a = Some n" "seg h (next_node n) as None"
    using Cons.prems by auto
  show ?case
  proof (cases "key_is x (key n)")
    case True
    then show ?thesis using n by (subst search_key.simps) (simp add: res_simps)
  next
    case False
    then have "search_key h x tp t = search_key h x (Some a) (next_node n)"
      using n by (subst search_key.simps) (simp add: res_simps)
    also note Cons.IH [OF n(3)]
    finally show ?thesis using n False
      by (auto simp: nth_Cons' split: option.split)
  qed
qed

definition key_index :: "c_int \<Rightarrow> point list \<Rightarrow> nat option" where
  "key_index x ps = find_index (\<lambda>p. key_is x (key p)) ps"

lemma find_index_map: "find_index P (map f xs) = find_index (\<lambda>x. P (f x)) xs"
  by (induction xs) auto

lemma key_index_contents:
  "key_index x (contents h as) = find_index (\<lambda>a. key_is x (key (the (h a)))) as"
  by (simp add: key_index_def contents_def find_index_map)

lemma search_key_rep:
  assumes "rep h l as"
  shows "search_key h x (head l) (head l) = Some (Inr
     (case key_index x (contents h as) of
        None \<Rightarrow> (if as = [] then None else Some (last as), None)
      | Some i \<Rightarrow> (if i = 0 then Some (as ! 0) else Some (as ! (i - 1)), Some (as ! i))))"
proof -
  have "seg h (head l) as None" using assms by (simp add: rep_def)
  from search_key_seg [OF this, of x "head l"] show ?thesis
    using rep_head [OF assms]
    by (cases as) (auto simp: key_index_contents split: option.split)
qed

lemma key_index_lt: "key_index x (contents h as) = Some i \<Longrightarrow> i < length as"
  using find_index_SomeD by (fastforce simp: key_index_contents)

lemma insertNext_rep:
  assumes r: "rep h l as" and a: "h a = Some n" "next_node n = None" "a \<notin> set as"
  shows "\<exists>l' h'. insertNext (Some a) x (l, h) = Some (Inr (l', h')) \<and>
    (case key_index x (contents h as) of
       None \<Rightarrow> l' = l \<and> h' = h
     | Some i \<Rightarrow> rep h' l' (take (Suc i) as @ a # drop (Suc i) as)
         \<and> contents h' (take (Suc i) as @ a # drop (Suc i) as)
           = take (Suc i) (contents h as) @ point.truncate n # drop (Suc i) (contents h as))"
proof (cases "key_index x (contents h as)")
  case None
  then show ?thesis using search_key_rep [OF r, of x] by (simp add: insertNext_def)
next
  case (Some i)
  have i: "i < length as" using Some by (rule key_index_lt)
  define us t vs where "us = take i as" and "t = as ! i" and "vs = drop (Suc i) as"
  have as: "as = us @ t # vs" using i by (simp add: us_def t_def vs_def id_take_nth_drop)
  have new: "take (Suc i) as @ a # drop (Suc i) as = us @ t # a # vs"
    using i by (simp add: us_def t_def vs_def take_Suc_conv_app_nth)
  obtain m where s: "seg h (head l) us (Some t)" "h t = Some m" "seg h (next_node m) vs None"
    using r by (auto simp: rep_def as seg_append)
  have d: "distinct (us @ t # vs)" "a \<notin> set (us @ t # vs)" and tl: "tail l = Some (last (t # vs))"
    using r a(3) by (auto simp: rep_def as)
  have cont: "contents h' (us @ t # a # vs)
      = take (Suc i) (contents h as) @ point.truncate n # drop (Suc i) (contents h as)"
    if "contents h' (us @ t # vs) = contents h (us @ t # vs)" "point.truncate (the (h' a)) = point.truncate n"
    for h'
  proof -
    have len: "length us = i" using i by (simp add: us_def)
    have "contents h as = contents h us @ point.truncate (the (h t)) # contents h vs"
      by (simp add: as contents_def)
    moreover have "contents h' us = contents h us" "point.truncate (the (h' t)) = point.truncate (the (h t))"
      "contents h' vs = contents h vs"
      using that(1) by (simp_all add: contents_def)
    ultimately show ?thesis using that(2) len by (simp add: contents_def)
  qed
  have run: "insertNext (Some a) x (l, h) = Some (insert_after (Some a) (Some t) (l, h))"
    using search_key_rep [OF r, of x] Some by (simp add: insertNext_def t_def)
  show ?thesis
  proof (cases vs)
    case Nil
    then have "next_node m = None" using s(3) by simp
    let ?h = "h(t \<mapsto> m\<lparr>next_node := Some a\<rparr>)"
    have "insert_after (Some a) (Some t) (l, h) = Inr (l\<lparr>tail := Some a\<rparr>, ?h)"
      using s(2) \<open>next_node m = None\<close> by (simp add: insert_after_def res_simps)
    moreover have "rep ?h (l\<lparr>tail := Some a\<rparr>) (us @ t # a # vs)"
      using s d a Nil by (auto simp: rep_def seg_append)
    moreover have "contents ?h (us @ t # a # vs)
        = take (Suc i) (contents h as) @ point.truncate n # drop (Suc i) (contents h as)"
      using s(2) d a(1) by (intro cont) (simp_all add: contents_set_next)
    ultimately show ?thesis using run Some by (simp add: new)
  next
    case (Cons v ws)
    then have nm: "next_node m = Some v" using s(3) by simp
    let ?h = "h(a \<mapsto> n\<lparr>next_node := Some v\<rparr>, t \<mapsto> m\<lparr>next_node := Some a\<rparr>)"
    have ta: "t \<noteq> a" using d by auto
    have "insert_after (Some a) (Some t) (l, h) = Inr (l, ?h)"
      using s(2) nm a(1) ta by (simp add: insert_after_def res_simps)
    moreover have "rep ?h l (us @ t # a # vs)"
      using s d a nm tl ta Cons by (auto simp: rep_def seg_append)
    moreover have "contents ?h (us @ t # a # vs)
        = take (Suc i) (contents h as) @ point.truncate n # drop (Suc i) (contents h as)"
    proof (rule cont)
      show "point.truncate (the (?h a)) = point.truncate n" using ta by simp
      have "contents ?h (us @ t # vs) = contents (h(a \<mapsto> n\<lparr>next_node := Some v\<rparr>)) (us @ t # vs)"
        using s(2) ta by (intro contents_set_next) simp
      also have "\<dots> = contents h (us @ t # vs)" using d by (intro contents_upd) simp
      finally show "contents ?h (us @ t # vs) = contents h (us @ t # vs)" .
    qed
    ultimately show ?thesis using run Some by (simp add: new)
  qed
qed

lemma deleteNode_rep:
  assumes r: "rep h l as"
  shows "\<exists>l' h'. deleteNode x (l, h) = Some (Inr (l', h')) \<and>
    (case key_index x (contents h as) of
       None \<Rightarrow> l' = l \<and> h' = h
     | Some i \<Rightarrow> rep h' l' (take i as @ drop (Suc i) as) \<and> h' (as ! i) = None
         \<and> contents h' (take i as @ drop (Suc i) as)
           = take i (contents h as) @ drop (Suc i) (contents h as))"
proof (cases "key_index x (contents h as)")
  case None
  then show ?thesis using search_key_rep [OF r, of x] by (simp add: deleteNode_def)
next
  case (Some i)
  have i: "i < length as" using Some by (rule key_index_lt)
  define us t vs where "us = take i as" and "t = as ! i" and "vs = drop (Suc i) as"
  have as: "as = us @ t # vs" and len: "length us = i"
    using i by (simp_all add: us_def t_def vs_def id_take_nth_drop)
  have d: "distinct (us @ t # vs)" and tl: "tail l = Some (last (t # vs))"
    using r by (auto simp: rep_def as)
  obtain m where s: "seg h (head l) us (Some t)" "h t = Some m" "seg h (next_node m) vs None"
    using r by (auto simp: rep_def as seg_append)
  have run: "deleteNode x (l, h) = Some (rbind (unlink (if i = 0 then Some t else Some (as ! (i - 1))) (Some t) (l, h))
      (\<lambda>(l, h). rbind (free_node (Some t) h) (\<lambda>h'. Inr (l, h'))))"
    using search_key_rep [OF r, of x] Some by (auto simp: deleteNode_def t_def)
  have cont: "contents (h'(t := None)) (us @ vs) = take i (contents h as) @ drop (Suc i) (contents h as)"
    if "contents h' (us @ t # vs) = contents h (us @ t # vs)" for h'
  proof -
    have "contents (h'(t := None)) (us @ vs) = contents h' (us @ vs)" using d by simp
    also have "\<dots> = contents h (us @ vs)" using that by (simp add: contents_def)
    finally show ?thesis using len by (simp add: as contents_def)
  qed
  show ?thesis
  proof (cases us rule: rev_cases)
    case Nil
    let ?l = "if next_node m = None then l\<lparr>head := None, tail := None\<rparr> else l\<lparr>head := next_node m\<rparr>"
    have hd: "head l = Some t" "i = 0" using s(1) len Nil by auto
    have "deleteNode x (l, h) = Some (Inr (?l, h(t := None)))"
      unfolding run using s(2) hd by (simp add: unlink_def res_simps free_node_def)
    moreover have "rep (h(t := None)) ?l vs"
      using s(3) d tl Nil by (cases vs) (auto simp: rep_def)
    ultimately show ?thesis
      using cont [OF refl] Some hd Nil by (auto simp: as)
  next
    case (snoc ws z)
    obtain k where k: "seg h (head l) ws (Some z)" "h z = Some k" "next_node k = Some t"
      using s(1) by (auto simp: snoc seg_append)
    have i0: "i \<noteq> 0" "as ! (i - 1) = z" using len by (auto simp: as snoc nth_append)
    have zt: "z \<noteq> t" "z \<notin> set ws" "z \<notin> set vs" "t \<notin> set ws" "t \<notin> set vs" using d snoc by auto
    let ?l = "if next_node m = None then l\<lparr>tail := Some z\<rparr> else l"
    let ?h = "h(z \<mapsto> k\<lparr>next_node := next_node m\<rparr>)"
    have "deleteNode x (l, h) = Some (Inr (?l, ?h(t := None)))"
      unfolding run using s(2) k(2) zt i0 by (auto simp: unlink_def res_simps free_node_def)
    moreover have "rep (?h(t := None)) ?l (us @ vs)"
      using s(3) k d tl zt by (cases vs) (auto simp: rep_def snoc seg_append)
    moreover have "contents (?h(t := None)) (us @ vs) = take i (contents h as) @ drop (Suc i) (contents h as)"
      using k(2) by (intro cont contents_set_next)
    ultimately show ?thesis using Some by (auto simp: us_def [symmetric] vs_def [symmetric] t_def [symmetric])
  qed
qed

text \<open>
  C35. Insertion into a well-formed list. A new node whose \<open>next\<close> is \<open>NULL\<close> goes to the front, to
  the rear, or behind the first node with the given key (nowhere, when there is none); the
  operations return, and the list the heap then holds is the old one with the new contents at
  that place.
\<close>

theorem insert_refines:
  assumes "rep h l as" "h a = Some n" "next_node n = None" "a \<notin> set as"
  shows "(\<exists>l' h'. insertFront (Some a) (l, h) = Inr (l', h') \<and> rep h' l' (a # as)
      \<and> contents h' (a # as) = point.truncate n # contents h as)
    \<and> (\<exists>l' h'. insertRear (Some a) (l, h) = Inr (l', h') \<and> rep h' l' (as @ [a])
      \<and> contents h' (as @ [a]) = contents h as @ [point.truncate n])
    \<and> (\<exists>l' h'. insertNext (Some a) x (l, h) = Some (Inr (l', h')) \<and>
        (case key_index x (contents h as) of
           None \<Rightarrow> l' = l \<and> h' = h
         | Some i \<Rightarrow> rep h' l' (take (Suc i) as @ a # drop (Suc i) as)
             \<and> contents h' (take (Suc i) as @ a # drop (Suc i) as)
               = take (Suc i) (contents h as) @ point.truncate n # drop (Suc i) (contents h as)))"
  using insertFront_rep [OF assms(1,2) assms(3) assms(4)] insertRear_rep [OF assms]
    insertNext_rep [OF assms, of x] by blast

text \<open>
  C37. Deletion from a well-formed list: the search ends, the first node with the key is taken
  out and freed, and nothing happens when no node has it.
\<close>

theorem delete_refines:
  assumes "rep h l as"
  shows "\<exists>l' h'. deleteNode x (l, h) = Some (Inr (l', h')) \<and>
    (case key_index x (contents h as) of
       None \<Rightarrow> l' = l \<and> h' = h
     | Some i \<Rightarrow> rep h' l' (take i as @ drop (Suc i) as) \<and> h' (as ! i) = None
         \<and> contents h' (take i as @ drop (Suc i) as)
           = take i (contents h as) @ drop (Suc i) (contents h as))"
  using assms by (rule deleteNode_rep)

definition zero_point :: point where
  "zero_point = \<lparr>key = FZero False, generation_time = FZero False, n_th_slope = FZero False,
     mem_used_slope = FZero False, mem_free_slope = FZero False, mem_shared_slope = FZero False,
     mem_buffers_slope = FZero False, mem_cached_slope = FZero False, swap_used_slope = FZero False,
     swap_free_slope = FZero False, cpu_user_slope = FZero False, cpu_nice_slope = FZero False,
     cpu_system_slope = FZero False, cpu_iowait_slope = FZero False, cpu_steal_slope = FZero False,
     cpu_idle_slope = FZero False, n_th = 0, mem_used = 0, mem_free = 0, mem_shared = 0,
     mem_buffers = 0, mem_cached = 0, swap_used = 0, swap_free = 0, cpu_user = FZero False,
     cpu_nice = FZero False, cpu_system = FZero False, cpu_iowait = FZero False,
     cpu_steal = FZero False, cpu_idle = FZero False\<rparr>"

definition node_of :: "point \<Rightarrow> list_link \<Rightarrow> node" where
  "node_of p q = point.extend p (node.fields q)"

lemma node_of_simps [simp]:
  "point.truncate (node_of p q) = point.truncate p" "next_node (node_of p q) = q" "key (node_of p q) = key p"
  by (simp_all add: node_of_def point.truncate_def point.extend_def node.fields_def)

definition one_node :: heap where
  "one_node = [0 \<mapsto> node_of zero_point None]"

lemma one_node_rep: "rep one_node \<lparr>head = Some 0, tail = Some 0\<rparr> [0]"
  by (simp add: rep_def one_node_def)

lemma zero_key: "key_is 0 (FZero False)" "\<not> key_is 1 (FZero False)"
  by (simp_all add: key_is_def fl_eval)

theorem insert_refines_witness:
  "\<exists>l' h'. insertNext (Some 1) 0 (\<lparr>head = Some 0, tail = Some 0\<rparr>, one_node(1 \<mapsto> node_of zero_point None))
       = Some (Inr (l', h')) \<and> rep h' l' [0, 1]"
proof -
  let ?h = "one_node(1 \<mapsto> node_of zero_point None)"
  have r: "rep ?h \<lparr>head = Some 0, tail = Some 0\<rparr> [0]" by (simp add: rep_def one_node_def)
  have "key_index 0 (contents ?h [0]) = Some 0"
    by (simp add: key_index_def contents_def one_node_def zero_key zero_point_def)
  with insert_refines [OF r, of 1 "node_of zero_point None" 0] show ?thesis by auto
qed

theorem delete_refines_witness:
  "\<exists>l' h'. deleteNode 0 (\<lparr>head = Some 0, tail = Some 0\<rparr>, one_node) = Some (Inr (l', h'))
     \<and> rep h' l' [] \<and> h' 0 = None"
proof -
  have "key_index 0 (contents one_node [0]) = Some 0"
    by (simp add: key_index_def contents_def one_node_def zero_key zero_point_def)
  with delete_refines [OF one_node_rep, of 0] show ?thesis by auto
qed

section \<open>Ill-formed lists\<close>

text \<open>A search that runs into a cycle of nodes without the key does not end.\<close>

lemma search_cycle:
  assumes a: "h a = Some n" "next_node n = Some a" "\<not> key_is x (key n)"
  shows "search_key h x tp (Some a) = None"
proof (rule ccontr)
  assume "search_key h x tp (Some a) \<noteq> None"
  then obtain r where r: "search_key h x tp (Some a) = Some r" by blast
  define P where "P h' x' p t y \<longleftrightarrow> \<not> (h' = h \<and> x' = x \<and> t = Some a)" for h' x' and p t :: list_link and y :: "(list_link \<times> list_link) res"
  have "P h x tp (Some a) r"
    using search_key.raw_induct [where P = P and xa = "(((h, x), tp), Some a)" and y = r] r a
    by (fastforce simp: P_def res_simps split: if_splits sum.splits)
  then show False by (simp add: P_def)
qed

text \<open>
  The operations do not check that a node is new. Inserting the head once more makes it its
  own successor, and from then on the search for a key that the node does not have never
  returns.
\<close>

theorem double_insert_hangs:
  assumes "head l = Some a" "h a = Some n" "\<not> key_is x (key n)"
  shows "\<exists>l' h'. insertFront (Some a) (l, h) = Inr (l', h')
    \<and> deleteNode x (l', h') = None \<and> insertNext p x (l', h') = None"
proof -
  let ?h = "h(a \<mapsto> n\<lparr>next_node := Some a\<rparr>)"
  have "insertFront (Some a) (l, h) = Inr (l\<lparr>head := Some a\<rparr>, ?h)"
    using assms by (simp add: insertFront_def res_simps)
  moreover have "search_key ?h x (Some a) (Some a) = None"
    using assms(3) by (intro search_cycle [of ?h a "n\<lparr>next_node := Some a\<rparr>"]) simp_all
  ultimately show ?thesis by (simp add: deleteNode_def insertNext_def)
qed

theorem double_insert_hangs_witness:
  "\<exists>l' h'. insertFront (Some 0) (\<lparr>head = Some 0, tail = Some 0\<rparr>, one_node) = Inr (l', h')
    \<and> deleteNode 1 (l', h') = None \<and> insertNext (Some 7) 1 (l', h') = None"
  by (rule double_insert_hangs [where n = "node_of zero_point None"])
     (simp_all add: one_node_def zero_key zero_point_def)

end
