(* ===== verification/Aggregate.thy ===== *)
theory Aggregate
  imports Linked_List
begin

text \<open>
  The aggregation of datapoints (\<open>model_build/aggregate.c\<close>): the nodes of each run are grouped
  into windows of \<open>AGGREGATION_STEP\<close> seconds and each window is written as one node with
  averages, slopes and the remaining time to crash. Allocation is a counter of fresh addresses.
\<close>

definition AGGREGATION_STEP :: int where
  "AGGREGATION_STEP = 15"

definition MAX_RUNS :: nat where
  "MAX_RUNS = 1024"

definition i2d :: "c_int \<Rightarrow> fl" where
  "i2d w = f_of_int binary64 (sint w)"

definition u2d :: "c_int \<Rightarrow> fl" where
  "u2d w = f_of_int binary64 (uint w)"

section \<open>One window\<close>

text \<open>The assignments that start a window: remaining time, start time, slopes.\<close>

definition start_window :: "fl \<Rightarrow> point \<Rightarrow> point \<Rightarrow> point" where
  "start_window tail_key cur agg = agg\<lparr>
     key := fsub binary64 tail_key (key cur),
     generation_time := key cur,
     n_th_slope := i2d (n_th cur), mem_used_slope := i2d (mem_used cur),
     mem_free_slope := i2d (mem_free cur), mem_shared_slope := i2d (mem_shared cur),
     mem_buffers_slope := i2d (mem_buffers cur), mem_cached_slope := i2d (mem_cached cur),
     swap_used_slope := i2d (swap_used cur), swap_free_slope := i2d (swap_free cur),
     cpu_user_slope := cpu_user cur, cpu_nice_slope := cpu_nice cur,
     cpu_system_slope := cpu_system cur, cpu_iowait_slope := cpu_iowait cur,
     cpu_steal_slope := cpu_steal cur, cpu_idle_slope := cpu_idle cur\<rparr>"

text \<open>The additions for every node. The \<open>int\<close> sums wrap.\<close>

definition add_point :: "point \<Rightarrow> point \<Rightarrow> point" where
  "add_point cur agg = agg\<lparr>
     n_th := n_th agg + n_th cur, mem_used := mem_used agg + mem_used cur,
     mem_free := mem_free agg + mem_free cur, mem_shared := mem_shared agg + mem_shared cur,
     mem_buffers := mem_buffers agg + mem_buffers cur, mem_cached := mem_cached agg + mem_cached cur,
     swap_used := swap_used agg + swap_used cur, swap_free := swap_free agg + swap_free cur,
     cpu_user := fadd binary64 (cpu_user agg) (cpu_user cur),
     cpu_nice := fadd binary64 (cpu_nice agg) (cpu_nice cur),
     cpu_system := fadd binary64 (cpu_system agg) (cpu_system cur),
     cpu_iowait := fadd binary64 (cpu_iowait agg) (cpu_iowait cur),
     cpu_steal := fadd binary64 (cpu_steal agg) (cpu_steal cur),
     cpu_idle := fadd binary64 (cpu_idle agg) (cpu_idle cur)\<rparr>"

text \<open>
  The averages and slopes at the end of a window. \<open>num_nodes\<close> is unsigned, so the integer
  averages are unsigned divisions. The slope is the negated difference to the node that ends the
  window, divided by the number of nodes.
\<close>

definition slope :: "c_int \<Rightarrow> fl \<Rightarrow> fl \<Rightarrow> fl" where
  "slope n first last_value =
     fdiv binary64 (fsub binary64 first last_value)
       (fmul binary64 (f_of_int binary64 (- 1)) (u2d n))"

definition finish_window :: "c_int \<Rightarrow> point \<Rightarrow> point \<Rightarrow> point res" where
  "finish_window n cur agg =
     (if n = 0 then Inl Div_By_Zero
      else Inr (agg\<lparr>
        generation_time := fdiv binary64 (fsub binary64 (key cur) (generation_time agg)) (u2d n),
        n_th := n_th agg div n, mem_used := mem_used agg div n, mem_free := mem_free agg div n,
        mem_shared := mem_shared agg div n, mem_buffers := mem_buffers agg div n,
        mem_cached := mem_cached agg div n, swap_used := swap_used agg div n,
        swap_free := swap_free agg div n,
        cpu_user := fdiv binary64 (cpu_user agg) (u2d n), cpu_nice := fdiv binary64 (cpu_nice agg) (u2d n),
        cpu_system := fdiv binary64 (cpu_system agg) (u2d n),
        cpu_iowait := fdiv binary64 (cpu_iowait agg) (u2d n),
        cpu_steal := fdiv binary64 (cpu_steal agg) (u2d n),
        cpu_idle := fdiv binary64 (cpu_idle agg) (u2d n),
        n_th_slope := slope n (n_th_slope agg) (i2d (n_th cur)),
        mem_used_slope := slope n (mem_used_slope agg) (i2d (mem_used cur)),
        mem_free_slope := slope n (mem_free_slope agg) (i2d (mem_free cur)),
        mem_shared_slope := slope n (mem_shared_slope agg) (i2d (mem_shared cur)),
        mem_buffers_slope := slope n (mem_buffers_slope agg) (i2d (mem_buffers cur)),
        mem_cached_slope := slope n (mem_cached_slope agg) (i2d (mem_cached cur)),
        swap_used_slope := slope n (swap_used_slope agg) (i2d (swap_used cur)),
        swap_free_slope := slope n (swap_free_slope agg) (i2d (swap_free cur)),
        cpu_user_slope := slope n (cpu_user_slope agg) (cpu_user cur),
        cpu_nice_slope := slope n (cpu_nice_slope agg) (cpu_nice cur),
        cpu_system_slope := slope n (cpu_system_slope agg) (cpu_system cur),
        cpu_iowait_slope := slope n (cpu_iowait_slope agg) (cpu_iowait cur),
        cpu_steal_slope := slope n (cpu_steal_slope agg) (cpu_steal cur),
        cpu_idle_slope := slope n (cpu_idle_slope agg) (cpu_idle cur)\<rparr>))"

section \<open>The loop over a run\<close>

record agg_state =
  aggregated :: point
  num_nodes :: c_int
  init_time :: fl
  compute_RTTC :: bool
  aggregated_datapoints :: c_list
  the_heap :: heap
  next_free :: nat

definition far :: "fl \<Rightarrow> fl \<Rightarrow> bool" where
  "far k init = flt (f_of_int binary64 AGGREGATION_STEP) (C_Float.fabs (fsub binary64 k init))"

definition malloc_node :: "point \<Rightarrow> agg_state \<Rightarrow> agg_state" where
  "malloc_node p st = st\<lparr>the_heap := (the_heap st)(next_free st \<mapsto> node_of p None),
     next_free := Suc (next_free st)\<rparr>"

text \<open>The end of a window: \<open>aggregated\<close> is completed, copied into a new node and cleared.\<close>

definition close_window :: "point \<Rightarrow> agg_state \<Rightarrow> agg_state res" where
  "close_window cur st =
     rbind (finish_window (num_nodes st) cur (aggregated st)) (\<lambda>p.
       let st1 = malloc_node p st in
       rbind (insertRear (Some (next_free st)) (aggregated_datapoints st1, the_heap st1)) (\<lambda>(out, h).
         Inr (st1\<lparr>aggregated_datapoints := out, the_heap := h, init_time := key cur, num_nodes := 0,
            compute_RTTC := True, aggregated := zero_point\<rparr>)))"

text \<open>The body of the \<open>while\<close> loop for the node \<open>n\<close> at \<open>p\<close> of the run \<open>l\<close>.\<close>

definition agg_node :: "c_list \<Rightarrow> list_link \<Rightarrow> node \<Rightarrow> agg_state \<Rightarrow> agg_state res" where
  "agg_node l p n st =
     (let cur = point.truncate n in
      rbind (if far (key cur) (init_time st) \<or> p = tail l then close_window cur st else Inr st) (\<lambda>st1.
        rbind (if compute_RTTC st1
               then rbind (load (the_heap st1) (tail l)) (\<lambda>t.
                      Inr (st1\<lparr>aggregated := start_window (key t) cur (aggregated st1), compute_RTTC := False\<rparr>))
               else Inr st1) (\<lambda>st2.
          Inr (st2\<lparr>aggregated := add_point cur (aggregated st2), num_nodes := num_nodes st2 + 1\<rparr>))))"

partial_function (option) agg_loop :: "c_list \<Rightarrow> list_link \<Rightarrow> agg_state \<Rightarrow> agg_state res option"
where
  "agg_loop l p st =
     (if p = None then Some (Inr st)
      else (case load (the_heap st) p of
              Inl e \<Rightarrow> Some (Inl e)
            | Inr n \<Rightarrow>
                (case agg_node l p n st of
                   Inl e \<Rightarrow> Some (Inl e)
                 | Inr st1 \<Rightarrow>
                     (case load (the_heap st1) p of
                        Inl e \<Rightarrow> Some (Inl e)
                      | Inr n1 \<Rightarrow> agg_loop l (next_node n1) st1))))"

definition agg_run :: "c_list \<Rightarrow> agg_state \<Rightarrow> agg_state res option" where
  "agg_run l st =
     (case load (the_heap st) (head l) of
        Inl e \<Rightarrow> Some (Inl e)
      | Inr n \<Rightarrow> agg_loop l (head l)
          (st\<lparr>num_nodes := 0, compute_RTTC := True, aggregated := zero_point, init_time := key n\<rparr>))"

fun aggregate :: "c_list list \<Rightarrow> agg_state \<Rightarrow> agg_state res option" where
  "aggregate [] st = Some (Inr st)"
| "aggregate (l # ls) st =
     (case agg_run l st of
        None \<Rightarrow> None
      | Some (Inl e) \<Rightarrow> Some (Inl e)
      | Some (Inr st') \<Rightarrow> aggregate ls st')"

section \<open>The specification: windows of a list of datapoints\<close>

text \<open>
  \<open>windows acc ps\<close> cuts the rest \<open>ps\<close> of a run into windows, \<open>acc\<close> being the points of the window
  that is open: a point that is more than \<open>AGGREGATION_STEP\<close> away from the first of the window
  ends it, and so does the last point of the run.
\<close>

fun windows :: "point list \<Rightarrow> point list \<Rightarrow> (point list \<times> point) list" where
  "windows acc [] = []"
| "windows acc (p # ps) =
     (if far (key p) (key (hd acc)) \<or> ps = [] then (acc, p) # windows [p] ps
      else windows (acc @ [p]) ps)"

definition open_window :: "fl \<Rightarrow> point list \<Rightarrow> point" where
  "open_window tail_key acc = fold add_point acc (start_window tail_key (hd acc) zero_point)"

definition summarise :: "fl \<Rightarrow> point list \<times> point \<Rightarrow> point" where
  "summarise tail_key w =
     (case finish_window (of_nat (length (fst w))) (snd w) (open_window tail_key (fst w)) of
        Inl e \<Rightarrow> zero_point | Inr p \<Rightarrow> p)"

definition summarise_run :: "point list \<Rightarrow> point list" where
  "summarise_run ps = map (summarise (key (last ps))) (windows [hd ps] (tl ps))"

section \<open>Refinement\<close>

lemma truncate_point [simp]: "point.truncate (p :: point) = p"
  by (cases p) (simp add: point.truncate_def)

lemma far_self [simp]: "\<not> far k k"
  by (cases k) (simp_all add: far_def AGGREGATION_STEP_def fsub_def fl_eval)

definition good :: "agg_state \<Rightarrow> nat list \<Rightarrow> bool" where
  "good st outs \<longleftrightarrow> rep (the_heap st) (aggregated_datapoints st) outs \<and>
     (\<forall>a. the_heap st a \<noteq> None \<longrightarrow> a < next_free st)"

definition frame :: "nat list \<Rightarrow> agg_state \<Rightarrow> agg_state \<Rightarrow> bool" where
  "frame outs st st' \<longleftrightarrow> (\<forall>b < next_free st. b \<notin> set outs \<longrightarrow> the_heap st' b = the_heap st b)
     \<and> next_free st \<le> next_free st'"

lemma good_out_bound: "good st outs \<Longrightarrow> b \<in> set outs \<Longrightarrow> b < next_free st"
  using seg_alloc by (auto simp: good_def rep_def)

lemma close_window_good:
  assumes g: "good st outs" and f: "finish_window (num_nodes st) cur (aggregated st) = Inr p"
  shows "\<exists>st'. close_window cur st = Inr st' \<and> good st' (outs @ [next_free st])
    \<and> contents (the_heap st') (outs @ [next_free st]) = contents (the_heap st) outs @ [p]
    \<and> frame outs st st' \<and> next_free st' = Suc (next_free st) \<and> init_time st' = key cur \<and> num_nodes st' = 0
    \<and> compute_RTTC st' \<and> aggregated st' = zero_point"
proof -
  let ?a = "next_free st" and ?h = "(the_heap st)(next_free st \<mapsto> node_of p None)"
  have a: "?a \<notin> set outs" using good_out_bound [OF g] by blast
  have r: "rep (the_heap st) (aggregated_datapoints st) outs" using g by (simp add: good_def)
  obtain out h' where i: "insertRear (Some ?a) (aggregated_datapoints st, ?h) = Inr (out, h')"
    and r': "rep h' out (outs @ [?a])" and c: "contents h' (outs @ [?a]) = contents (the_heap st) outs @ [p]"
    and fr: "\<forall>b. b \<notin> set outs \<longrightarrow> h' b = ?h b"
    using rear.insert_new [OF r a, of "node_of p None"] by auto
  have bound: "b < Suc ?a" if "h' b \<noteq> None" for b
  proof (cases "b \<in> set outs")
    case True
    then show ?thesis using good_out_bound [OF g] by fastforce
  next
    case False
    then show ?thesis using that fr g by (auto simp: good_def less_SucI split: if_splits)
  qed
  let ?st = "(malloc_node p st)\<lparr>aggregated_datapoints := out, the_heap := h', init_time := key cur,
    num_nodes := 0, compute_RTTC := True, aggregated := zero_point\<rparr>"
  have "close_window cur st = Inr ?st"
    using f i by (simp add: close_window_def malloc_node_def Let_def)
  moreover have "good ?st (outs @ [?a])"
    using r' bound by (auto simp: good_def malloc_node_def)
  moreover have "frame outs st ?st" using fr by (simp add: frame_def malloc_node_def)
  ultimately show ?thesis using c a by (intro exI [of _ ?st]) (simp add: malloc_node_def)
qed

lemma frame_trans:
  "frame outs st st' \<Longrightarrow> frame (outs @ [next_free st]) st' st'' \<Longrightarrow> frame outs st st''"
  by (auto simp: frame_def)

lemma frame_refl: "frame outs st st"
  by (simp add: frame_def)

text \<open>What the rest of the body does to a state in which a window is open, or was just closed.\<close>

lemma agg_node_add:
  assumes "\<not> (far (key n) (init_time st) \<or> p = tail l)" "\<not> compute_RTTC st"
  shows "agg_node l p n st = Inr (st\<lparr>aggregated := add_point (point.truncate n) (aggregated st),
     num_nodes := num_nodes st + 1\<rparr>)"
  using assms by (simp add: agg_node_def Let_def)

lemma agg_node_first:
  assumes "\<not> (far (key n) (init_time st) \<or> p = tail l)" "compute_RTTC st" "load (the_heap st) (tail l) = Inr t"
  shows "agg_node l p n st = Inr (st\<lparr>aggregated :=
       add_point (point.truncate n) (start_window (key t) (point.truncate n) (aggregated st)),
     compute_RTTC := False, num_nodes := num_nodes st + 1\<rparr>)"
  using assms by (simp add: agg_node_def Let_def)

lemma agg_node_close:
  assumes "far (key n) (init_time st) \<or> p = tail l" "close_window (point.truncate n) st = Inr st1"
    and "compute_RTTC st1" "load (the_heap st1) (tail l) = Inr t"
  shows "agg_node l p n st = Inr (st1\<lparr>aggregated :=
       add_point (point.truncate n) (start_window (key t) (point.truncate n) (aggregated st1)),
     compute_RTTC := False, num_nodes := num_nodes st1 + 1\<rparr>)"
  using assms by (simp add: agg_node_def Let_def)

lemma finish_ok: "n \<noteq> 0 \<Longrightarrow> \<exists>p. finish_window n cur agg = Inr p"
  by (simp add: finish_window_def)

lemma of_nat_length_neq_0:
  "acc \<noteq> [] \<Longrightarrow> length acc < 2 ^ 32 \<Longrightarrow> (of_nat (length acc) :: c_int) \<noteq> 0"
  by (auto simp: word_of_nat_eq_0_iff dest: nat_dvd_not_less)

lemma agg_loop_step:
  assumes "load (the_heap st) p = Inr n" "agg_node l p n st = Inr st1" "load (the_heap st1) p = Inr n"
  shows "agg_loop l p st = agg_loop l (next_node n) st1"
proof -
  have "p \<noteq> None" using assms(1) by (auto simp: load_def split: option.splits)
  then show ?thesis using assms by (subst agg_loop.simps) auto
qed

text \<open>A window is open: \<open>acc\<close> are its points.\<close>

definition opened :: "fl \<Rightarrow> point list \<Rightarrow> agg_state \<Rightarrow> bool" where
  "opened tail_key acc st \<longleftrightarrow> acc \<noteq> [] \<and> aggregated st = open_window tail_key acc
     \<and> num_nodes st = of_nat (length acc) \<and> init_time st = key (hd acc) \<and> \<not> compute_RTTC st"

lemma opened_add:
  "opened tk acc st \<Longrightarrow> opened tk (acc @ [cur])
     (st\<lparr>aggregated := add_point cur (aggregated st), num_nodes := num_nodes st + 1\<rparr>)"
  by (simp add: opened_def open_window_def)

lemma opened_first:
  "init_time st = key cur \<Longrightarrow> num_nodes st = 0 \<Longrightarrow> aggregated st = zero_point \<Longrightarrow>
   opened tk [cur] (st\<lparr>aggregated := add_point cur (start_window tk cur (aggregated st)),
     compute_RTTC := False, num_nodes := num_nodes st + 1\<rparr>)"
  by (simp add: opened_def open_window_def)

lemma agg_loop_windows:
  assumes "seg (the_heap st) p as None" "distinct as" "set as \<inter> set outs = {}"
    and "as \<noteq> [] \<Longrightarrow> last as = z" "tail l = Some z" "z \<notin> set outs" "the_heap st z = Some t"
    and "good st outs" "opened (key t) acc st" "length acc + length as < 2 ^ 32"
  shows "\<exists>st' new. agg_loop l p st = Some (Inr st') \<and> good st' (outs @ new)
    \<and> contents (the_heap st') (outs @ new) = contents (the_heap st) outs
        @ map (summarise (key t)) (windows acc (contents (the_heap st) as))
    \<and> frame outs st st' \<and> (\<forall>a \<in> set new. next_free st \<le> a)"
  using assms
proof (induction as arbitrary: p st outs acc)
  case Nil
  then show ?case
    by (intro exI [of _ st] exI [of _ "[]"]) (simp add: agg_loop.simps contents_def frame_refl)
next
  case (Cons a as)
  obtain n where p: "p = Some a" and n: "the_heap st a = Some n" and sg: "seg (the_heap st) (next_node n) as None"
    using Cons.prems(1) by auto
  let ?cur = "point.truncate n" and ?B = "far (key n) (init_time st) \<or> p = tail l"
  have pz: "p = tail l \<longleftrightarrow> as = []"
    using Cons.prems(2,4,5) p by (cases as rule: rev_cases) auto
  have below: "b < next_free st" if "b \<in> set (a # as) \<or> b = z" for b
    using that seg_alloc [OF Cons.prems(1)] Cons.prems(7,8) by (auto simp: good_def)
  have it: "init_time st = key (hd acc)" using Cons.prems(9) by (simp add: opened_def)
  have ld: "load (the_heap st) p = Inr n" using n p by (simp add: res_simps)
  have cs: "contents (the_heap st) (a # as) = ?cur # contents (the_heap st) as"
    using n by (simp add: contents_def)
  have ne: "contents (the_heap st) as = [] \<longleftrightarrow> as = []" by (simp add: contents_def)
  show ?case
  proof (cases ?B)
    case False
    let ?st = "st\<lparr>aggregated := add_point ?cur (aggregated st), num_nodes := num_nodes st + 1\<rparr>"
    have "agg_node l p n st = Inr ?st"
      using False Cons.prems(9) by (intro agg_node_add) (simp_all add: opened_def)
    then have step: "agg_loop l p st = agg_loop l (next_node n) ?st"
      using ld by (intro agg_loop_step) simp_all
    have "windows acc (contents (the_heap st) (a # as)) = windows (acc @ [?cur]) (contents (the_heap st) as)"
      using False pz it ne by (simp add: cs)
    moreover have "opened (key t) (acc @ [?cur]) ?st" using Cons.prems(9) by (rule opened_add)
    moreover have "last as = z" if "as \<noteq> []" using that Cons.prems(4) by simp
    moreover have "good ?st outs" using Cons.prems(8) by (simp add: good_def)
    ultimately show ?thesis
      using Cons.IH [of ?st "next_node n" outs "acc @ [?cur]"] Cons.prems sg step
      by (simp add: frame_def)
  next
    case True
    have len: "(of_nat (length acc) :: c_int) \<noteq> 0"
      using Cons.prems(9,10) by (intro of_nat_length_neq_0) (simp_all add: opened_def)
    obtain q where q: "finish_window (of_nat (length acc)) ?cur (open_window (key t) acc) = Inr q"
      using finish_ok [OF len] by blast
    have sum: "summarise (key t) (acc, ?cur) = q" by (simp add: summarise_def q)
    obtain st1 where c: "close_window ?cur st = Inr st1" and g1: "good st1 (outs @ [next_free st])"
      and c1: "contents (the_heap st1) (outs @ [next_free st]) = contents (the_heap st) outs @ [q]"
      and f1: "frame outs st st1" "next_free st1 = Suc (next_free st)"
      and s1: "init_time st1 = key ?cur" "num_nodes st1 = 0" "compute_RTTC st1" "aggregated st1 = zero_point"
      using close_window_good [OF Cons.prems(8), of ?cur q] q Cons.prems(9) by (auto simp: opened_def)
    have keep: "the_heap st1 b = the_heap st b" if "b \<in> set (a # as) \<or> b = z" for b
      using f1(1) below [OF that] that Cons.prems(3,6) by (auto simp: frame_def)
    define st2 where "st2 = st1\<lparr>aggregated := add_point ?cur (start_window (key t) ?cur (aggregated st1)),
     compute_RTTC := False, num_nodes := num_nodes st1 + 1\<rparr>"
    have hp: "the_heap st2 = the_heap st1" "next_free st2 = Suc (next_free st)"
      "aggregated_datapoints st2 = aggregated_datapoints st1"
      using f1(2) by (simp_all add: st2_def)
    have "load (the_heap st1) (tail l) = Inr t" using Cons.prems(5,7) keep by (simp add: res_simps)
    then have "agg_node l p n st = Inr st2"
      unfolding st2_def using True c s1(3) by (intro agg_node_close) simp_all
    moreover have "load (the_heap st2) p = Inr n" using n p keep hp by (simp add: res_simps)
    ultimately have step: "agg_loop l p st = agg_loop l (next_node n) st2"
      using ld by (intro agg_loop_step)
    have w: "windows acc (contents (the_heap st) (a # as)) = (acc, ?cur) # windows [?cur] (contents (the_heap st) as)"
      using True pz it ne by (simp add: cs)
    have op: "opened (key t) [?cur] st2" unfolding st2_def using s1 by (intro opened_first)
    have nf: "next_free st \<notin> set (a # as)" "next_free st \<noteq> z"
      using below [of "next_free st"] by blast+
    have h1: "seg (the_heap st2) (next_node n) as None"
      using sg keep hp by (simp add: seg_cong [of as "the_heap st1" "the_heap st"])
    have h2: "distinct as" using Cons.prems(2) by simp
    have h3: "set as \<inter> set (outs @ [next_free st]) = {}" using nf Cons.prems(3) by simp
    have h4: "last as = z" if "as \<noteq> []" using that Cons.prems(4) by simp
    have h6: "z \<notin> set (outs @ [next_free st])" using nf Cons.prems(6) by simp
    have h7: "the_heap st2 z = Some t" using Cons.prems(7) keep hp by simp
    have h8: "good st2 (outs @ [next_free st])" using g1 hp f1(2) by (simp add: good_def)
    have h10: "length [?cur] + length as < 2 ^ 32"
    proof -
      have "acc \<noteq> []" using Cons.prems(9) by (simp add: opened_def)
      then have "1 \<le> length acc" by (simp add: Suc_leI)
      moreover have "length acc + (1 + length as) < 2 ^ 32" using Cons.prems(10) by simp
      moreover have "length [?cur] = 1" by simp
      ultimately show ?thesis by linarith
    qed
    have cont: "contents (the_heap st2) as = contents (the_heap st) as" 
      unfolding hp by (rule contents_cong) (use keep in simp)
    obtain st' new where st': "agg_loop l (next_node n) st2 = Some (Inr st')"
      "good st' ((outs @ [next_free st]) @ new)"
      "contents (the_heap st') ((outs @ [next_free st]) @ new) = contents (the_heap st2) (outs @ [next_free st])
        @ map (summarise (key t)) (windows [?cur] (contents (the_heap st2) as))"
      "frame (outs @ [next_free st]) st2 st'" "\<forall>a \<in> set new. next_free st2 \<le> a"
      using Cons.IH [OF h1 h2 h3 h4 Cons.prems(5) h6 h7 h8 op h10] by blast
    have "frame outs st st'" using f1(1) st'(4) hp by (auto simp: frame_def)
    moreover have "\<forall>b \<in> set (next_free st # new). next_free st \<le> b" using st'(5) hp by auto
    moreover have "contents (the_heap st') (outs @ next_free st # new) = contents (the_heap st) outs
        @ map (summarise (key t)) (windows acc (contents (the_heap st) (a # as)))"
      using st'(3) w c1 sum cont hp by simp
    moreover have "good st' (outs @ next_free st # new)" using st'(2) by simp
    ultimately show ?thesis using st'(1) step by (intro exI [of _ st'] exI [of _ "next_free st # new"]) simp
  qed
qed

lemma rep_alloc: "rep h l as \<Longrightarrow> a \<in> set as \<Longrightarrow> h a \<noteq> None"
  using seg_alloc [of h "head l" as None a] by (simp add: rep_def)

lemma agg_run_windows:
  assumes r: "rep (the_heap st) l as" "2 \<le> length as" "length as < 2 ^ 32" "set as \<inter> set outs = {}"
    and g: "good st outs"
  shows "\<exists>st' new. agg_run l st = Some (Inr st') \<and> good st' (outs @ new)
    \<and> contents (the_heap st') (outs @ new) = contents (the_heap st) outs
        @ summarise_run (contents (the_heap st) as)
    \<and> frame outs st st' \<and> (\<forall>a \<in> set new. next_free st \<le> a)"
proof -
  obtain a b bs where as: "as = a # b # bs" using r(2) by (cases as; cases "tl as") auto
  obtain n where n: "head l = Some a" "the_heap st a = Some n" "seg (the_heap st) (next_node n) (b # bs) None"
    using r(1) by (auto simp: rep_def as)
  let ?z = "last (b # bs)" and ?cur = "point.truncate n"
  have z: "tail l = Some ?z" "a \<noteq> ?z" "distinct (b # bs)" "?z \<in> set as"
    using r(1) by (auto simp: rep_def as)
  obtain t where t: "the_heap st ?z = Some t" using rep_alloc [OF r(1) z(4)] by blast
  define st0 where "st0 = st\<lparr>num_nodes := 0, compute_RTTC := True, aggregated := zero_point, init_time := key n\<rparr>"
  define st1 where "st1 = st0\<lparr>aggregated := add_point ?cur (start_window (key t) ?cur (aggregated st0)),
     compute_RTTC := False, num_nodes := num_nodes st0 + 1\<rparr>"
  have hp: "the_heap st1 = the_heap st" "next_free st1 = next_free st" "the_heap st0 = the_heap st"
    by (simp_all add: st0_def st1_def)
  have "agg_node l (Some a) n st0 = Inr st1" unfolding st1_def
    using z t hp by (intro agg_node_first) (simp_all add: st0_def res_simps)
  then have "agg_loop l (Some a) st0 = agg_loop l (next_node n) st1"
    using n hp by (intro agg_loop_step) (simp_all add: res_simps)
  then have step: "agg_run l st = agg_loop l (next_node n) st1"
    using n by (simp add: agg_run_def res_simps st0_def)
  have op: "opened (key t) [?cur] st1" unfolding st1_def by (rule opened_first) (simp_all add: st0_def)
  have s: "seg (the_heap st1) (next_node n) (b # bs) None" using n(3) hp by simp
  have d: "set (b # bs) \<inter> set outs = {}" "?z \<notin> set outs" using r(4) z(4) by (auto simp: as)
  have h7: "the_heap st1 ?z = Some t" using t hp by simp
  have h8: "good st1 outs" using g by (simp add: good_def st1_def st0_def)
  have h10: "length [?cur] + length (b # bs) < 2 ^ 32" using r(3) by (simp add: as)
  have c: "contents (the_heap st) as = ?cur # contents (the_heap st) (b # bs)"
    and last: "key (last (contents (the_heap st) as)) = key t"
    using n t by (simp_all add: as contents_def last_map split: if_splits)
  obtain st' new where st': "agg_loop l (next_node n) st1 = Some (Inr st')" "good st' (outs @ new)"
    "contents (the_heap st') (outs @ new) = contents (the_heap st) outs
        @ map (summarise (key t)) (windows [?cur] (contents (the_heap st) (b # bs)))"
    "frame outs st1 st'" "\<forall>a \<in> set new. next_free st1 \<le> a"
    using agg_loop_windows [OF s z(3) d(1) refl z(1) d(2) h7 h8 op h10] unfolding hp by blast
  have "summarise_run (contents (the_heap st) as)
      = map (summarise (key t)) (windows [?cur] (contents (the_heap st) (b # bs)))"
    unfolding summarise_run_def last by (simp add: c)
  then show ?thesis using st' step hp by (intro exI [of _ st'] exI [of _ new]) (simp add: frame_def)
qed

lemma aggregate_runs:
  assumes "\<forall>(l, as) \<in> set runs. rep (the_heap st) l as \<and> 2 \<le> length as \<and> length as < 2 ^ 32
      \<and> set as \<inter> set outs = {}"
    and "good st outs"
  shows "\<exists>st' outs'. aggregate (map fst runs) st = Some (Inr st') \<and> good st' outs'
    \<and> contents (the_heap st') outs' = contents (the_heap st) outs
        @ concat (map (\<lambda>(l, as). summarise_run (contents (the_heap st) as)) runs)"
  using assms
proof (induction runs arbitrary: st outs)
  case Nil
  then show ?case by auto
next
  case (Cons run runs)
  obtain l as where run: "run = (l, as)" by fastforce
  have r: "rep (the_heap st) l as" "2 \<le> length as" "length as < 2 ^ 32" "set as \<inter> set outs = {}"
    using Cons.prems(1) by (auto simp: run)
  obtain st1 new where st1: "agg_run l st = Some (Inr st1)" "good st1 (outs @ new)"
    "contents (the_heap st1) (outs @ new) = contents (the_heap st) outs @ summarise_run (contents (the_heap st) as)"
    "frame outs st st1" "\<forall>a \<in> set new. next_free st \<le> a"
    using agg_run_windows [OF r Cons.prems(2)] by blast
  have keep: "rep (the_heap st1) l' as' \<and> set as' \<inter> set (outs @ new) = {} \<and>
      contents (the_heap st1) as' = contents (the_heap st) as'"
    if "rep (the_heap st) l' as'" "set as' \<inter> set outs = {}" for l' as'
  proof -
    have b: "b < next_free st \<and> b \<notin> set outs" if "b \<in> set as'" for b
      using rep_alloc [OF \<open>rep (the_heap st) l' as'\<close> that] that \<open>set as' \<inter> set outs = {}\<close> Cons.prems(2)
      by (auto simp: good_def)
    then have e: "\<And>b. b \<in> set as' \<Longrightarrow> the_heap st1 b = the_heap st b"
      using st1(4) by (simp add: frame_def)
    have "rep (the_heap st1) l' as'" using rep_cong [of as' "the_heap st1" "the_heap st" l'] e that(1) by blast
    moreover have "contents (the_heap st1) as' = contents (the_heap st) as'" by (rule contents_cong) (rule e)
    moreover have "x \<notin> set new" if "x \<in> set as'" for x
      using b [OF that] st1(5) by (meson leD)
    then have "set as' \<inter> set (outs @ new) = {}" using that(2) by auto
    ultimately show ?thesis by blast
  qed
  have rest: "\<forall>(l, as) \<in> set runs. rep (the_heap st1) l as \<and> 2 \<le> length as \<and> length as < 2 ^ 32
      \<and> set as \<inter> set (outs @ new) = {}"
  proof clarify
    fix l' as' assume "(l', as') \<in> set runs"
    then have r: "rep (the_heap st) l' as'" "2 \<le> length as'" "length as' < 2 ^ 32" "set as' \<inter> set outs = {}"
      using Cons.prems(1) by auto
    show "rep (the_heap st1) l' as' \<and> 2 \<le> length as' \<and> length as' < 2 ^ 32 \<and> set as' \<inter> set (outs @ new) = {}"
      using keep [OF r(1,4)] r(2,3) by blast
  qed
  have same: "map (\<lambda>(l, as). summarise_run (contents (the_heap st1) as)) runs
      = map (\<lambda>(l, as). summarise_run (contents (the_heap st) as)) runs"
  proof (rule map_cong [OF refl], clarify)
    fix l' as' assume "(l', as') \<in> set runs"
    then have r: "rep (the_heap st) l' as'" "set as' \<inter> set outs = {}"
      using Cons.prems(1) by auto
    show "summarise_run (contents (the_heap st1) as') = summarise_run (contents (the_heap st) as')"
      using keep [OF r] by simp
  qed
  obtain st' outs' where "aggregate (map fst runs) st1 = Some (Inr st')" "good st' outs'"
    "contents (the_heap st') outs' = contents (the_heap st1) (outs @ new)
        @ concat (map (\<lambda>(l, as). summarise_run (contents (the_heap st1) as)) runs)"
    using Cons.IH [OF rest st1(2)] by blast
  then show ?case using st1(1,3) unfolding same by (intro exI [of _ st'] exI [of _ outs']) (simp add: run)
qed

text \<open>The state \<open>main\<close> prepares, on a heap that holds the runs.\<close>

definition start_state :: "heap \<Rightarrow> nat \<Rightarrow> agg_state" where
  "start_state h k = \<lparr>aggregated = zero_point, num_nodes = 0, init_time = FZero False,
     compute_RTTC = True, aggregated_datapoints = initList, the_heap = h, next_free = k\<rparr>"

lemma aggregate_correct:
  assumes "\<forall>(l, as) \<in> set runs. rep h l as \<and> 2 \<le> length as \<and> length as < 2 ^ 32"
    and "\<forall>a. h a \<noteq> None \<longrightarrow> a < k"
  shows "\<exists>st' outs. aggregate (map fst runs) (start_state h k) = Some (Inr st')
    \<and> rep (the_heap st') (aggregated_datapoints st') outs
    \<and> contents (the_heap st') outs = concat (map (\<lambda>(l, as). summarise_run (contents h as)) runs)"
proof -
  have "good (start_state h k) []"
    using assms(2) by (simp add: good_def start_state_def rep_init)
  moreover have "\<forall>(l, as) \<in> set runs. rep (the_heap (start_state h k)) l as \<and> 2 \<le> length as
      \<and> length as < 2 ^ 32 \<and> set as \<inter> set [] = {}"
    using assms(1) by (auto simp: start_state_def)
  ultimately obtain st' outs where "aggregate (map fst runs) (start_state h k) = Some (Inr st')" "good st' outs"
    "contents (the_heap st') outs = contents (the_heap (start_state h k)) []
        @ concat (map (\<lambda>(l, as). summarise_run (contents (the_heap (start_state h k)) as)) runs)"
    using aggregate_runs by meson
  then show ?thesis
    by (intro exI [of _ st'] exI [of _ outs]) (simp add: good_def start_state_def contents_def)
qed

text \<open>
  C5. Aggregation. On runs of at least two datapoints each, held in well-formed lists anywhere
  in the heap, \<open>aggregate\<close> terminates without a fault, and the list it builds is well-formed
  and holds, run after run, the summary of every window of the specification.
\<close>

theorem aggregate_refines:
  assumes "\<forall>(l, as) \<in> set runs. rep h l as \<and> 2 \<le> length as \<and> length as < 2 ^ 32"
    and "\<forall>a. h a \<noteq> None \<longrightarrow> a < k"
  shows "\<exists>st' outs. aggregate (map fst runs) (start_state h k) = Some (Inr st')
    \<and> rep (the_heap st') (aggregated_datapoints st') outs
    \<and> contents (the_heap st') outs = concat (map (\<lambda>(l, as). summarise_run (contents h as)) runs)"
  using assms by (rule aggregate_correct)

section \<open>Short runs\<close>

text \<open>
  A run without datapoints dereferences the null head; a run with one datapoint closes a
  window that has no points and divides an integer by zero. Both end the program.
\<close>

theorem short_run_faults:
  assumes "rep (the_heap st) l as" "length as < 2"
  shows "agg_run l st = Some (Inl (if as = [] then Null_Deref else Div_By_Zero))"
proof (cases as)
  case Nil
  then show ?thesis using rep_head [OF assms(1)] by (simp add: agg_run_def load_def)
next
  case (Cons a bs)
  then have as: "as = [a]" using assms(2) by simp
  obtain n where n: "head l = Some a" "tail l = Some a" "the_heap st a = Some n"
    using assms(1) by (auto simp: rep_def as)
  define st0 where "st0 = st\<lparr>num_nodes := 0, compute_RTTC := True, aggregated := zero_point, init_time := key n\<rparr>"
  have h: "the_heap st0 = the_heap st" by (simp add: st0_def)
  have "agg_node l (Some a) n st0 = Inl Div_By_Zero"
    using n by (simp add: agg_node_def Let_def close_window_def finish_window_def st0_def)
  then have "agg_loop l (Some a) st0 = Some (Inl Div_By_Zero)"
    using n h by (subst agg_loop.simps) (simp add: res_simps)
  then show ?thesis using n as by (simp add: agg_run_def res_simps st0_def)
qed

section \<open>What the windows are\<close>

lemma windows_concat:
  "ps \<noteq> [] \<Longrightarrow> concat (map fst (windows acc ps)) @ [last ps] = acc @ ps"
proof (induction acc ps rule: windows.induct)
  case (2 acc p ps)
  then show ?case by (cases "ps = []") auto
qed simp

lemma windows_close:
  "(w, q) \<in> set (windows acc ps) \<Longrightarrow> acc \<noteq> [] \<Longrightarrow>
   (\<forall>p \<in> set (tl acc). \<not> far (key p) (key (hd acc))) \<Longrightarrow>
   w \<noteq> [] \<and> (\<forall>p \<in> set (tl w). \<not> far (key p) (key (hd w))) \<and> (far (key q) (key (hd w)) \<or> q = last ps)"
proof (induction acc ps rule: windows.induct)
  case (2 acc p ps)
  show ?case
  proof (cases "far (key p) (key (hd acc)) \<or> ps = []")
    case True
    then show ?thesis using "2.IH"(1) [OF True] "2.prems" by (cases "ps = []") auto
  next
    case False
    then show ?thesis using "2.IH"(2) [OF False] "2.prems" by auto
  qed
qed simp

text \<open>
  The windows of a run cover it: joined in order they are the run without its last
  datapoint, so every datapoint but the last is in exactly one window and the last one in none;
  and each window is ended by the datapoint that the next one starts with.
\<close>

theorem windows_partition:
  assumes "2 \<le> length ps"
  shows "concat (map fst (windows [hd ps] (tl ps))) = butlast ps
    \<and> list_all (\<lambda>(w, q). w \<noteq> [] \<and> (far (key q) (key (hd w)) \<or> q = last ps)
        \<and> list_all (\<lambda>p. \<not> far (key p) (key (hd w))) w) (windows [hd ps] (tl ps))"
proof -
  obtain a b bs where ps: "ps = a # b # bs" using assms by (cases ps; cases "tl ps") auto
  have "concat (map fst (windows [a] (b # bs))) @ [last (b # bs)] = [a] @ b # bs"
    by (rule windows_concat) simp
  then have "butlast (concat (map fst (windows [a] (b # bs))) @ [last (b # bs)]) = butlast (a # b # bs)"
    by simp
  moreover have cl: "w \<noteq> [] \<and> (far (key q) (key (hd w)) \<or> q = last ps)
        \<and> list_all (\<lambda>p. \<not> far (key p) (key (hd w))) w"
    if "(w, q) \<in> set (windows [a] (b # bs))" for w q
    using windows_close [OF that] by (cases w) (auto simp: ps list_all_iff)
  have "list_all (\<lambda>(w, q). w \<noteq> [] \<and> (far (key q) (key (hd w)) \<or> q = last ps)
        \<and> list_all (\<lambda>p. \<not> far (key p) (key (hd w))) w) (windows [a] (b # bs))"
    unfolding list_all_iff [of _ "windows [a] (b # bs)"] using cl by blast
  ultimately show ?thesis by (simp only: ps list.sel butlast_snoc)
qed

section \<open>Averages\<close>

definition int_fields :: "point \<Rightarrow> c_int list" where
  "int_fields p = [n_th p, mem_used p, mem_free p, mem_shared p, mem_buffers p, mem_cached p,
     swap_used p, swap_free p]"

lemma fold_add_point:
  "int_fields (fold add_point acc agg) =
     map (\<lambda>j. int_fields agg ! j + (\<Sum>p \<leftarrow> acc. int_fields p ! j)) [0..<8]"
proof (induction acc arbitrary: agg)
  case Nil
  then show ?case by (simp add: int_fields_def upt_rec)
next
  case (Cons p acc)
  have "int_fields (add_point p agg) = map (\<lambda>j. int_fields agg ! j + int_fields p ! j) [0..<8]"
    by (simp add: int_fields_def add_point_def upt_rec)
  then show ?case by (simp add: Cons.IH add.assoc)
qed

lemma unat_sum_list:
  fixes ws :: "c_int list"
  shows "sum_list (map unat ws) < 2 ^ 32 \<Longrightarrow> unat (sum_list ws) = sum_list (map unat ws)"
proof (induction ws)
  case (Cons w ws)
  then show ?case by (simp add: unat_word_ariths)
qed simp

lemma int_fields_summarise:
  assumes "0 < length w" "length w < 2 ^ 32" "j < 8"
  shows "int_fields (summarise tk (w, q)) ! j = (\<Sum>p \<leftarrow> w. int_fields p ! j) div of_nat (length w)"
proof -
  have n: "(of_nat (length w) :: c_int) \<noteq> 0" using assms by (intro of_nat_length_neq_0) auto
  have "int_fields (start_window tk (hd w) zero_point) = replicate 8 0"
    by (simp add: int_fields_def start_window_def zero_point_def eval_nat_numeral)
  then have o: "int_fields (open_window tk w) = map (\<lambda>j. \<Sum>p \<leftarrow> w. int_fields p ! j) [0..<8]"
    by (simp add: open_window_def fold_add_point)
  have "int_fields (summarise tk (w, q)) = map (\<lambda>x. x div of_nat (length w)) (int_fields (open_window tk w))"
    using n by (simp add: summarise_def finish_window_def int_fields_def)
  then show ?thesis using assms(3) by (simp add: o)
qed

text \<open>
  C36. Each of the eight integer fields of a summary is the mean of its window, rounded down, as
  long as the sum of the window fits 32 bits unsigned. A sum above the largest \<open>int\<close> but below
  \<open>2 ^ 32\<close> is still right, because the division is unsigned.
\<close>

theorem averages_exact:
  assumes "w \<noteq> []" "length w < 2 ^ 32" "j < 8" "(\<Sum>p \<leftarrow> w. unat (int_fields p ! j)) < 2 ^ 32"
  shows "unat (int_fields (summarise tk (w, q)) ! j) = (\<Sum>p \<leftarrow> w. unat (int_fields p ! j)) div length w"
proof -
  have "unat (\<Sum>p \<leftarrow> w. int_fields p ! j) = (\<Sum>p \<leftarrow> w. unat (int_fields p ! j))"
    using unat_sum_list [of "map (\<lambda>p. int_fields p ! j) w"] assms(4) by (simp add: comp_def)
  moreover have "unat (of_nat (length w) :: c_int) = length w"
    using assms(2) by (simp add: unat_of_nat take_bit_nat_eq_self)
  ultimately show ?thesis
    using assms by (simp add: int_fields_summarise unat_div_distrib)
qed

section \<open>Examples\<close>

definition two_nodes :: heap where
  "two_nodes = [0 \<mapsto> node_of zero_point (Some 1), 1 \<mapsto> node_of zero_point None]"

lemma two_nodes_rep: "rep two_nodes \<lparr>head = Some 0, tail = Some 1\<rparr> [0, 1]"
  by (simp add: rep_def two_nodes_def)

lemma two_nodes_contents: "contents two_nodes [0, 1] = [zero_point, zero_point]"
  by (simp add: contents_def two_nodes_def)

theorem aggregate_refines_witness:
  "\<exists>st' outs. aggregate [\<lparr>head = Some 0, tail = Some 1\<rparr>] (start_state two_nodes 2) = Some (Inr st')
     \<and> contents (the_heap st') outs = [summarise (key zero_point) ([zero_point], zero_point)]"
proof -
  have "\<forall>a. two_nodes a \<noteq> None \<longrightarrow> a < 2" by (simp add: two_nodes_def)
  from aggregate_refines [OF _ this, of "[(\<lparr>head = Some 0, tail = Some 1\<rparr>, [0, 1])]"]
  show ?thesis
    by (auto simp: two_nodes_rep [simplified] two_nodes_contents [simplified] summarise_run_def)
qed

theorem short_run_faults_witness:
  "agg_run initList (start_state Map.empty 0) = Some (Inl Null_Deref)
   \<and> agg_run \<lparr>head = Some 0, tail = Some 0\<rparr> (start_state one_node 1) = Some (Inl Div_By_Zero)"
  using short_run_faults [of "start_state Map.empty 0" initList "[]"]
    short_run_faults [of "start_state one_node 1" "\<lparr>head = Some 0, tail = Some 0\<rparr>" "[0]"]
  by (simp add: start_state_def rep_init one_node_rep)

theorem windows_partition_witness:
  "concat (map fst (windows [zero_point] [zero_point, zero_point])) = [zero_point, zero_point]"
  using windows_partition [of "[zero_point, zero_point, zero_point]"] by simp

theorem averages_exact_witness:
  "unat (n_th (summarise (FZero False)
     ([zero_point\<lparr>n_th := 2000000000\<rparr>, zero_point\<lparr>n_th := 2000000001\<rparr>], zero_point))) = 2000000000"
  using averages_exact [of "[zero_point\<lparr>n_th := 2000000000\<rparr>, zero_point\<lparr>n_th := 2000000001\<rparr>]" 0 "FZero False" zero_point]
  by (simp add: int_fields_def flip: numeral_2_eq_2)

end
