(* ===== verification/C_Text.thy ===== *)
theory C_Text
  imports C_Float
begin

text \<open>
  The part of the C library that turns numbers into text and back, as the program uses it: the
  conversions \<open>%d\<close>, \<open>%f\<close> and \<open>%lf\<close> of \<open>printf\<close> and \<open>scanf\<close>, literal characters and white space in
  a format. Numbers are read in decimal notation with an optional fraction and exponent, and as
  \<open>inf\<close> or \<open>nan\<close>; hexadecimal floats are not modelled. The last section proves that what was
  printed with a format is read back with it.
\<close>

section \<open>Characters\<close>

definition digit_char :: "nat \<Rightarrow> char" where
  "digit_char d = char_of (48 + d)"

definition is_digit :: "char \<Rightarrow> bool" where
  "is_digit c \<longleftrightarrow> 48 \<le> (of_char c :: nat) \<and> (of_char c :: nat) \<le> 57"

definition digit_val :: "char \<Rightarrow> nat" where
  "digit_val c = of_char c - 48"

definition is_space :: "char \<Rightarrow> bool" where
  "is_space c \<longleftrightarrow> (of_char c :: nat) = 32 \<or> (9 \<le> (of_char c :: nat) \<and> (of_char c :: nat) \<le> 13)"

lemma digit_char [simp]:
  "d < 10 \<Longrightarrow> is_digit (digit_char d)" "d < 10 \<Longrightarrow> digit_val (digit_char d) = d"
  by (simp_all add: digit_char_def is_digit_def digit_val_def take_bit_nat_eq_self)

lemma digit_not_space: "is_digit c \<Longrightarrow> \<not> is_space c"
  by (auto simp: is_digit_def is_space_def)

section \<open>Printing\<close>

fun show_nat :: "nat \<Rightarrow> string" where
  "show_nat n = (if n < 10 then [digit_char n] else show_nat (n div 10) @ [digit_char (n mod 10)])"

declare show_nat.simps [simp del]

text \<open>\<open>%d\<close>\<close>

definition show_int :: "int \<Rightarrow> string" where
  "show_int i = (if i < 0 then CHR ''-'' # show_nat (nat (- i)) else show_nat (nat i))"

text \<open>\<open>%f\<close>: six digits after the point, the exact value rounded to them.\<close>

fun show_digits :: "nat \<Rightarrow> nat \<Rightarrow> string" where
  "show_digits 0 n = []"
| "show_digits (Suc k) n = show_digits k (n div 10) @ [digit_char (n mod 10)]"

definition show_micros :: "bool \<Rightarrow> nat \<Rightarrow> string" where
  "show_micros neg n = (if neg then ''-'' else '''') @ show_nat (n div 10 ^ 6) @ ''.'' @ show_digits 6 (n mod 10 ^ 6)"

definition micros :: "real \<Rightarrow> nat" where
  "micros r = nat (rne (\<bar>r\<bar> * 10 ^ 6))"

fun show_float :: "fl \<Rightarrow> string" where
  "show_float FNaN = ''nan''"
| "show_float (FInf neg) = (if neg then ''-inf'' else ''inf'')"
| "show_float (FZero neg) = show_micros neg 0"
| "show_float (Fin r) = show_micros (r < 0) (micros r)"

section \<open>Reading\<close>

definition skip_ws :: "string \<Rightarrow> string" where
  "skip_ws s = dropWhile is_space s"

definition digits_val :: "string \<Rightarrow> nat" where
  "digits_val s = fold (\<lambda>c n. 10 * n + digit_val c) s 0"

fun scan_sign :: "string \<Rightarrow> bool \<times> string" where
  "scan_sign [] = (False, [])"
| "scan_sign (c # s) = (if c = CHR ''-'' then (True, s) else if c = CHR ''+'' then (False, s) else (False, c # s))"

text \<open>\<open>%d\<close>: the value and the rest of the input, or no conversion.\<close>

definition scan_int :: "string \<Rightarrow> (int \<times> string) option" where
  "scan_int s0 =
     (let (neg, s) = scan_sign (skip_ws s0);
          ds = takeWhile is_digit s
      in if ds = [] then None
         else Some (if neg then - int (digits_val ds) else int (digits_val ds), dropWhile is_digit s))"

definition low :: "char \<Rightarrow> char" where
  "low c = (if 65 \<le> (of_char c :: nat) \<and> (of_char c :: nat) \<le> 90 then char_of (of_char c + 32 :: nat) else c)"

definition starts_with :: "string \<Rightarrow> string \<Rightarrow> bool" where
  "starts_with w s \<longleftrightarrow> map low (take (length w) s) = w"

text \<open>An exponent is taken only when at least one digit follows it.\<close>

definition scan_exponent :: "string \<Rightarrow> int \<times> string" where
  "scan_exponent s =
     (case s of
        [] \<Rightarrow> (0, [])
      | c # s1 \<Rightarrow>
          if low c = CHR ''e''
          then (let (neg, s2) = scan_sign s1; ds = takeWhile is_digit s2 in
                if ds = [] then (0, s)
                else (if neg then - int (digits_val ds) else int (digits_val ds), dropWhile is_digit s2))
          else (0, s))"

definition decimal :: "nat \<Rightarrow> int \<Rightarrow> real" where
  "decimal m e = (if 0 \<le> e then real m * 10 ^ nat e else real m / 10 ^ nat (- e))"

text \<open>The digits after a point, and the rest; no point, no digits.\<close>

definition scan_fraction :: "string \<Rightarrow> string \<times> string" where
  "scan_fraction s =
     (case s of
        [] \<Rightarrow> ([], [])
      | c # s1 \<Rightarrow> if c = CHR ''.'' then (takeWhile is_digit s1, dropWhile is_digit s1) else ([], s))"

definition scan_float :: "fmt \<Rightarrow> string \<Rightarrow> (fl \<times> string) option" where
  "scan_float F s0 =
     (let (neg, s) = scan_sign (skip_ws s0);
          whole = takeWhile is_digit s;
          (frac, s1) = scan_fraction (dropWhile is_digit s)
      in if whole = [] \<and> frac = []
         then if starts_with ''infinity'' s then Some (FInf neg, drop 8 s)
              else if starts_with ''inf'' s then Some (FInf neg, drop 3 s)
              else if starts_with ''nan'' s then Some (FNaN, drop 3 s)
              else None
         else
           (let (e, s2) = scan_exponent s1;
                v = decimal (digits_val (whole @ frac)) (e - int (length frac))
            in Some (pack F neg (rnd F (if neg then - v else v)), s2)))"

section \<open>Formats\<close>

datatype directive = Lit char | Space char | Conv_D | Conv_F fmt

datatype scanned = SInt int | SFloat fl

text \<open>
  \<open>sscanf\<close>: the values that were converted before the first failure. The end of the input before
  a conversion fails it as well.
\<close>

fun sscanf :: "directive list \<Rightarrow> string \<Rightarrow> scanned list" where
  "sscanf [] s = []"
| "sscanf (Lit c # fs) s = (case s of [] \<Rightarrow> [] | d # s' \<Rightarrow> if d = c then sscanf fs s' else [])"
| "sscanf (Space c # fs) s = sscanf fs (skip_ws s)"
| "sscanf (Conv_D # fs) s = (case scan_int s of None \<Rightarrow> [] | Some (i, s') \<Rightarrow> SInt i # sscanf fs s')"
| "sscanf (Conv_F F # fs) s = (case scan_float F s of None \<Rightarrow> [] | Some (x, s') \<Rightarrow> SFloat x # sscanf fs s')"

text \<open>\<open>sprintf\<close> with the values in the order of the conversions.\<close>

fun sprintf :: "directive list \<Rightarrow> scanned list \<Rightarrow> string" where
  "sprintf (Lit c # fs) vs = c # sprintf fs vs"
| "sprintf (Space c # fs) vs = c # sprintf fs vs"
| "sprintf (Conv_D # fs) (SInt i # vs) = show_int i @ sprintf fs vs"
| "sprintf (Conv_F F # fs) (SFloat x # vs) = show_float x @ sprintf fs vs"
| "sprintf _ _ = []"

text \<open>A format string: blanks and newlines match white space, other characters themselves.\<close>

definition text_fmt :: "string \<Rightarrow> directive list" where
  "text_fmt s = map (\<lambda>c. if is_space c then Space c else Lit c) s"

definition spaced :: "nat \<Rightarrow> directive \<Rightarrow> directive list" where
  "spaced n d = concat (replicate n [Space CHR '' '', d])"

text \<open>\<open>"Memory: %d %d %d %d %d %d\n"\<close> and so on; \<open>label\<close> is the word before the blanks.\<close>

definition line_fmt :: "string \<Rightarrow> nat \<Rightarrow> directive \<Rightarrow> directive list" where
  "line_fmt label n d = text_fmt label @ spaced n d"

definition newline :: directive where
  "newline = Space (char_of (10 :: nat))"

text \<open>The assignments of \<open>sscanf\<close> in order, as many as were converted.\<close>

definition assign :: "(scanned \<Rightarrow> 'a \<Rightarrow> 'a) list \<Rightarrow> scanned list \<Rightarrow> 'a \<Rightarrow> 'a" where
  "assign sets vs x = fold (\<lambda>(set, v). set v) (zip sets vs) x"

definition to_int :: "scanned \<Rightarrow> c_int" where
  "to_int v = (case v of SInt i \<Rightarrow> word_of_int i | SFloat x \<Rightarrow> 0)"

definition to_fl :: "scanned \<Rightarrow> fl" where
  "to_fl v = (case v of SInt i \<Rightarrow> FNaN | SFloat x \<Rightarrow> x)"

section \<open>Digits\<close>

lemma digits_val_append: "digits_val (s @ t) = digits_val s * 10 ^ length t + digits_val t"
proof -
  have "fold (\<lambda>c n. 10 * n + digit_val c) t a = a * 10 ^ length t + digits_val t" for a
  proof (induction t arbitrary: a)
    case Nil
    then show ?case by (simp add: digits_val_def)
  next
    case (Cons c t)
    have "digits_val (c # t) = digit_val c * 10 ^ length t + digits_val t"
      using Cons.IH [of "digit_val c"] by (simp add: digits_val_def [of "c # t"])
    moreover have "fold (\<lambda>c n. 10 * n + digit_val c) (c # t) a
        = (10 * a + digit_val c) * 10 ^ length t + digits_val t"
      using Cons.IH [of "10 * a + digit_val c"] by simp
    ultimately show ?case by (simp add: algebra_simps)
  qed
  note f = this
  have "digits_val (s @ t) = fold (\<lambda>c n. 10 * n + digit_val c) t (digits_val s)"
    by (simp add: digits_val_def)
  also note f
  finally show ?thesis .
qed

lemma digits_val_single: "digits_val [c] = digit_val c"
  by (simp add: digits_val_def)

lemma show_nat_props: "show_nat n \<noteq> [] \<and> list_all is_digit (show_nat n) \<and> digits_val (show_nat n) = n"
proof (induction n rule: show_nat.induct)
  case (1 n)
  show ?case
  proof (cases "n < 10")
    case True
    then have "show_nat n = [digit_char n]" by (simp add: show_nat.simps)
    then show ?thesis using True by (simp add: digits_val_single)
  next
    case False
    then have "show_nat n = show_nat (n div 10) @ [digit_char (n mod 10)]"
      by (subst show_nat.simps) simp
    then show ?thesis using 1 False by (simp add: digits_val_append digits_val_single)
  qed
qed

lemma show_digits_props:
  "length (show_digits k n) = k \<and> list_all is_digit (show_digits k n)
   \<and> digits_val (show_digits k n) = n mod 10 ^ k"
proof (induction k n rule: show_digits.induct)
  case (2 k n)
  have "10 * (n div 10 mod 10 ^ k) + n mod 10 = n mod 10 ^ Suc k"
    by (simp add: mod_mult2_eq)
  with 2 show ?case by (simp add: digits_val_append digits_val_single)
qed (simp add: digits_val_def)

text \<open>Text after a number: the end, or a blank.\<close>

definition sep :: "string \<Rightarrow> bool" where
  "sep s \<longleftrightarrow> s = [] \<or> is_space (hd s)"

lemma sep_not_digit: "sep s \<Longrightarrow> takeWhile is_digit s = [] \<and> dropWhile is_digit s = s"
  using digit_not_space by (cases s) (auto simp: sep_def)

lemma take_digits:
  "list_all is_digit ds \<Longrightarrow> takeWhile is_digit (ds @ s) = ds @ takeWhile is_digit s"
  "list_all is_digit ds \<Longrightarrow> dropWhile is_digit (ds @ s) = dropWhile is_digit s"
  by (simp_all add: list_all_iff takeWhile_append2 dropWhile_append2)

lemma special_chars [simp]:
  "\<not> is_digit CHR ''-''" "\<not> is_digit CHR ''+''" "\<not> is_digit CHR ''.''"
  "\<not> is_space CHR ''-''" "\<not> is_space CHR ''i''" "\<not> is_space CHR ''n''"
  by (simp_all add: is_digit_def is_space_def)

lemma skip_ws_Cons: "\<not> is_space c \<Longrightarrow> skip_ws (c # s) = c # s"
  by (simp add: skip_ws_def)

lemma skip_ws_idem [simp]: "skip_ws (skip_ws s) = skip_ws s"
  by (simp add: skip_ws_def dropWhile_idem)

text \<open>A number with or without a minus sign is found behind the sign.\<close>

lemma scan_sign_digits:
  assumes "ds \<noteq> []" "list_all is_digit ds"
  shows "scan_sign (skip_ws ((if neg then ''-'' else '''') @ ds @ s)) = (neg, ds @ s)"
proof -
  obtain d es where ds: "ds = d # es" "is_digit d" using assms by (cases ds) auto
  then have "d \<noteq> CHR ''-''" "d \<noteq> CHR ''+''" by auto
  then show ?thesis using digit_not_space [OF ds(2)] by (simp add: ds(1) skip_ws_Cons)
qed

lemma scan_show_int:
  assumes "sep s"
  shows "scan_int (show_int i @ s) = Some (i, s)"
proof -
  define ds where "ds = show_nat (nat \<bar>i\<bar>)"
  have p: "ds \<noteq> []" "list_all is_digit ds" "int (digits_val ds) = \<bar>i\<bar>"
    using show_nat_props [of "nat \<bar>i\<bar>"] by (simp_all add: ds_def)
  have "show_int i @ s = (if i < 0 then ''-'' else '''') @ ds @ s"
    by (simp add: show_int_def ds_def)
  then have "scan_sign (skip_ws (show_int i @ s)) = (i < 0, ds @ s)"
    using scan_sign_digits [OF p(1,2)] by simp
  then show ?thesis
    using p sep_not_digit [OF assms] by (simp add: scan_int_def take_digits Let_def)
qed

lemma scan_exponent_sep: "sep s \<Longrightarrow> scan_exponent s = (0, s)"
proof (cases s)
  case (Cons c s1)
  assume "sep s"
  then have "is_space c" by (simp add: sep_def Cons)
  then have "low c \<noteq> CHR ''e''" by (auto simp: low_def is_space_def)
  then show ?thesis by (simp add: scan_exponent_def Cons)
qed (simp add: scan_exponent_def)

text \<open>The number of millionths that is printed is read back, and rounded to the format.\<close>

definition signed_micros :: "bool \<Rightarrow> nat \<Rightarrow> real" where
  "signed_micros neg n = (if neg then - (real n / 10 ^ 6) else real n / 10 ^ 6)"

lemma scan_show_micros:
  assumes "sep s"
  shows "scan_float F (show_micros neg n @ s) = Some (pack F neg (rnd F (signed_micros neg n)), s)"
proof -
  define w where "w = show_nat (n div 10 ^ 6)"
  define f where "f = show_digits 6 (n mod 10 ^ 6)"
  have w: "w \<noteq> []" "list_all is_digit w" "digits_val w = n div 10 ^ 6"
    using show_nat_props [of "n div 10 ^ 6"] by (simp_all add: w_def)
  have f: "length f = 6" "list_all is_digit f" "digits_val f = n mod 10 ^ 6"
    using show_digits_props [of 6 "n mod 10 ^ 6"] by (simp_all add: f_def)
  have "show_micros neg n @ s = (if neg then ''-'' else '''') @ w @ (CHR ''.'' # f @ s)"
    by (simp add: show_micros_def w_def f_def)
  then have sg: "scan_sign (skip_ws (show_micros neg n @ s)) = (neg, w @ CHR ''.'' # f @ s)"
    using scan_sign_digits [OF w(1,2)] by simp
  have d: "takeWhile is_digit (w @ CHR ''.'' # f @ s) = w"
    "dropWhile is_digit (w @ CHR ''.'' # f @ s) = CHR ''.'' # f @ s"
    using w(2) by (simp_all add: take_digits)
  have fr: "scan_fraction (CHR ''.'' # f @ s) = (f, s)"
    using f(2) sep_not_digit [OF assms] by (simp add: scan_fraction_def take_digits)
  have "digits_val (w @ f) = n"
    using w(3) f by (simp add: digits_val_append)
  define v where "v = real n / 10 ^ 6"
  have "decimal (digits_val (w @ f)) (- int (length f)) = v"
    using \<open>digits_val (w @ f) = n\<close> f(1) by (simp add: decimal_def v_def)
  moreover have "signed_micros neg n = (if neg then - v else v)"
    by (simp add: signed_micros_def v_def)
  ultimately show ?thesis
    using w(1) scan_exponent_sep [OF assms]
    by (simp add: scan_float_def sg d fr Let_def)
qed

text \<open>What is left of a float after printing and reading it.\<close>

fun reread :: "fmt \<Rightarrow> fl \<Rightarrow> fl" where
  "reread F FNaN = FNaN"
| "reread F (FInf neg) = FInf neg"
| "reread F (FZero neg) = FZero neg"
| "reread F (Fin r) = pack F (r < 0) (rnd F (signed_micros (r < 0) (micros r)))"

lemma starts_with_sep:
  assumes "sep s" "w \<noteq> []" "\<not> is_space (hd w)" "length v < length w"
  shows "\<not> starts_with (v @ w) (v @ s)"
proof
  assume "starts_with (v @ w) (v @ s)"
  then have "map low (take (length w) s) = w"
    by (auto simp: starts_with_def)
  then obtain c s' where s: "s = c # s'" and hd: "low c = hd w"
    using assms(2) by (cases s; cases w) auto
  have "is_space c" using assms(1) s by (simp add: sep_def)
  then have "low c = c" by (auto simp: low_def is_space_def)
  then show False using assms(3) hd \<open>is_space c\<close> by simp
qed

lemma low_letters [simp]:
  "low CHR ''i'' = CHR ''i''" "low CHR ''n'' = CHR ''n''" "low CHR ''f'' = CHR ''f''" "low CHR ''a'' = CHR ''a''"
  by (simp_all add: low_def)

lemma letters_not_digits [simp]: "\<not> is_digit CHR ''i''" "\<not> is_digit CHR ''n''"
  by (simp_all add: is_digit_def)

lemma scan_show_float:
  assumes "sep s"
  shows "scan_float F (show_float x @ s) = Some (reread F x, s)"
proof (cases x)
  case FNaN
  then show ?thesis
    by (simp add: scan_float_def skip_ws_Cons scan_fraction_def starts_with_def)
next
  case (FInf neg)
  have "\<not> starts_with (''inf'' @ ''inity'') (''inf'' @ s)"
    using assms by (intro starts_with_sep) simp_all
  then have no: "\<not> starts_with ''infinity'' (CHR ''i'' # CHR ''n'' # CHR ''f'' # s)" by simp
  have yes: "starts_with ''inf'' (CHR ''i'' # CHR ''n'' # CHR ''f'' # s)" by (simp add: starts_with_def)
  have "scan_sign (skip_ws (show_float x @ s)) = (neg, CHR ''i'' # CHR ''n'' # CHR ''f'' # s)"
    by (simp add: FInf skip_ws_Cons)
  then show ?thesis
    by (simp add: scan_float_def scan_fraction_def no yes FInf)
next
  case (FZero neg)
  have "pack F neg (rnd F (signed_micros neg 0)) = FZero neg"
    by (simp add: signed_micros_def pack_def rnd_def rnd_at_def)
  then show ?thesis using scan_show_micros [OF assms, of F neg 0] by (simp add: FZero)
next
  case (Fin r)
  then show ?thesis using scan_show_micros [OF assms] by simp
qed

section \<open>Formats are read back\<close>

text \<open>
  A format is well separated when every conversion is followed by white space or by the end, and
  literal characters are not white space.
\<close>

fun separated :: "directive list \<Rightarrow> bool" where
  "separated [] = True"
| "separated (Lit c # fs) = (\<not> is_space c \<and> separated fs)"
| "separated (Space c # fs) = (is_space c \<and> separated fs)"
| "separated (_ # fs) = ((case fs of [] \<Rightarrow> True | Space c # _ \<Rightarrow> True | _ \<Rightarrow> False) \<and> separated fs)"

text \<open>Values that fit the conversions of a format.\<close>

fun fits :: "directive list \<Rightarrow> scanned list \<Rightarrow> bool" where
  "fits [] vs = (vs = [])"
| "fits (Lit c # fs) vs = fits fs vs"
| "fits (Space c # fs) vs = fits fs vs"
| "fits (Conv_D # fs) (SInt i # vs) = fits fs vs"
| "fits (Conv_F F # fs) (SFloat x # vs) = fits fs vs"
| "fits (_ # fs) _ = False"

fun reread_all :: "directive list \<Rightarrow> scanned list \<Rightarrow> scanned list" where
  "reread_all [] vs = []"
| "reread_all (Lit c # fs) vs = reread_all fs vs"
| "reread_all (Space c # fs) vs = reread_all fs vs"
| "reread_all (Conv_D # fs) (SInt i # vs) = SInt i # reread_all fs vs"
| "reread_all (Conv_F F # fs) (SFloat x # vs) = SFloat (reread F x) # reread_all fs vs"
| "reread_all (_ # fs) _ = []"

lemma sep_sprintf:
  "separated fs \<Longrightarrow> (case fs of [] \<Rightarrow> True | Space c # _ \<Rightarrow> True | _ \<Rightarrow> False) \<Longrightarrow> sep (sprintf fs vs)"
  by (cases fs) (auto simp: sep_def split: directive.splits)

lemma sscanf_skip:
  "separated fs \<Longrightarrow> fits fs vs \<Longrightarrow> sscanf fs (skip_ws (sprintf fs vs)) = sscanf fs (sprintf fs vs)"
  by (cases fs; cases "hd fs") (auto simp: skip_ws_Cons scan_int_def scan_float_def)

lemma sscanf_sprintf:
  "separated fs \<Longrightarrow> fits fs vs \<Longrightarrow> sscanf fs (sprintf fs vs) = reread_all fs vs"
proof (induction fs vs rule: fits.induct)
  case (3 c fs vs)
  then have "is_space c" by simp
  then have "skip_ws (c # sprintf fs vs) = skip_ws (sprintf fs vs)" by (simp add: skip_ws_def)
  then show ?case using 3 by (simp add: sscanf_skip)
next
  case (4 fs i vs)
  have "sep (sprintf fs vs)" using 4 by (intro sep_sprintf) auto
  then show ?case using 4 by (simp add: scan_show_int)
next
  case (5 F fs x vs)
  have "sep (sprintf fs vs)" using 5 by (intro sep_sprintf) auto
  then show ?case using 5 by (simp add: scan_show_float)
qed simp_all

section \<open>Blanks\<close>

lemma skip_blank: "is_space c \<Longrightarrow> skip_ws (c # s) = skip_ws s"
  by (simp add: skip_ws_def)

lemma blanks [simp]: "is_space CHR '' ''" "is_space (char_of (10 :: nat))" "sep (CHR '' '' # s)"
  by (simp_all add: is_space_def sep_def)

lemma scan_int_skip: "scan_int (skip_ws s) = scan_int s"
  by (simp add: scan_int_def)

lemma scan_int_blank: "is_space c \<Longrightarrow> scan_int (c # s) = scan_int s"
  by (simp add: scan_int_def skip_blank)

lemma spaced_fmts:
  "spaced 1 d = [Space CHR '' '', d]"
  "spaced 3 d = [Space CHR '' '', d, Space CHR '' '', d, Space CHR '' '', d]"
  "spaced 6 d = spaced 3 d @ spaced 3 d"
  by (simp_all add: spaced_def eval_nat_numeral)

end
