(* ===== verification/Db_File.thy ===== *)
theory Db_File
  imports Aggregate C_Text
begin

text \<open>
  The reader of the datapoint database, the writer of the aggregated file and \<open>main\<close> of
  \<open>model_build/aggregate.c\<close>. The database is the text of the file; every \<open>malloc\<close> succeeds and
  gives a fresh address. A line is what \<open>fgets\<close> puts in the buffer, and a C string ends at the
  first zero.
\<close>

definition MAX_LINE_LENGTH :: nat where
  "MAX_LINE_LENGTH = 1024"

abbreviation NL :: char where
  "NL \<equiv> char_of (10 :: nat)"

section \<open>Lines and tokens\<close>

definition fgets :: "nat \<Rightarrow> string \<Rightarrow> (string \<times> string) option" where
  "fgets n s =
     (if s = [] then None
      else (let p = take (n - 1) s; l = takeWhile (\<lambda>c. c \<noteq> NL) p in
            if length l < length p then Some (l @ [NL], drop (Suc (length l)) s)
            else Some (p, drop (length p) s)))"

definition c_string :: "string \<Rightarrow> string" where
  "c_string s = takeWhile (\<lambda>c. c \<noteq> char_of (0 :: nat)) s"

text \<open>\<open>strtok(s, ":")\<close>: the token and what is left for the next call.\<close>

definition strtok :: "string \<Rightarrow> (string \<times> string) option" where
  "strtok s =
     (let t = dropWhile (\<lambda>c. c = CHR '':'') s in
      if t = [] then None
      else Some (takeWhile (\<lambda>c. c \<noteq> CHR '':'') t, drop 1 (dropWhile (\<lambda>c. c \<noteq> CHR '':'') t)))"

section \<open>The reader\<close>

record db_state =
  input_datapoints :: "c_list list"
  curr_list :: "nat option"
  a_new_point :: node
  db_heap :: heap
  db_next :: nat

definition NEW_RUN :: string where
  "NEW_RUN = ''------------NEW ACTIVE MACHINE:----------'' @ [NL]"

text \<open>\<open>"%lf %d\n"\<close>, \<open>"%d %d %d %d %d %d\n"\<close>, \<open>"%d %d %d\n"\<close>, \<open>"%lf %lf %lf %lf %lf %lf\n"\<close>.\<close>

definition datapoint_fmt :: "directive list" where
  "datapoint_fmt = [Conv_F binary64, Space CHR '' '', Conv_D, newline]"

definition memory_fmt :: "directive list" where
  "memory_fmt = Conv_D # spaced 5 Conv_D @ [newline]"

definition swap_fmt :: "directive list" where
  "swap_fmt = Conv_D # spaced 2 Conv_D @ [newline]"

definition cpu_fmt :: "directive list" where
  "cpu_fmt = Conv_F binary64 # spaced 5 (Conv_F binary64) @ [newline]"

text \<open>
  Where the conversions are stored. The total amounts go to the place of the used ones, which the
  second conversion overwrites.
\<close>

definition datapoint_sets :: "(scanned \<Rightarrow> node \<Rightarrow> node) list" where
  "datapoint_sets = [\<lambda>v p. p\<lparr>key := to_fl v\<rparr>, \<lambda>v p. p\<lparr>n_th := to_int v\<rparr>]"

definition memory_sets :: "(scanned \<Rightarrow> node \<Rightarrow> node) list" where
  "memory_sets =
     [\<lambda>v p. p\<lparr>mem_used := to_int v\<rparr>, \<lambda>v p. p\<lparr>mem_used := to_int v\<rparr>, \<lambda>v p. p\<lparr>mem_free := to_int v\<rparr>,
      \<lambda>v p. p\<lparr>mem_shared := to_int v\<rparr>, \<lambda>v p. p\<lparr>mem_buffers := to_int v\<rparr>, \<lambda>v p. p\<lparr>mem_cached := to_int v\<rparr>]"

definition swap_sets :: "(scanned \<Rightarrow> node \<Rightarrow> node) list" where
  "swap_sets =
     [\<lambda>v p. p\<lparr>swap_used := to_int v\<rparr>, \<lambda>v p. p\<lparr>swap_used := to_int v\<rparr>, \<lambda>v p. p\<lparr>swap_free := to_int v\<rparr>]"

definition cpu_sets :: "(scanned \<Rightarrow> node \<Rightarrow> node) list" where
  "cpu_sets =
     [\<lambda>v p. p\<lparr>cpu_user := to_fl v\<rparr>, \<lambda>v p. p\<lparr>cpu_nice := to_fl v\<rparr>, \<lambda>v p. p\<lparr>cpu_system := to_fl v\<rparr>,
      \<lambda>v p. p\<lparr>cpu_iowait := to_fl v\<rparr>, \<lambda>v p. p\<lparr>cpu_steal := to_fl v\<rparr>, \<lambda>v p. p\<lparr>cpu_idle := to_fl v\<rparr>]"

text \<open>\<open>sscanf(strtok(NULL, ":"), format, ...)\<close>; without a second token \<open>sscanf\<close> reads \<open>NULL\<close>.\<close>

definition scan_rest :: "directive list \<Rightarrow> (scanned \<Rightarrow> node \<Rightarrow> node) list \<Rightarrow> string \<Rightarrow> db_state \<Rightarrow> db_state res" where
  "scan_rest fmt sets rest st =
     (case strtok rest of
        None \<Rightarrow> Inl Null_Deref
      | Some (s, _) \<Rightarrow> Inr (st\<lparr>a_new_point := assign sets (sscanf fmt s) (a_new_point st)\<rparr>))"

definition new_run :: "db_state \<Rightarrow> db_state res" where
  "new_run st =
     (if MAX_RUNS \<le> length (input_datapoints st) then Inl Out_Of_Bounds
      else Inr (st\<lparr>input_datapoints := input_datapoints st @ [initList],
        curr_list := Some (length (input_datapoints st))\<rparr>))"

text \<open>
  The completed point is copied, \<open>next\<close> included, into a new node at the rear of the current run,
  and cleared.
\<close>

definition add_datapoint :: "db_state \<Rightarrow> db_state res" where
  "add_datapoint st =
     (case curr_list st of
        None \<Rightarrow> Inl Assert_Failed
      | Some i \<Rightarrow>
          (let a = db_next st; h = (db_heap st)(a \<mapsto> a_new_point st) in
           rbind (insertRear (Some a) (input_datapoints st ! i, h)) (\<lambda>(l, h').
             Inr (st\<lparr>input_datapoints := (input_datapoints st)[i := l], db_heap := h', db_next := Suc a,
               a_new_point := node_of zero_point None\<rparr>))))"

definition read_line :: "string \<Rightarrow> db_state \<Rightarrow> db_state res" where
  "read_line line st =
     (if line = NEW_RUN then new_run st
      else
        (case strtok line of
           None \<Rightarrow> Inl Null_Deref
         | Some (token, rest) \<Rightarrow>
             if token = ''Datapoint'' then scan_rest datapoint_fmt datapoint_sets rest st
             else if token = ''Memory'' then scan_rest memory_fmt memory_sets rest st
             else if token = ''Swap'' then scan_rest swap_fmt swap_sets rest st
             else if token = ''CPU'' then rbind (scan_rest cpu_fmt cpu_sets rest st) add_datapoint
             else Inl Exit_Failure))"

text \<open>The state \<open>read_db_file\<close> starts in; \<open>junk\<close> is what the stack holds at \<open>a_new_point\<close>.\<close>

definition start_db :: "node \<Rightarrow> db_state" where
  "start_db junk = \<lparr>input_datapoints = [], curr_list = None, a_new_point = junk,
     db_heap = Map.empty, db_next = 0\<rparr>"

lemma fgets_shorter: "fgets n s = Some (l, s') \<Longrightarrow> 1 < n \<Longrightarrow> length s' < length s"
  by (cases s) (auto simp: fgets_def Let_def split: if_splits)

function read_db_file :: "string \<Rightarrow> db_state \<Rightarrow> db_state res" where
  "read_db_file s st =
     (case fgets MAX_LINE_LENGTH s of
        None \<Rightarrow> Inr st
      | Some (line, s') \<Rightarrow> rbind (read_line (c_string line) st) (read_db_file s'))"
  by pat_completeness auto
termination
  by (relation "measure (length \<circ> fst)") (auto dest: fgets_shorter simp: MAX_LINE_LENGTH_def)

declare read_db_file.simps [simp del]

section \<open>The writer\<close>

definition csv_header :: string where
  "csv_header = ''RTTC, GenTime, n_th_slope, mem_used_slope, mem_free_slope, mem_shared_slope, '' @
     ''mem_buffers_slope, mem_cached_slope, swap_used_slope, swap_free_slope, cpu_user_slope, '' @
     ''cpu_nice_slope, cpu_system_slope, cpu_iowait_slope, cpu_steal_slope, cpu_idle_slope, n_th, '' @
     ''mem_used, mem_free, mem_shared, mem_buffers, mem_cached, swap_used, swap_free, cpu_user, '' @
     ''cpu_nice, cpu_system, cpu_iowait, cpu_steal, cpu_idle'' @ [NL]"

definition comma :: "directive list" where
  "comma = [Lit CHR '','', Space CHR '' '']"

fun separated_by :: "'a list \<Rightarrow> 'a list list \<Rightarrow> 'a list" where
  "separated_by c [] = []"
| "separated_by c [x] = x"
| "separated_by c (x # xs) = x @ c @ separated_by c xs"

definition row_fmt :: "directive list" where
  "row_fmt = separated_by comma
     (replicate 16 [Conv_F binary64] @ replicate 8 [Conv_D] @ replicate 6 [Conv_F binary64]) @ [newline]"

definition row_values :: "point \<Rightarrow> scanned list" where
  "row_values p =
     map SFloat [key p, generation_time p, n_th_slope p, mem_used_slope p, mem_free_slope p,
       mem_shared_slope p, mem_buffers_slope p, mem_cached_slope p, swap_used_slope p, swap_free_slope p,
       cpu_user_slope p, cpu_nice_slope p, cpu_system_slope p, cpu_iowait_slope p, cpu_steal_slope p,
       cpu_idle_slope p]
     @ map (\<lambda>w. SInt (sint w)) [n_th p, mem_used p, mem_free p, mem_shared p, mem_buffers p, mem_cached p,
       swap_used p, swap_free p]
     @ map SFloat [cpu_user p, cpu_nice p, cpu_system p, cpu_iowait p, cpu_steal p, cpu_idle p]"

definition row :: "point \<Rightarrow> string" where
  "row p = sprintf row_fmt (row_values p)"

partial_function (option) write_rows :: "heap \<Rightarrow> list_link \<Rightarrow> string \<Rightarrow> string res option" where
  "write_rows h p out =
     (if p = None then Some (Inr out)
      else (case load h p of
              Inl e \<Rightarrow> Some (Inl e)
            | Inr n \<Rightarrow> write_rows h (next_node n) (out @ row (point.truncate n))))"

definition write_aggregated_file :: "c_list \<Rightarrow> heap \<Rightarrow> string res option" where
  "write_aggregated_file l h = write_rows h (head l) csv_header"

section \<open>The program\<close>

text \<open>The files: \<open>None\<close> when \<open>fopen\<close> fails. The result is the name and the text of the output.\<close>

definition main_aggregate ::
  "node \<Rightarrow> string list \<Rightarrow> (string \<Rightarrow> string option) \<Rightarrow> (string \<Rightarrow> bool) \<Rightarrow> (string \<times> string) res option"
where
  "main_aggregate junk argv input writable =
     (if length argv < 2 then Some (Inl Exit_Failure)
      else
        (let out = (if length argv = 3 then argv ! 2 else ''aggregated.csv'') in
         case input (argv ! 1) of
           None \<Rightarrow> Some (Inl Exit_Failure)
         | Some file \<Rightarrow>
             if \<not> writable out then Some (Inl Exit_Failure)
             else
               (case read_db_file file (start_db junk) of
                  Inl e \<Rightarrow> Some (Inl e)
                | Inr st \<Rightarrow>
                    (case aggregate (input_datapoints st) (start_state (db_heap st) (db_next st)) of
                       None \<Rightarrow> None
                     | Some (Inl e) \<Rightarrow> Some (Inl e)
                     | Some (Inr ag) \<Rightarrow>
                         map_option (\<lambda>r. rbind r (\<lambda>t. Inr (out, t)))
                           (write_aggregated_file (aggregated_datapoints ag) (the_heap ag))))))"

section \<open>The characters of a line\<close>

definition number_char :: "char \<Rightarrow> bool" where
  "number_char c \<longleftrightarrow> is_digit c \<or> c \<in> set ''-.infa''"

lemma show_nat_chars: "list_all number_char (show_nat n)"
  using show_nat_props [of n] by (auto simp: list_all_iff number_char_def)

lemma show_int_chars: "list_all number_char (show_int i)"
  by (simp add: show_int_def show_nat_chars number_char_def)

lemma show_micros_chars: "list_all number_char (show_micros neg n)"
proof -
  have "list_all number_char (show_digits 6 (n mod 10 ^ 6))"
    using show_digits_props [of 6 "n mod 10 ^ 6"] by (auto simp: list_all_iff number_char_def)
  then show ?thesis by (simp add: show_micros_def show_nat_chars number_char_def)
qed

lemma show_float_chars: "list_all number_char (show_float x)"
  by (cases x) (simp_all add: show_micros_chars, simp_all add: number_char_def)

definition fmt_char :: "directive list \<Rightarrow> char \<Rightarrow> bool" where
  "fmt_char F c \<longleftrightarrow> Lit c \<in> set F \<or> Space c \<in> set F"

lemma sprintf_chars: "c \<in> set (sprintf F vs) \<Longrightarrow> number_char c \<or> fmt_char F c"
proof (induction F vs rule: sprintf.induct)
  case (3 F i vs)
  then show ?case using show_int_chars [of i] by (auto simp: list_all_iff fmt_char_def)
next
  case (4 G F x vs)
  then show ?case using show_float_chars [of x] by (auto simp: list_all_iff fmt_char_def)
qed (auto simp: fmt_char_def)

lemma not_number_chars [simp]:
  "\<not> number_char NL" "\<not> number_char (char_of (0 :: nat))" "\<not> number_char CHR '':''"
  by code_simp+

lemma fgets_line:
  assumes "NL \<notin> set l" "length l + 2 \<le> n"
  shows "fgets n (l @ NL # s) = Some (l @ [NL], s)"
proof -
  have t: "take (n - 1) (l @ NL # s) = l @ NL # take (n - 2 - length l) s"
    using assms(2) by (simp add: take_Cons' Suc_diff_le numeral_2_eq_2)
  have w: "takeWhile (\<lambda>c. c \<noteq> NL) (l @ NL # take (n - 2 - length l) s) = l"
    using assms(1) by (subst takeWhile_append2) auto
  show ?thesis unfolding fgets_def t Let_def w by simp
qed

lemma c_string_id: "char_of (0 :: nat) \<notin> set s \<Longrightarrow> c_string s = s"
  by (simp add: c_string_def takeWhile_eq_all_conv) metis

lemma read_db_file_line:
  assumes "NL \<notin> set l" "char_of (0 :: nat) \<notin> set l" "length l + 2 \<le> MAX_LINE_LENGTH"
  shows "read_db_file (l @ NL # s) st = rbind (read_line (l @ [NL]) st) (read_db_file s)"
proof -
  have "c_string (l @ [NL]) = l @ [NL]" using assms(2) by (intro c_string_id) simp
  then show ?thesis using fgets_line [OF assms(1,3), of s] by (subst read_db_file.simps) simp
qed

lemma strtok_token:
  assumes "CHR '':'' \<notin> set t" "t \<noteq> []"
  shows "strtok (t @ CHR '':'' # s) = Some (t, s)" "strtok t = Some (t, [])"
proof -
  obtain c u where t: "t = c # u" "c \<noteq> CHR '':''" using assms by (cases t) auto
  have lead: "dropWhile (\<lambda>c. c = CHR '':'') (t @ r) = t @ r" "t @ r \<noteq> []" for r using t by simp_all
  have w: "takeWhile (\<lambda>c. c \<noteq> CHR '':'') (t @ CHR '':'' # s) = t"
    "dropWhile (\<lambda>c. c \<noteq> CHR '':'') (t @ CHR '':'' # s) = CHR '':'' # s"
    using assms(1) by (induction t) auto
  have w': "takeWhile (\<lambda>c. c \<noteq> CHR '':'') t = t" "dropWhile (\<lambda>c. c \<noteq> CHR '':'') t = []"
    using assms(1) by (induction t) auto
  show "strtok (t @ CHR '':'' # s) = Some (t, s)" "strtok t = Some (t, [])"
    unfolding strtok_def Let_def lead lead [of "[]", unfolded append_Nil2] w w' using assms(2) by simp_all
qed

section \<open>Datapoints as text\<close>

text \<open>A line of the database: the label, a colon, a blank and the values.\<close>

definition db_line :: "string \<Rightarrow> directive list \<Rightarrow> scanned list \<Rightarrow> string" where
  "db_line label F vs = label @ '': '' @ sprintf F vs"

lemma sprintf_append: "fits F vs \<Longrightarrow> sprintf (F @ G) (vs @ ws) = sprintf F vs @ sprintf G ws"
  by (induction F vs rule: fits.induct) simp_all

lemma fits_append: "fits F vs \<Longrightarrow> fits (F @ [newline]) vs"
  by (induction F vs rule: fits.induct) (simp_all add: newline_def)

lemma reread_all_append: "fits F vs \<Longrightarrow> reread_all (F @ [newline]) vs = reread_all F vs"
  by (induction F vs rule: fits.induct) (simp_all add: newline_def)

lemma sprintf_line: "fits F vs \<Longrightarrow> sprintf (F @ [newline]) vs = sprintf F vs @ [NL]"
  using sprintf_append [of F vs "[newline]" "[]"] by (simp add: newline_def)

lemma scan_line:
  assumes "separated (F @ [newline])" "fits F vs" "\<And>s. sscanf (F @ [newline]) (CHR '' '' # s) = sscanf (F @ [newline]) s"
  shows "sscanf (F @ [newline]) (CHR '' '' # sprintf F vs @ [NL]) = reread_all F vs"
  using sscanf_sprintf [OF assms(1) fits_append [OF assms(2)]] assms(2,3)
  by (simp add: sprintf_line reread_all_append)

text \<open>Only blanks stand between the values of a line.\<close>

lemma blank_line_chars:
  assumes "\<And>c. fmt_char F c \<Longrightarrow> c = CHR '' ''"
  shows "NL \<notin> set (sprintf F vs) \<and> char_of (0 :: nat) \<notin> set (sprintf F vs) \<and> CHR '':'' \<notin> set (sprintf F vs)"
proof -
  have "CHR '' '' \<noteq> NL" "CHR '' '' \<noteq> (char_of (0 :: nat) :: char)" by code_simp+
  then show ?thesis using sprintf_chars [of _ F vs] assms by force
qed


text \<open>A measurement: the total memory, the total swap, and the fields the reader keeps.\<close>

type_synonym measurement = "int \<times> int \<times> point"

definition int_values :: "c_int list \<Rightarrow> scanned list" where
  "int_values ws = map (\<lambda>w. SInt (sint w)) ws"

definition db_lines :: "measurement \<Rightarrow> string list" where
  "db_lines m = (case m of (mt, sw, p) \<Rightarrow>
     [db_line ''Datapoint'' datapoint_fmt [SFloat (key p), SInt (sint (n_th p))],
      db_line ''Memory'' memory_fmt (SInt mt #
        int_values [mem_used p, mem_free p, mem_shared p, mem_buffers p, mem_cached p]),
      db_line ''Swap'' swap_fmt (SInt sw # int_values [swap_used p, swap_free p]),
      db_line ''CPU'' cpu_fmt (map SFloat
        [cpu_user p, cpu_nice p, cpu_system p, cpu_iowait p, cpu_steal p, cpu_idle p])])"

definition db_text :: "measurement list list \<Rightarrow> string" where
  "db_text rs = concat (map (\<lambda>ms. NEW_RUN @ concat (map (\<lambda>m. concat (db_lines m)) ms)) rs)"

definition short_lines :: "measurement \<Rightarrow> bool" where
  "short_lines m \<longleftrightarrow> list_all (\<lambda>l. length l < MAX_LINE_LENGTH) (db_lines m)"

text \<open>What the reader makes of a measurement, in a point that held other fields before.\<close>

definition store :: "measurement \<Rightarrow> 'a point_scheme \<Rightarrow> 'a point_scheme" where
  "store m n = (case m of (mt, sw, p) \<Rightarrow> n\<lparr>key := reread binary64 (key p), n_th := n_th p,
     mem_used := mem_used p, mem_free := mem_free p, mem_shared := mem_shared p,
     mem_buffers := mem_buffers p, mem_cached := mem_cached p,
     swap_used := swap_used p, swap_free := swap_free p,
     cpu_user := reread binary64 (cpu_user p), cpu_nice := reread binary64 (cpu_nice p),
     cpu_system := reread binary64 (cpu_system p), cpu_iowait := reread binary64 (cpu_iowait p),
     cpu_steal := reread binary64 (cpu_steal p), cpu_idle := reread binary64 (cpu_idle p)\<rparr>)"

lemma scan_float_blank: "is_space c \<Longrightarrow> scan_float F (c # s) = scan_float F s"
  by (simp add: scan_float_def skip_blank)

lemma fmts:
  "datapoint_fmt = [Conv_F binary64, Space CHR '' '', Conv_D] @ [newline]"
  "memory_fmt = (Conv_D # spaced 5 Conv_D) @ [newline]"
  "swap_fmt = (Conv_D # spaced 2 Conv_D) @ [newline]"
  "cpu_fmt = (Conv_F binary64 # spaced 5 (Conv_F binary64)) @ [newline]"
  by (simp_all add: datapoint_fmt_def memory_fmt_def swap_fmt_def cpu_fmt_def)

lemma spaced_simps:
  "spaced 2 d = [Space CHR '' '', d, Space CHR '' '', d]"
  "spaced 5 d = [Space CHR '' '', d, Space CHR '' '', d, Space CHR '' '', d, Space CHR '' '', d, Space CHR '' '', d]"
  by (simp_all add: spaced_def eval_nat_numeral)

definition value_fmt :: "directive list \<Rightarrow> bool" where
  "value_fmt F \<longleftrightarrow> separated (F @ [newline]) \<and> (\<forall>c. fmt_char F c \<longrightarrow> c = CHR '' '')
     \<and> (\<forall>s. sscanf (F @ [newline]) (CHR '' '' # s) = sscanf (F @ [newline]) s)"

lemma value_fmts:
  "value_fmt [Conv_F binary64, Space CHR '' '', Conv_D]"
  "value_fmt (Conv_D # spaced 5 Conv_D)" "value_fmt (Conv_D # spaced 2 Conv_D)"
  "value_fmt (Conv_F binary64 # spaced 5 (Conv_F binary64))"
  by (auto simp: value_fmt_def fmt_char_def spaced_simps newline_def scan_int_blank scan_float_blank)

lemma scan_rest_values:
  assumes "value_fmt F" "fits F vs"
  shows "scan_rest (F @ [newline]) sets ('' '' @ sprintf (F @ [newline]) vs) st
    = Inr (st\<lparr>a_new_point := assign sets (reread_all F vs) (a_new_point st)\<rparr>)"
proof -
  have chars: "CHR '':'' \<notin> set (sprintf F vs)"
    using blank_line_chars [of F vs] assms(1) by (simp add: value_fmt_def)
  have "CHR '':'' \<noteq> NL" by code_simp
  then have "CHR '':'' \<notin> set ('' '' @ sprintf F vs @ [NL])" using chars by simp
  from strtok_token(2) [OF this]
  have "strtok (CHR '' '' # sprintf F vs @ [NL]) = Some (CHR '' '' # sprintf F vs @ [NL], [])" by simp
  moreover have "sscanf (F @ [newline]) (CHR '' '' # sprintf F vs @ [NL]) = reread_all F vs"
    using assms by (intro scan_line) (simp_all add: value_fmt_def)
  ultimately show ?thesis using assms(2) by (simp add: scan_rest_def sprintf_line)
qed

lemma read_db_file_values:
  assumes "value_fmt F" "fits F vs" "length (db_line label (F @ [newline]) vs) < MAX_LINE_LENGTH"
    and "list_all (\<lambda>c. c \<noteq> NL \<and> c \<noteq> char_of (0 :: nat)) label"
  shows "read_db_file (db_line label (F @ [newline]) vs @ s) st
    = rbind (read_line (label @ '':'' @ '' '' @ sprintf (F @ [newline]) vs) st) (read_db_file s)"
proof -
  have fmt: "NL \<notin> set (sprintf F vs)" "char_of (0 :: nat) \<notin> set (sprintf F vs)"
    using blank_line_chars [of F vs] assms(1) by (simp_all add: value_fmt_def)
  have "CHR '' '' \<noteq> NL \<and> CHR '':'' \<noteq> NL \<and> CHR '' '' \<noteq> (char_of (0 :: nat) :: char) \<and> CHR '':'' \<noteq> (char_of (0 :: nat) :: char)"
    by code_simp
  then have "NL \<notin> set (label @ '': '' @ sprintf F vs)" "char_of (0 :: nat) \<notin> set (label @ '': '' @ sprintf F vs)"
    using fmt assms(4) by (auto simp: list_all_iff)
  from read_db_file_line [OF this, of s st]
  show ?thesis using assms(2,3) by (simp add: db_line_def sprintf_line)
qed

lemma read_line_label:
  assumes "CHR '':'' \<notin> set label" "label \<noteq> []" "hd label \<noteq> CHR ''-''"
  shows "read_line (label @ '':'' @ r) st =
     (if label = ''Datapoint'' then scan_rest datapoint_fmt datapoint_sets r st
      else if label = ''Memory'' then scan_rest memory_fmt memory_sets r st
      else if label = ''Swap'' then scan_rest swap_fmt swap_sets r st
      else if label = ''CPU'' then rbind (scan_rest cpu_fmt cpu_sets r st) add_datapoint
      else Inl Exit_Failure)"
proof -
  have "label @ '':'' @ r \<noteq> NEW_RUN" using assms(2,3) by (cases label) (auto simp: NEW_RUN_def)
  then show ?thesis using strtok_token(1) [OF assms(1,2), of r] by (simp add: read_line_def)
qed

lemma labels:
  "list_all (\<lambda>c. c \<noteq> NL \<and> c \<noteq> char_of (0 :: nat)) ''Datapoint''"
  "list_all (\<lambda>c. c \<noteq> NL \<and> c \<noteq> char_of (0 :: nat)) ''Memory''"
  "list_all (\<lambda>c. c \<noteq> NL \<and> c \<noteq> char_of (0 :: nat)) ''Swap''"
  "list_all (\<lambda>c. c \<noteq> NL \<and> c \<noteq> char_of (0 :: nat)) ''CPU''"
  by code_simp+

lemma read_label_line:
  assumes "value_fmt F" "fits F vs" "length (db_line label (F @ [newline]) vs) < MAX_LINE_LENGTH"
    and "list_all (\<lambda>c. c \<noteq> NL \<and> c \<noteq> char_of (0 :: nat)) label"
    and "\<And>r. read_line (label @ '':'' @ r) st = rbind (scan_rest (F @ [newline]) sets r st) k"
  shows "read_db_file (db_line label (F @ [newline]) vs @ s) st
    = rbind (k (st\<lparr>a_new_point := assign sets (reread_all F vs) (a_new_point st)\<rparr>)) (read_db_file s)"
  unfolding read_db_file_values [OF assms(1-4)] assms(5) scan_rest_values [OF assms(1,2)] by simp

lemma rbind_Inr [res_simps]: "rbind r Inr = r"
  by (cases r) simp_all

lemma read_line_labels:
  "read_line (''Datapoint'' @ '':'' @ r) st
     = rbind (scan_rest ([Conv_F binary64, Space CHR '' '', Conv_D] @ [newline]) datapoint_sets r st) Inr"
  "read_line (''Memory'' @ '':'' @ r) st = rbind (scan_rest ((Conv_D # spaced 5 Conv_D) @ [newline]) memory_sets r st) Inr"
  "read_line (''Swap'' @ '':'' @ r) st = rbind (scan_rest ((Conv_D # spaced 2 Conv_D) @ [newline]) swap_sets r st) Inr"
  "read_line (''CPU'' @ '':'' @ r) st
     = rbind (scan_rest ((Conv_F binary64 # spaced 5 (Conv_F binary64)) @ [newline]) cpu_sets r st) add_datapoint"
  by (subst read_line_label; simp add: fmts res_simps)+

lemma read_datapoint_line:
  assumes "length (db_line ''Datapoint'' datapoint_fmt [SFloat x, SInt i]) < MAX_LINE_LENGTH"
  shows "read_db_file (db_line ''Datapoint'' datapoint_fmt [SFloat x, SInt i] @ s) st
     = read_db_file s (st\<lparr>a_new_point := (a_new_point st)\<lparr>key := reread binary64 x, n_th := word_of_int i\<rparr>\<rparr>)"
proof -
  let ?F = "[Conv_F binary64, Space CHR '' '', Conv_D]"
  have "fits ?F [SFloat x, SInt i]" by simp
  from read_label_line [OF value_fmts(1) this assms [unfolded fmts] labels(1) read_line_labels(1)]
  show ?thesis unfolding fmts by (simp add: assign_def datapoint_sets_def to_fl_def to_int_def)
qed

lemma read_memory_line:
  assumes "length (db_line ''Memory'' memory_fmt (SInt mt # int_values [a, b, c, d, e])) < MAX_LINE_LENGTH"
  shows "read_db_file (db_line ''Memory'' memory_fmt (SInt mt # int_values [a, b, c, d, e]) @ s) st
     = read_db_file s (st\<lparr>a_new_point := (a_new_point st)\<lparr>mem_used := a, mem_free := b, mem_shared := c,
         mem_buffers := d, mem_cached := e\<rparr>\<rparr>)"
proof -
  let ?F = "Conv_D # spaced 5 Conv_D"
  have "fits ?F (SInt mt # int_values [a, b, c, d, e])" by (simp add: spaced_simps int_values_def)
  from read_label_line [OF value_fmts(2) this assms [unfolded fmts] labels(2) read_line_labels(2)]
  show ?thesis unfolding fmts
    by (simp add: assign_def memory_sets_def to_int_def int_values_def spaced_simps)
qed

lemma read_swap_line:
  assumes "length (db_line ''Swap'' swap_fmt (SInt sw # int_values [a, b])) < MAX_LINE_LENGTH"
  shows "read_db_file (db_line ''Swap'' swap_fmt (SInt sw # int_values [a, b]) @ s) st
     = read_db_file s (st\<lparr>a_new_point := (a_new_point st)\<lparr>swap_used := a, swap_free := b\<rparr>\<rparr>)"
proof -
  let ?F = "Conv_D # spaced 2 Conv_D"
  have "fits ?F (SInt sw # int_values [a, b])" by (simp add: spaced_simps int_values_def)
  from read_label_line [OF value_fmts(3) this assms [unfolded fmts] labels(3) read_line_labels(3)]
  show ?thesis unfolding fmts
    by (simp add: assign_def swap_sets_def to_int_def int_values_def spaced_simps)
qed

lemma read_cpu_line:
  assumes "length (db_line ''CPU'' cpu_fmt (map SFloat [a, b, c, d, e, f])) < MAX_LINE_LENGTH"
  shows "read_db_file (db_line ''CPU'' cpu_fmt (map SFloat [a, b, c, d, e, f]) @ s) st
     = rbind (add_datapoint (st\<lparr>a_new_point := (a_new_point st)\<lparr>cpu_user := reread binary64 a,
         cpu_nice := reread binary64 b, cpu_system := reread binary64 c, cpu_iowait := reread binary64 d,
         cpu_steal := reread binary64 e, cpu_idle := reread binary64 f\<rparr>\<rparr>)) (read_db_file s)"
proof -
  let ?F = "Conv_F binary64 # spaced 5 (Conv_F binary64)"
  have "fits ?F (map SFloat [a, b, c, d, e, f])" by (simp add: spaced_simps)
  from read_label_line [OF value_fmts(4) this assms [unfolded fmts] labels(4) read_line_labels(4)]
  show ?thesis unfolding fmts by (simp add: assign_def cpu_sets_def to_fl_def spaced_simps)
qed

lemma read_measurement:
  assumes "short_lines m"
  shows "read_db_file (concat (db_lines m) @ s) st
    = rbind (add_datapoint (st\<lparr>a_new_point := store m (a_new_point st)\<rparr>)) (read_db_file s)"
proof -
  obtain mt sw p where m: "m = (mt, sw, p)" using prod_cases3 by blast
  show ?thesis using assms
    by (simp only: m short_lines_def db_lines_def prod.case list.pred_inject concat.simps append_Nil2
        append_assoc read_datapoint_line read_memory_line read_swap_line read_cpu_line)
      (simp add: store_def)
qed

section \<open>The lists the reader builds\<close>

text \<open>The runs read so far are \<open>pss\<close>, in well-formed lists that share no node.\<close>

definition holds :: "db_state \<Rightarrow> nat list list \<Rightarrow> point list list \<Rightarrow> bool" where
  "holds st ass pss \<longleftrightarrow> length ass = length pss \<and> length (input_datapoints st) = length pss \<and>
     (\<forall>i < length pss. rep (db_heap st) (input_datapoints st ! i) (ass ! i) \<and>
        contents (db_heap st) (ass ! i) = pss ! i) \<and>
     (\<forall>i < length pss. \<forall>j < length pss. i \<noteq> j \<longrightarrow> set (ass ! i) \<inter> set (ass ! j) = {}) \<and>
     (\<forall>a. db_heap st a \<noteq> None \<longrightarrow> a < db_next st)"

lemma holdsD:
  assumes "holds st ass pss"
  shows "length ass = length pss" "length (input_datapoints st) = length pss"
    "i < length pss \<Longrightarrow> rep (db_heap st) (input_datapoints st ! i) (ass ! i)"
    "i < length pss \<Longrightarrow> contents (db_heap st) (ass ! i) = pss ! i"
    "i < length pss \<Longrightarrow> j < length pss \<Longrightarrow> i \<noteq> j \<Longrightarrow> set (ass ! i) \<inter> set (ass ! j) = {}"
    "db_heap st a \<noteq> None \<Longrightarrow> a < db_next st"
  using assms by (simp_all add: holds_def)

lemma holds_new_run:
  assumes "holds st ass pss" "length pss < MAX_RUNS"
  shows "\<exists>st'. new_run st = Inr st' \<and> holds st' (ass @ [[]]) (pss @ [[]])
    \<and> curr_list st' = Some (length pss) \<and> a_new_point st' = a_new_point st"
proof -
  note h = holdsD [OF assms(1)]
  let ?st = "st\<lparr>input_datapoints := input_datapoints st @ [initList],
        curr_list := Some (length (input_datapoints st))\<rparr>"
  have "holds ?st (ass @ [[]]) (pss @ [[]])"
    unfolding holds_def using h by (auto simp: nth_append rep_init contents_def less_Suc_eq)
  moreover have "new_run st = Inr ?st" using assms(2) h(2) by (simp add: new_run_def)
  ultimately show ?thesis using h(2) by (intro exI [of _ ?st]) simp
qed

lemma holds_add:
  assumes "holds st ass pss" "curr_list st = Some i" "i < length pss" "next_node (a_new_point st) = None"
  shows "\<exists>st' ass'. add_datapoint st = Inr st'
    \<and> holds st' ass' (pss[i := pss ! i @ [point.truncate (a_new_point st)]])
    \<and> curr_list st' = Some i \<and> a_new_point st' = node_of zero_point None"
proof -
  note h = holdsD [OF assms(1)]
  let ?a = "db_next st" and ?h = "(db_heap st)(db_next st \<mapsto> a_new_point st)"
  have fresh: "b \<noteq> ?a" if "j < length pss" "b \<in> set (ass ! j)" for j b
    using rep_alloc [OF h(3) [OF that(1)] that(2)] h(6) by blast
  then have notin: "?a \<notin> set (ass ! j)" if "j < length pss" for j using that by blast
  obtain l h' where i: "insertRear (Some ?a) (input_datapoints st ! i, ?h) = Inr (l, h')"
    and r': "rep h' l (ass ! i @ [?a])"
    and c: "contents h' (ass ! i @ [?a]) = contents (db_heap st) (ass ! i) @ [point.truncate (a_new_point st)]"
    and fr: "\<And>b. b \<notin> set (ass ! i) \<Longrightarrow> h' b = ?h b"
    using rear.insert_new [OF h(3) [OF assms(3)] notin [OF assms(3)] assms(4)] by blast
  let ?st = "st\<lparr>input_datapoints := (input_datapoints st)[i := l], db_heap := h', db_next := Suc ?a,
    a_new_point := node_of zero_point None\<rparr>"
  let ?ass = "ass[i := ass ! i @ [?a]]" and ?pss = "pss[i := pss ! i @ [point.truncate (a_new_point st)]]"
  have keep: "h' b = db_heap st b" if "j < length pss" "j \<noteq> i" "b \<in> set (ass ! j)" for j b
  proof -
    have "b \<notin> set (ass ! i)" using h(5) [OF that(1) assms(3) that(2)] that(3) by blast
    then show ?thesis using fr fresh [OF that(1,3)] by simp
  qed
  have "rep h' (input_datapoints ?st ! j) (?ass ! j) \<and> contents h' (?ass ! j) = ?pss ! j"
    if "j < length pss" for j
  proof (cases "j = i")
    case True
    then show ?thesis using r' c h(1,2) h(4) [OF assms(3)] notin [OF assms(3)] assms(3) by simp
  next
    case False
    have "rep h' (input_datapoints st ! j) (ass ! j)"
      using rep_cong [of "ass ! j" h' "db_heap st"] keep [OF that False] h(3) [OF that] by blast
    moreover have "contents h' (ass ! j) = pss ! j"
      using contents_cong [of "ass ! j" h' "db_heap st"] keep [OF that False] h(4) [OF that] by simp
    ultimately show ?thesis using False by simp
  qed
  moreover have "set (?ass ! j) \<inter> set (?ass ! k) = {}"
    if "j < length pss" "k < length pss" "j \<noteq> k" for j k
    using that h(5) [OF that] notin [OF that(1)] notin [OF that(2)] h(1) assms(3) by (auto simp: nth_list_update)
  moreover have "b < Suc ?a" if "h' b \<noteq> None" for b
  proof (cases "b \<in> set (ass ! i)")
    case True
    then have "db_heap st b \<noteq> None" using rep_alloc [OF h(3) [OF assms(3)]] by blast
    then show ?thesis using h(6) less_SucI by blast
  next
    case False
    then have "b = ?a \<or> db_heap st b \<noteq> None" using that fr by (auto split: if_splits)
    then show ?thesis using h(6) less_SucI by blast
  qed
  ultimately have "holds ?st ?ass ?pss" using h(1,2) unfolding holds_def by simp
  moreover have "add_datapoint st = Inr ?st" using assms(2) i by (simp add: add_datapoint_def Let_def)
  ultimately show ?thesis using assms(2) by (intro exI [of _ ?st] exI [of _ ?ass]) simp
qed

section \<open>Reading a database\<close>

abbreviation zero_node :: node where
  "zero_node \<equiv> node_of zero_point None"

abbreviation record_text :: "measurement \<Rightarrow> string" where
  "record_text m \<equiv> concat (db_lines m)"

lemma store_node [simp]:
  "next_node (store m n) = next_node n" "point.truncate (store m n) = store m (point.truncate n)"
  by (cases n; simp add: store_def point.truncate_def split: prod.split)+

lemma truncate_zero_node [simp]: "point.truncate zero_node = zero_point" "next_node zero_node = None"
  by simp_all

lemma read_new_run: "read_db_file (NEW_RUN @ s) st = rbind (new_run st) (read_db_file s)"
proof -
  let ?l = "''------------NEW ACTIVE MACHINE:----------''"
  have "NL \<notin> set ?l" "char_of (0 :: nat) \<notin> set ?l" "length ?l + 2 \<le> MAX_LINE_LENGTH" by code_simp+
  from read_db_file_line [OF this, of s st] show ?thesis by (simp add: NEW_RUN_def read_line_def)
qed

lemma read_points:
  assumes "holds st ass (pss @ [cur])" "curr_list st = Some (length pss)" "a_new_point st = zero_node"
    and "\<forall>m \<in> set ms. short_lines m"
  shows "\<exists>st' ass'. (\<forall>s. read_db_file (concat (map record_text ms) @ s) st = read_db_file s st')
    \<and> holds st' ass' (pss @ [cur @ map (\<lambda>m. store m zero_point) ms]) \<and> a_new_point st' = zero_node"
  using assms
proof (induction ms arbitrary: st ass cur)
  case Nil
  then show ?case by auto
next
  case (Cons m ms)
  let ?st = "st\<lparr>a_new_point := store m (a_new_point st)\<rparr>"
  have h: "holds ?st ass (pss @ [cur])" using Cons.prems(1) by (simp add: holds_def)
  obtain st1 ass1 where s1: "add_datapoint ?st = Inr st1"
    "holds st1 ass1 (pss @ [cur @ [store m zero_point]])"
    "curr_list st1 = Some (length pss)" "a_new_point st1 = zero_node"
    using holds_add [OF h, of "length pss"] Cons.prems(2,3) by auto
  have r: "read_db_file (concat (map record_text (m # ms)) @ s) st
      = read_db_file (concat (map record_text ms) @ s) st1" for s
    using read_measurement [of m _ st] s1(1) Cons.prems(4) by simp
  obtain st' ass' where "\<forall>s. read_db_file (concat (map record_text ms) @ s) st1 = read_db_file s st'"
    "holds st' ass' (pss @ [(cur @ [store m zero_point]) @ map (\<lambda>m. store m zero_point) ms])"
    "a_new_point st' = zero_node"
    using Cons.IH [OF s1(2,3,4)] Cons.prems(4) by auto
  then show ?case using r by (intro exI [of _ st'] exI [of _ ass']) simp
qed

lemma read_runs:
  assumes "holds st ass pss" "a_new_point st = zero_node" "length pss + length rs \<le> MAX_RUNS"
    and "\<forall>ms \<in> set rs. \<forall>m \<in> set ms. short_lines m"
  shows "\<exists>st' ass'. read_db_file (db_text rs) st = Inr st'
    \<and> holds st' ass' (pss @ map (map (\<lambda>m. store m zero_point)) rs)"
  using assms
proof (induction rs arbitrary: st ass pss)
  case Nil
  then show ?case by (subst read_db_file.simps) (auto simp: db_text_def fgets_def)
next
  case (Cons ms rs)
  obtain st1 where s1: "new_run st = Inr st1" "holds st1 (ass @ [[]]) (pss @ [[]])"
    "curr_list st1 = Some (length pss)" "a_new_point st1 = zero_node"
    using holds_new_run [OF Cons.prems(1)] Cons.prems(2,3) by auto
  obtain st2 ass2 where s2: "\<forall>s. read_db_file (concat (map record_text ms) @ s) st1 = read_db_file s st2"
    "holds st2 ass2 (pss @ [map (\<lambda>m. store m zero_point) ms])" "a_new_point st2 = zero_node"
    using read_points [OF s1(2,3,4), of ms] Cons.prems(4) by auto
  have "read_db_file (db_text (ms # rs)) st = read_db_file (db_text rs) st2"
    using s1(1) s2(1) by (simp add: db_text_def read_new_run)
  moreover obtain st' ass' where "read_db_file (db_text rs) st2 = Inr st'"
    "holds st' ass' ((pss @ [map (\<lambda>m. store m zero_point) ms]) @ map (map (\<lambda>m. store m zero_point)) rs)"
    using Cons.IH [OF s2(2,3)] Cons.prems(3,4) by auto
  ultimately show ?case by (intro exI [of _ st'] exI [of _ ass']) simp
qed

text \<open>
  The link of the first node is whatever the stack held; the insertion of the second datapoint
  of the run overwrites it.
\<close>

lemma junk_link:
  assumes "short_lines m1" "short_lines m2"
  shows "read_db_file (NEW_RUN @ record_text m1 @ record_text m2 @ s) (start_db junk)
    = read_db_file (NEW_RUN @ record_text m1 @ record_text m2 @ s) (start_db (junk\<lparr>next_node := None\<rparr>))"
proof -
  have u: "(store m1 (junk\<lparr>next_node := None\<rparr>))\<lparr>next_node := Some 1\<rparr> = (store m1 junk)\<lparr>next_node := Some 1\<rparr>"
    by (cases junk) (simp add: store_def split: prod.split)
  show ?thesis
    by (simp add: read_new_run read_measurement assms new_run_def start_db_def MAX_RUNS_def add_datapoint_def
        insertRear_def initList_def res_simps Let_def u [simplified])
qed


definition stored :: "node \<Rightarrow> measurement list list \<Rightarrow> point list list" where
  "stored junk rs =
     (case rs of
        [] \<Rightarrow> []
      | ms # rs' \<Rightarrow>
          (case ms of [] \<Rightarrow> [] | m # ms' \<Rightarrow> store m (point.truncate junk) # map (\<lambda>m. store m zero_point) ms')
          # map (map (\<lambda>m. store m zero_point)) rs')"

lemma stored_lengths: "map length (stored junk rs) = map length rs"
  by (auto simp: stored_def split: list.split)

lemma read_db_first:
  assumes "next_node junk = None" "length (ms # rs) \<le> MAX_RUNS" "ms \<noteq> []"
    and "\<forall>ms \<in> set (ms # rs). \<forall>m \<in> set ms. short_lines m"
  shows "\<exists>st ass. read_db_file (db_text (ms # rs)) (start_db junk) = Inr st \<and> holds st ass (stored junk (ms # rs))"
proof -
  obtain m ms' where ms: "ms = m # ms'" using assms(3) by (cases ms) auto
  have "holds (start_db junk) [] []" by (simp add: holds_def start_db_def)
  moreover have "length [] < MAX_RUNS" by (simp add: MAX_RUNS_def)
  ultimately obtain st1 where s1: "new_run (start_db junk) = Inr st1" "holds st1 [[]] [[]]"
    "curr_list st1 = Some 0" "a_new_point st1 = junk"
    using holds_new_run [of "start_db junk" "[]" "[]"] by (auto simp: start_db_def)
  let ?st = "st1\<lparr>a_new_point := store m (a_new_point st1)\<rparr>"
  have "holds ?st [[]] [[]]" using s1(2) by (simp add: holds_def)
  from holds_add [OF this, of 0]
  obtain st2 ass2 where s2: "add_datapoint ?st = Inr st2" "holds st2 ass2 [[store m (point.truncate junk)]]"
    "curr_list st2 = Some 0" "a_new_point st2 = zero_node"
    using s1(3,4) assms(1) by auto
  obtain st3 ass3 where s3: "\<forall>s. read_db_file (concat (map record_text ms') @ s) st2 = read_db_file s st3"
    "holds st3 ass3 [store m (point.truncate junk) # map (\<lambda>m. store m zero_point) ms']"
    "a_new_point st3 = zero_node"
    using read_points [of st2 ass2 "[]" "[store m (point.truncate junk)]" ms'] s2(2,3,4) assms(4) ms by auto
  have "read_db_file (db_text (ms # rs)) (start_db junk) = read_db_file (db_text rs) st3"
    using s1(1) s2(1) s3(1) assms(4) ms by (simp add: db_text_def read_new_run read_measurement)
  moreover obtain st' ass' where "read_db_file (db_text rs) st3 = Inr st'"
    "holds st' ass' (stored junk (ms # rs))"
    using read_runs [OF s3(2,3), of rs] assms(2,4) by (auto simp: stored_def ms)
  ultimately show ?thesis by auto
qed

lemma read_db_correct:
  assumes "length rs \<le> MAX_RUNS"
    and "\<forall>ms \<in> set rs. 2 \<le> length ms \<and> (\<forall>m \<in> set ms. short_lines m)"
  shows "\<exists>st ass. read_db_file (db_text rs) (start_db junk) = Inr st \<and> holds st ass (stored junk rs)"
proof (cases rs)
  case Nil
  have "holds (start_db junk) [] []" by (simp add: holds_def start_db_def)
  then show ?thesis
    by (subst read_db_file.simps) (auto simp: Nil db_text_def fgets_def stored_def)
next
  case (Cons ms rs')
  let ?j = "junk\<lparr>next_node := None\<rparr>"
  obtain m1 m2 ms' where ms: "ms = m1 # m2 # ms'"
    using assms(2) by (cases ms; cases "tl ms") (auto simp: Cons)
  have "read_db_file (db_text rs) (start_db junk) = read_db_file (db_text rs) (start_db ?j)"
    using junk_link [of m1 m2 "concat (map record_text ms') @ db_text rs'" junk] assms(2)
    by (simp add: Cons ms db_text_def)
  moreover have "stored ?j rs = stored junk rs" by (simp add: stored_def Cons ms)
  moreover have "\<exists>st ass. read_db_file (db_text rs) (start_db ?j) = Inr st \<and> holds st ass (stored ?j rs)"
    unfolding Cons by (rule read_db_first) (use assms in \<open>auto simp: Cons ms\<close>)
  ultimately show ?thesis by simp
qed

text \<open>
  C24. The reader inverts the writer of the database: from the text of up to 1024 runs of at
  least two measurements, whose lines fit the buffer, \<open>read_db_file\<close> builds for every run a
  well-formed list with its datapoints in order, every integer as written and every floating
  point number as the nearest \<open>double\<close> to what was written. The fields the file does not hold are
  zero, except in the very first datapoint, where they are what the stack held.
\<close>

theorem db_roundtrip:
  assumes "length rs \<le> MAX_RUNS"
    and "\<forall>ms \<in> set rs. 2 \<le> length ms \<and> (\<forall>m \<in> set ms. short_lines m)"
  shows "\<exists>st ass. read_db_file (db_text rs) (start_db junk) = Inr st \<and> holds st ass (stored junk rs)"
  using assms by (rule read_db_correct)

section \<open>The whole program\<close>

lemma write_rows_seg:
  "seg h p as None \<Longrightarrow> write_rows h p out = Some (Inr (out @ concat (map row (contents h as))))"
proof (induction as arbitrary: p out)
  case Nil
  then show ?case by (subst write_rows.simps) (simp add: contents_def)
next
  case (Cons a as)
  then obtain n where n: "p = Some a" "h a = Some n" "seg h (next_node n) as None" by auto
  have "write_rows h p out = write_rows h (next_node n) (out @ row (point.truncate n))"
    using n by (subst write_rows.simps) (simp add: res_simps)
  then show ?case using Cons.IH [OF n(3)] n(2) by (simp add: contents_def)
qed

text \<open>
  C29. The program from file to file: on such a database it terminates without a fault, and the
  output is the header and one row for the summary of each window of each run, in order.
\<close>

theorem main_aggregate_correct:
  assumes "input inp = Some (db_text rs)" "writable out" "length rs \<le> MAX_RUNS"
    and "\<forall>ms \<in> set rs. 2 \<le> length ms \<and> length ms < 2 ^ 32 \<and> (\<forall>m \<in> set ms. short_lines m)"
  shows "main_aggregate junk [prog, inp, out] input writable
    = Some (Inr (out, csv_header @ concat (map row (concat (map summarise_run (stored junk rs))))))"
proof -
  have "\<forall>ms \<in> set rs. 2 \<le> length ms \<and> (\<forall>m \<in> set ms. short_lines m)" using assms(4) by blast
  then obtain st ass where st: "read_db_file (db_text rs) (start_db junk) = Inr st"
    "holds st ass (stored junk rs)"
    using read_db_correct [OF assms(3)] by blast
  note h = holdsD [OF st(2)]
  let ?rs = "zip (input_datapoints st) ass"
  have len: "length (stored junk rs) = length rs" by (simp add: stored_def split: list.split)
  have size: "2 \<le> length ms \<and> length ms < 2 ^ 32" if "ms \<in> set (stored junk rs)" for ms
  proof -
    have "length ms \<in> set (map length rs)"
      using that imageI [OF that, of length] by (simp add: stored_lengths [of junk rs, symmetric])
    then show ?thesis using assms(4) by auto
  qed
  have runs: "\<forall>(l, as) \<in> set ?rs. rep (db_heap st) l as \<and> 2 \<le> length as \<and> length as < 2 ^ 32"
  proof clarify
    fix l as assume "(l, as) \<in> set ?rs"
    then obtain i where i: "i < length (stored junk rs)" "l = input_datapoints st ! i" "as = ass ! i"
      using h(1,2) by (auto simp: set_zip)
    have "length as = length (stored junk rs ! i)"
      using h(4) [OF i(1)] i(3) by (auto simp: contents_def dest: arg_cong [of _ _ length])
    then show "rep (db_heap st) l as \<and> 2 \<le> length as \<and> length as < 2 ^ 32"
      using h(3) [OF i(1)] i size [OF nth_mem [OF i(1)]] by simp
  qed
  have fst: "map fst ?rs = input_datapoints st" using h(1,2) by simp
  have cont: "map (\<lambda>(l, as). summarise_run (contents (db_heap st) as)) ?rs = map summarise_run (stored junk rs)"
    using h(1,2,4) by (intro nth_equalityI) simp_all
  obtain ag outs where ag: "aggregate (input_datapoints st) (start_state (db_heap st) (db_next st)) = Some (Inr ag)"
    "rep (the_heap ag) (aggregated_datapoints ag) outs"
    "contents (the_heap ag) outs = concat (map summarise_run (stored junk rs))"
    using aggregate_correct [OF runs, of "db_next st"] h(6) unfolding fst cont by blast
  have "seg (the_heap ag) (head (aggregated_datapoints ag)) outs None" using ag(2) by (simp add: rep_def)
  from write_rows_seg [OF this, of csv_header]
  show ?thesis using assms(1,2) st(1) ag by (simp add: main_aggregate_def write_aggregated_file_def)
qed

section \<open>Faults of the reader\<close>

lemma too_many_runs:
  "MAX_RUNS < length (input_datapoints st) + n \<Longrightarrow> length (input_datapoints st) \<le> MAX_RUNS \<Longrightarrow>
   read_db_file (concat (replicate n NEW_RUN) @ s) st = Inl Out_Of_Bounds"
proof (induction n arbitrary: st)
  case (Suc n)
  show ?case
  proof (cases "MAX_RUNS \<le> length (input_datapoints st)")
    case False
    then show ?thesis using Suc by (simp add: read_new_run new_run_def)
  qed (simp add: read_new_run new_run_def)
qed simp

text \<open>
  What the reader does not accept: a datapoint before the first run fails the assertion, the
  run after the 1024th is written behind the array, and an empty line ends the program.
\<close>

theorem db_faults:
  assumes "short_lines m" "MAX_RUNS < n"
  shows "read_db_file (concat (db_lines m) @ s) (start_db junk) = Inl Assert_Failed
    \<and> read_db_file (concat (replicate n NEW_RUN) @ s) (start_db junk) = Inl Out_Of_Bounds
    \<and> read_db_file (NL # s) st = Inl Exit_Failure"
proof (intro conjI)
  show "read_db_file (concat (db_lines m) @ s) (start_db junk) = Inl Assert_Failed"
    using assms(1) by (simp add: read_measurement add_datapoint_def start_db_def)
  show "read_db_file (concat (replicate n NEW_RUN) @ s) (start_db junk) = Inl Out_Of_Bounds"
    using assms(2) by (intro too_many_runs) (simp_all add: start_db_def)
  have "[NL] \<noteq> NEW_RUN" "strtok [NL] = Some ([NL], [])" "[NL] \<noteq> ''Datapoint''" "[NL] \<noteq> ''Memory''"
    "[NL] \<noteq> ''Swap''" "[NL] \<noteq> ''CPU''"
    by code_simp+
  then have "read_line [NL] st = Inl Exit_Failure" by (simp add: read_line_def)
  then show "read_db_file (NL # s) st = Inl Exit_Failure"
    using read_db_file_line [of "[]" s st] by (simp add: MAX_LINE_LENGTH_def)
qed

section \<open>A concrete database\<close>

definition example_measurement :: measurement where
  "example_measurement = (2048, 512, zero_point\<lparr>mem_used := 1000, mem_free := 1048\<rparr>)"

lemma length_micros_0: "length (show_micros False 0) = 8"
  using show_digits_props [of 6 0] by (simp add: show_micros_def show_nat.simps)

lemma example_numbers:
  "show_int 0 = ''0''" "show_int 1000 = ''1000''" "show_int 1048 = ''1048''"
  "show_int 2048 = ''2048''" "show_int 512 = ''512''"
  by code_simp+

lemma example_short: "short_lines example_measurement"
  by (simp add: short_lines_def db_lines_def example_measurement_def db_line_def fmts spaced_simps newline_def
      zero_point_def int_values_def example_numbers length_micros_0 MAX_LINE_LENGTH_def)

theorem db_roundtrip_witness:
  "\<exists>st ass. read_db_file (db_text [[example_measurement, example_measurement]]) (start_db zero_node) = Inr st
    \<and> holds st ass (stored zero_node [[example_measurement, example_measurement]])"
  by (rule db_roundtrip) (simp_all add: MAX_RUNS_def example_short)

theorem main_aggregate_correct_witness:
  "main_aggregate zero_node [''aggregate'', ''db.txt'', ''out.csv'']
     (\<lambda>f. Some (db_text [[example_measurement, example_measurement]])) (\<lambda>f. True)
   = Some (Inr (''out.csv'', csv_header
       @ concat (map row (concat (map summarise_run (stored zero_node [[example_measurement, example_measurement]]))))))"
  by (rule main_aggregate_correct) (simp_all add: MAX_RUNS_def example_short)

theorem db_faults_witness:
  "read_db_file (concat (db_lines example_measurement)) (start_db zero_node) = Inl Assert_Failed
   \<and> read_db_file (concat (replicate 1025 NEW_RUN)) (start_db zero_node) = Inl Out_Of_Bounds"
  using db_faults [OF example_short, of 1025 "[]" zero_node] by (simp add: MAX_RUNS_def)


end
