(* ===== verification/Features.thy ===== *)
theory Features
  imports C_Text Ml_Model
begin

text \<open>
  The feature monitor of a virtual machine (\<open>get_features\<close> of \<open>controller/client.c\<close>), which
  turns what the kernel reports into text, and \<open>get_feature\<close> of \<open>controller/server.c\<close>, which
  reads the text. The contents of \<open>/proc/meminfo\<close> and \<open>/proc/stat\<close>, the clock and the output of
  the process count are arguments.

  The client builds the text with \<open>sprintf(output, "%s...", output, ...)\<close>, whose source and
  destination overlap; the model is what the C library of the repository's platform does, which
  is to append.
\<close>

definition BUFSIZE :: nat where
  "BUFSIZE = 4096"

section \<open>The client: reading the kernel's files\<close>

text \<open>\<open>strstr\<close>: the suffix at the first occurrence.\<close>

fun strstr :: "string \<Rightarrow> string \<Rightarrow> string option" where
  "strstr [] w = (if w = [] then Some [] else None)"
| "strstr (c # s) w = (if take (length w) (c # s) = w then Some (c # s) else strstr s w)"

definition meminfo_fmt :: "directive list" where
  "meminfo_fmt = text_fmt ''MemTotal: '' @ [Conv_D] @ text_fmt '' kB MemFree: '' @ [Conv_D]
     @ text_fmt '' kB Buffers: '' @ [Conv_D] @ text_fmt '' kB Cached: '' @ [Conv_D] @ text_fmt '' kB''"

definition swapinfo_fmt :: "directive list" where
  "swapinfo_fmt = text_fmt ''SwapTotal: '' @ [Conv_D] @ text_fmt '' kB SwapFree: '' @ [Conv_D] @ text_fmt '' kB''"

text \<open>
  The variables that \<open>sscanf\<close> leaves unassigned keep what the stack held (\<open>junk\<close>): the values
  converted, followed by the junk of the variables that were not reached.
\<close>

definition assigned_ints :: "c_int list \<Rightarrow> scanned list \<Rightarrow> c_int list" where
  "assigned_ints junk vs =
     map (\<lambda>v. case v of SInt i \<Rightarrow> word_of_int i | SFloat x \<Rightarrow> 0) vs @ drop (length vs) junk"

text \<open>
  Memory and swap: total, used, free, shared, buffers, cached; swap total, used, free. The file
  must fit the buffer with its final zero, and must contain \<open>SwapTotal:\<close>.
\<close>

definition read_meminfo :: "c_int list \<Rightarrow> string \<Rightarrow> (c_int list \<times> c_int list) res" where
  "read_meminfo junk file =
     (if BUFSIZE \<le> length file then Inl Out_Of_Bounds
      else
        (let m = assigned_ints (take 4 junk) (sscanf meminfo_fmt file);
             mem_total = m ! 0; mem_free = m ! 1; mem_buffers = m ! 2; mem_cached = m ! 3
         in case strstr file ''SwapTotal:'' of
              None \<Rightarrow> Inl Null_Deref
            | Some p \<Rightarrow>
                (let s = assigned_ints (drop 4 junk) (sscanf swapinfo_fmt p);
                     swap_total = s ! 0; swap_free = s ! 1
                 in Inr ([mem_total, mem_total - mem_free, mem_free, 0, mem_buffers, mem_cached],
                         [swap_total, swap_total - swap_free, swap_free]))))"

text \<open>
  The first line of \<open>/proc/stat\<close>: a word and ten numbers. An empty file exits; numbers that are
  missing would be read uninitialised.
\<close>

fun scan_longs :: "nat \<Rightarrow> string \<Rightarrow> c_long list" where
  "scan_longs 0 s = []"
| "scan_longs (Suc n) s =
     (case scan_int s of None \<Rightarrow> [] | Some (i, s') \<Rightarrow> word_of_int i # scan_longs n s')"

definition read_stat :: "string \<Rightarrow> c_long list res" where
  "read_stat file =
     (if skip_ws file = [] then Inl Exit_Failure
      else (let vs = scan_longs 10 (dropWhile (\<lambda>c. \<not> is_space c) (skip_ws file))
            in if length vs < 10 then Inl Uninit_Read else Inr vs))"

definition ul2f :: "c_long \<Rightarrow> fl" where
  "ul2f w = f_of_int binary32 (uint w)"

text \<open>
  The share of one counter: a \<open>float\<close> times a \<open>double\<close> constant, divided by a \<open>float\<close>, stored in
  a \<open>float\<close>.
\<close>

definition cpu_share :: "fl \<Rightarrow> c_long \<Rightarrow> c_long \<Rightarrow> fl" where
  "cpu_share cpu_total v1 v2 =
     fconv binary32 (fdiv binary64 (fmul binary64 (ul2f (v2 - v1)) (f_of_int binary64 100)) cpu_total)"

definition cpu_total_of :: "c_long list \<Rightarrow> c_long list \<Rightarrow> fl" where
  "cpu_total_of a b = fsub binary32 (ul2f (sum_list b)) (ul2f (sum_list a))"

text \<open>user, nice, system, iowait, steal, idle, from the positions of \<open>/proc/stat\<close>.\<close>

definition cpu_usage :: "c_long list \<Rightarrow> c_long list \<Rightarrow> fl list" where
  "cpu_usage a b =
     map (\<lambda>i. cpu_share (cpu_total_of a b) (a ! i) (b ! i)) [0, 1, 2, 4, 7, 3]"

definition l2d :: "c_long \<Rightarrow> fl" where
  "l2d w = f_of_int binary64 (sint w)"

definition elapsed :: "timeval \<Rightarrow> timeval \<Rightarrow> fl" where
  "elapsed init now =
     fsub binary64
       (fadd binary64 (fsub binary64 (l2d (tv_sec now)) (l2d (tv_sec init)))
          (fdiv binary64 (l2d (tv_usec now)) (f_of_int binary64 1000000)))
       (fdiv binary64 (l2d (tv_usec init)) (f_of_int binary64 1000000))"

section \<open>The text\<close>

record monitor =
  m_init :: timeval
  m_now :: timeval
  m_threads :: string
  m_meminfo :: string
  m_stat1 :: string
  m_stat2 :: string

definition ints :: "c_int list \<Rightarrow> scanned list" where
  "ints ws = map (\<lambda>w. SInt (sint w)) ws"

definition get_features :: "c_int list \<Rightarrow> monitor \<Rightarrow> string res" where
  "get_features junk m =
     rbind (read_meminfo junk (m_meminfo m)) (\<lambda>(mem, swap).
     rbind (read_stat (m_stat1 m)) (\<lambda>a.
     rbind (read_stat (m_stat2 m)) (\<lambda>b.
       Inr (sprintf (line_fmt ''Datapoint:'' 1 (Conv_F binary64)) [SFloat (elapsed (m_init m) (m_now m))]
          @ '' '' @ m_threads m
          @ sprintf (line_fmt ''Memory:'' 6 Conv_D @ [newline]) (ints mem)
          @ sprintf (line_fmt ''Swap:'' 3 Conv_D @ [newline]) (ints swap)
          @ sprintf (line_fmt ''CPU:'' 6 (Conv_F binary64)) (map SFloat (cpu_usage a b))))))"

section \<open>The server: reading the text\<close>

definition feature_fmt :: "directive list" where
  "feature_fmt = line_fmt ''Datapoint:'' 1 (Conv_F binary32) @ [Space CHR '' '', Conv_D] @ [newline]
     @ line_fmt ''Memory:'' 6 Conv_D @ [newline] @ line_fmt ''Swap:'' 3 Conv_D @ [newline]
     @ line_fmt ''CPU:'' 6 (Conv_F binary32)"

definition setters :: "(scanned \<Rightarrow> system_features \<Rightarrow> system_features) list" where
  "setters =
     [\<lambda>v f. f\<lparr>time := to_fl v\<rparr>, \<lambda>v f. f\<lparr>n_th := to_int v\<rparr>, \<lambda>v f. f\<lparr>mem_total := to_int v\<rparr>,
      \<lambda>v f. f\<lparr>mem_used := to_int v\<rparr>, \<lambda>v f. f\<lparr>mem_free := to_int v\<rparr>, \<lambda>v f. f\<lparr>mem_shared := to_int v\<rparr>,
      \<lambda>v f. f\<lparr>mem_buffers := to_int v\<rparr>, \<lambda>v f. f\<lparr>mem_cached := to_int v\<rparr>,
      \<lambda>v f. f\<lparr>swap_total := to_int v\<rparr>, \<lambda>v f. f\<lparr>swap_used := to_int v\<rparr>, \<lambda>v f. f\<lparr>swap_free := to_int v\<rparr>,
      \<lambda>v f. f\<lparr>cpu_user := to_fl v\<rparr>, \<lambda>v f. f\<lparr>cpu_nice := to_fl v\<rparr>, \<lambda>v f. f\<lparr>cpu_system := to_fl v\<rparr>,
      \<lambda>v f. f\<lparr>cpu_iowait := to_fl v\<rparr>, \<lambda>v f. f\<lparr>cpu_steal := to_fl v\<rparr>, \<lambda>v f. f\<lparr>cpu_idle := to_fl v\<rparr>]"

text \<open>
  The parameter \<open>current_features\<close> is a structure passed by value: this is what the function
  leaves in its own copy, which is lost when it returns.
\<close>

definition get_feature :: "string \<Rightarrow> system_features \<Rightarrow> system_features" where
  "get_feature features current_features =
     assign setters (sscanf feature_fmt features) current_features"

section \<open>Round trip\<close>

lemma sep_feature_fmt: "separated feature_fmt"
  by code_simp

lemma label_fmts:
  "text_fmt ''Datapoint:'' = map Lit ''Datapoint:''" "text_fmt ''Memory:'' = map Lit ''Memory:''"
  "text_fmt ''Swap:'' = map Lit ''Swap:''" "text_fmt ''CPU:'' = map Lit ''CPU:''"
  by code_simp+

lemma feature_fmt_unfold:
  "feature_fmt = map Lit ''Datapoint:'' @ spaced 1 (Conv_F binary32) @ [Space CHR '' '', Conv_D, newline]
     @ map Lit ''Memory:'' @ spaced 6 Conv_D @ [newline] @ map Lit ''Swap:'' @ spaced 3 Conv_D @ [newline]
     @ map Lit ''CPU:'' @ spaced 6 (Conv_F binary32)"
  by (simp only: feature_fmt_def line_fmt_def label_fmts append.simps append_assoc)

lemmas fmt_simps = feature_fmt_unfold line_fmt_def label_fmts spaced_fmts(2,3) spaced_fmts(1) [simplified]
  newline_def ints_def

lemma read_meminfo_shape:
  "read_meminfo junk file = Inr (mem, swap) \<Longrightarrow>
   \<exists>a b c d e f x y z. mem = [a, b, c, d, e, f] \<and> swap = [x, y, z]"
  by (auto simp: read_meminfo_def Let_def split: if_splits option.splits)

lemma features_text:
  assumes "mem = [a, b, c, d, e, f]" "swap = [x, y, z]" "cpu = [p, q, r, s, t, u]"
  shows "sprintf (line_fmt ''Datapoint:'' 1 (Conv_F binary64)) [SFloat clock]
      @ '' '' @ (show_int n @ [char_of (10 :: nat)])
      @ sprintf (line_fmt ''Memory:'' 6 Conv_D @ [newline]) (ints mem)
      @ sprintf (line_fmt ''Swap:'' 3 Conv_D @ [newline]) (ints swap)
      @ sprintf (line_fmt ''CPU:'' 6 (Conv_F binary64)) (map SFloat cpu)
    = sprintf feature_fmt (SFloat clock # SInt n # ints mem @ ints swap @ map SFloat cpu)"
  by (simp add: assms fmt_simps)

text \<open>
  C7. The text is the measurement. When the kernel's files are readable and the thread count is
  a number and a newline, \<open>get_feature\<close> of the controller reads from the text of \<open>get_features\<close>
  every integer as the client had it and every floating point value as the nearest \<open>float\<close> to
  its six printed decimals, whatever the structure held before.
\<close>

theorem feature_roundtrip:
  assumes "read_meminfo junk (m_meminfo m) = Inr (mem, swap)"
    and "read_stat (m_stat1 m) = Inr a" "read_stat (m_stat2 m) = Inr b"
    and "m_threads m = show_int (sint n) @ [char_of (10 :: nat)]"
  shows "\<exists>tx. get_features junk m = Inr tx \<and>
    get_feature tx f =
      \<lparr>time = reread binary32 (elapsed (m_init m) (m_now m)), n_th = n,
       mem_total = mem ! 0, mem_used = mem ! 1, mem_free = mem ! 2, mem_shared = mem ! 3,
       mem_buffers = mem ! 4, mem_cached = mem ! 5,
       swap_total = swap ! 0, swap_used = swap ! 1, swap_free = swap ! 2,
       cpu_user = reread binary32 (cpu_usage a b ! 0), cpu_nice = reread binary32 (cpu_usage a b ! 1),
       cpu_system = reread binary32 (cpu_usage a b ! 2), cpu_iowait = reread binary32 (cpu_usage a b ! 3),
       cpu_steal = reread binary32 (cpu_usage a b ! 4), cpu_idle = reread binary32 (cpu_usage a b ! 5)\<rparr>"
proof -
  let ?t = "elapsed (m_init m) (m_now m)" and ?cpu = "cpu_usage a b"
  obtain a0 a1 a2 a3 a4 a5 s0 s1 s2 where ms: "mem = [a0, a1, a2, a3, a4, a5]" "swap = [s0, s1, s2]"
    using read_meminfo_shape [OF assms(1)] by blast
  obtain c0 c1 c2 c3 c4 c5 where c: "?cpu = [c0, c1, c2, c3, c4, c5]"
    by (simp add: cpu_usage_def)
  let ?vs = "SFloat ?t # SInt (sint n) # ints mem @ ints swap @ map SFloat ?cpu"
  have tx: "get_features junk m = Inr (sprintf feature_fmt ?vs)"
    using assms features_text [OF ms c, of ?t "sint n"] by (simp add: get_features_def)
  have "fits feature_fmt ?vs"
    by (simp add: ms c fmt_simps)
  then have "sscanf feature_fmt (sprintf feature_fmt ?vs) = reread_all feature_fmt ?vs"
    by (rule sscanf_sprintf [OF sep_feature_fmt])
  also have "\<dots> = SFloat (reread binary32 ?t) # SInt (sint n) # ints mem @ ints swap
      @ map (\<lambda>x. SFloat (reread binary32 x)) ?cpu"
    by (simp add: ms c fmt_simps)
  finally show ?thesis using tx
    by (simp add: get_feature_def assign_def setters_def ms c ints_def to_int_def to_fl_def)
qed

section \<open>Precision\<close>

lemma micros_error: "\<bar>real (micros r) / 10 ^ 6 - \<bar>r\<bar>\<bar> \<le> 1 / (2 * 10 ^ 6)"
proof -
  have "0 \<le> rne (\<bar>r\<bar> * 10 ^ 6)" using rne_between(1) [of 0 "\<bar>r\<bar> * 10 ^ 6"] by simp
  then have "real (micros r) = of_int (rne (\<bar>r\<bar> * 10 ^ 6))" by (simp add: micros_def)
  then have "\<bar>real (micros r) - \<bar>r\<bar> * 10 ^ 6\<bar> \<le> 1 / 2" using rne_error [of "\<bar>r\<bar> * 10 ^ 6"] by simp
  then have "real (micros r) - \<bar>r\<bar> * 1000000 \<le> 1 / 2" "\<bar>r\<bar> * 1000000 - real (micros r) \<le> 1 / 2"
    unfolding abs_le_iff by simp_all
  then have "real (micros r) / 1000000 - \<bar>r\<bar> \<le> 1 / 2000000" "\<bar>r\<bar> - real (micros r) / 1000000 \<le> 1 / 2000000"
    by linarith+
  moreover have "(10 :: real) ^ 6 = 1000000" "2 * (10 :: real) ^ 6 = 2000000" by simp_all
  ultimately show ?thesis unfolding abs_le_iff by (simp only: minus_diff_eq simp_thms)
qed

text \<open>
  What six decimals keep. A number below \<open>2 ^ 100\<close> survives printing and reading as a number
  that differs from it by at most half a millionth and the rounding of a \<open>float\<close>.
\<close>

theorem print_precision:
  assumes "is_num x" "\<bar>fval x\<bar> \<le> pow2 100"
  shows "is_num (reread binary32 x)
    \<and> \<bar>fval (reread binary32 x) - fval x\<bar>
        \<le> 1 / (2 * 10 ^ 6) + (\<bar>fval x\<bar> + 1) * pow2 (-24) + pow2 (-150)"
proof (cases x)
  case (Fin r)
  define q where "q = signed_micros (r < 0) (micros r)"
  have q: "\<bar>q - r\<bar> \<le> 1 / (2 * 10 ^ 6)"
    using micros_error [of r] by (auto simp: q_def signed_micros_def abs_if split: if_splits)
  have e: "\<bar>rnd binary32 q - q\<bar> \<le> \<bar>q\<bar> * pow2 (-24) + pow2 (-150)"
    using rnd_error_rel [of binary32 q] by (simp add: emin_def binary32_def)
  have r: "\<bar>r\<bar> \<le> pow2 100" using assms(2) Fin by simp
  have "1 / (2 * 10 ^ 6) \<le> (1 :: real)" by simp
  then have q1: "\<bar>q\<bar> \<le> \<bar>r\<bar> + 1" using q by linarith
  have m: "\<bar>q\<bar> * pow2 (-24) \<le> (\<bar>r\<bar> + 1) * pow2 (-24)" using q1 by (intro mult_right_mono) auto
  have "(\<bar>r\<bar> + 1) * pow2 (-24) \<le> (pow2 100 + 1) * pow2 (-24)" using r by (intro mult_right_mono) auto
  moreover have "(pow2 100 + 1) * pow2 (-24) + pow2 100 + 1 + pow2 (-150) < pow2 128"
    by (simp add: pow2_def)
  ultimately have "\<bar>rnd binary32 q\<bar> < pow2 128" using e m q1 r by linarith
  then have "\<bar>rnd binary32 q\<bar> < pow2 (emax binary32 + 1)" by (simp add: binary32_def)
  from fval_pack [OF this, of "r < 0"]
  have "is_num (reread binary32 x) \<and> fval (reread binary32 x) = rnd binary32 q"
    by (simp add: Fin q_def)
  moreover have "\<bar>rnd binary32 q - r\<bar> \<le> 1 / (2 * 10 ^ 6) + (\<bar>r\<bar> + 1) * pow2 (-24) + pow2 (-150)"
    using e m q by linarith
  ultimately show ?thesis by (simp add: Fin)
qed (use assms in \<open>simp_all add: pow2_def\<close>)

theorem print_precision_witness:
  "is_num (reread binary32 (Fin (1 / 8)))
    \<and> \<bar>fval (reread binary32 (Fin (1 / 8))) - fval (Fin (1 / 8))\<bar>
        \<le> 1 / (2 * 10 ^ 6) + (\<bar>fval (Fin (1 / 8))\<bar> + 1) * pow2 (-24) + pow2 (-150)"
  by (rule print_precision) (simp_all add: pow2_def)

section \<open>The kernel's memory report\<close>

definition nl :: string where
  "nl = [char_of (10 :: nat)]"

definition meminfo_line :: "string \<Rightarrow> int \<Rightarrow> string" where
  "meminfo_line label v = label @ '' '' @ show_int v @ '' kB'' @ nl"

lemma meminfo_fmt_unfold:
  "meminfo_fmt = map Lit ''MemTotal:'' @ [Space CHR '' '', Conv_D, Space CHR '' ''] @ map Lit ''kB''
     @ [Space CHR '' ''] @ map Lit ''MemFree:'' @ [Space CHR '' '', Conv_D, Space CHR '' ''] @ map Lit ''kB''
     @ [Space CHR '' ''] @ map Lit ''Buffers:'' @ [Space CHR '' '', Conv_D, Space CHR '' ''] @ map Lit ''kB''
     @ [Space CHR '' ''] @ map Lit ''Cached:'' @ [Space CHR '' '', Conv_D, Space CHR '' ''] @ map Lit ''kB''"
  by code_simp

lemma letters_no_space [simp]:
  "\<not> is_space CHR ''k''" "\<not> is_space CHR ''M''" "\<not> is_space CHR ''B''" "\<not> is_space CHR ''C''"
  by (simp_all add: is_space_def)

lemma sscanf_meminfo:
  "sscanf meminfo_fmt (meminfo_line ''MemTotal:'' a @ meminfo_line ''MemFree:'' b
      @ meminfo_line ''Buffers:'' c @ meminfo_line ''Cached:'' d @ rest)
    = [SInt a, SInt b, SInt c, SInt d]"
  by (simp add: meminfo_fmt_unfold meminfo_line_def nl_def scan_int_skip scan_int_blank scan_show_int skip_blank skip_ws_Cons)

lemma sscanf_meminfo_available:
  "sscanf meminfo_fmt (meminfo_line ''MemTotal:'' a @ meminfo_line ''MemFree:'' b
      @ meminfo_line ''MemAvailable:'' c @ rest) = [SInt a, SInt b]"
  by (simp add: meminfo_fmt_unfold meminfo_line_def nl_def scan_int_skip scan_int_blank scan_show_int skip_blank skip_ws_Cons)

lemma swapinfo_fmt_unfold:
  "swapinfo_fmt = map Lit ''SwapTotal:'' @ [Space CHR '' '', Conv_D, Space CHR '' ''] @ map Lit ''kB''
     @ [Space CHR '' ''] @ map Lit ''SwapFree:'' @ [Space CHR '' '', Conv_D, Space CHR '' ''] @ map Lit ''kB''"
  by code_simp

lemma letter_S [simp]: "\<not> is_space CHR ''S''" "\<not> is_digit CHR ''S''"
  by (simp_all add: is_space_def is_digit_def)

lemma sscanf_swapinfo:
  "sscanf swapinfo_fmt (meminfo_line ''SwapTotal:'' a @ meminfo_line ''SwapFree:'' b @ rest) = [SInt a, SInt b]"
  by (simp add: swapinfo_fmt_unfold meminfo_line_def nl_def scan_int_skip scan_int_blank scan_show_int
      skip_blank skip_ws_Cons)

lemma strstr_skip: "c \<notin> set p \<Longrightarrow> strstr (p @ s) (c # w) = strstr s (c # w)"
  by (induction p) auto

lemma strstr_here: "strstr (w @ s) w = Some (w @ s)"
  by (cases "w @ s") (auto dest: arg_cong [of _ _ "take (length w)"])

lemma no_S: "CHR ''S'' \<notin> set (show_int i)"
proof -
  have "list_all is_digit (show_nat n)" for n using show_nat_props by blast
  then have "CHR ''S'' \<notin> set (show_nat n)" for n
    using letter_S(2) unfolding list_all_iff by blast
  then show ?thesis by (simp add: show_int_def)
qed

lemma no_S_line: "CHR ''S'' \<notin> set label \<Longrightarrow> CHR ''S'' \<notin> set (meminfo_line label v)"
proof -
  have "CHR ''S'' \<noteq> char_of (10 :: nat)" using letter_S(1) blanks(2) by metis
  then show "CHR ''S'' \<notin> set label \<Longrightarrow> ?thesis" using no_S by (auto simp: meminfo_line_def nl_def)
qed

lemma strstr_swap:
  assumes "CHR ''S'' \<notin> set p"
  shows "strstr (p @ meminfo_line ''SwapTotal:'' v @ s) ''SwapTotal:'' = Some (meminfo_line ''SwapTotal:'' v @ s)"
proof -
  have "strstr (meminfo_line ''SwapTotal:'' v @ s) ''SwapTotal:'' = Some (meminfo_line ''SwapTotal:'' v @ s)"
    using strstr_here [of "''SwapTotal:''"] by (simp add: meminfo_line_def)
  then show ?thesis using strstr_skip [OF assms] by simp
qed

lemma read_meminfo_old:
  assumes "file = meminfo_line ''MemTotal:'' a @ meminfo_line ''MemFree:'' b
         @ meminfo_line ''Buffers:'' c @ meminfo_line ''Cached:'' d @ rest"
    and "strstr file ''SwapTotal:'' = Some (meminfo_line ''SwapTotal:'' x @ meminfo_line ''SwapFree:'' y @ rest2)"
    and "length file < BUFSIZE"
  shows "read_meminfo junk file =
     Inr ([word_of_int a, word_of_int a - word_of_int b, word_of_int b, 0, word_of_int c, word_of_int d],
          [word_of_int x, word_of_int x - word_of_int y, word_of_int y])"
proof -
  have "sscanf meminfo_fmt file = [SInt a, SInt b, SInt c, SInt d]"
    unfolding assms(1) by (rule sscanf_meminfo)
  then show ?thesis using assms(2,3)
    by (simp add: read_meminfo_def assigned_ints_def sscanf_swapinfo not_le Let_def)
qed

text \<open>
  On the report of an older kernel, whose lines are total, free, buffers and cached memory,
  the client sends memory and swap as reported, with the used amounts computed in 32 bits.
\<close>

theorem meminfo_read:
  assumes "file = meminfo_line ''MemTotal:'' a @ meminfo_line ''MemFree:'' b
         @ meminfo_line ''Buffers:'' c @ meminfo_line ''Cached:'' d @ rest"
    and "strstr file ''SwapTotal:'' = Some (meminfo_line ''SwapTotal:'' x @ meminfo_line ''SwapFree:'' y @ rest2)"
    and "length file < BUFSIZE"
  shows "read_meminfo junk file =
     Inr ([word_of_int a, word_of_int a - word_of_int b, word_of_int b, 0, word_of_int c, word_of_int d],
          [word_of_int x, word_of_int x - word_of_int y, word_of_int y])"
  using assms by (rule read_meminfo_old)

theorem meminfo_read_witness:
  "\<exists>file. read_meminfo [] file = Inr ([100, 60, 40, 0, 7, 8], [50, 20, 30])"
proof -
  let ?m = "meminfo_line ''MemTotal:'' 100 @ meminfo_line ''MemFree:'' 40
         @ meminfo_line ''Buffers:'' 7 @ meminfo_line ''Cached:'' 8"
  let ?s = "meminfo_line ''SwapTotal:'' 50 @ meminfo_line ''SwapFree:'' 30 @ []"
  have "strstr (?m @ ?s) ''SwapTotal:'' = Some ?s"
    by (rule strstr_swap) (simp add: no_S_line)
  moreover have "length (?m @ ?s) < BUFSIZE"
    by code_simp
  ultimately have "read_meminfo [] (?m @ ?s) = Inr ([word_of_int 100, word_of_int 100 - word_of_int 40, word_of_int 40, 0, word_of_int 7, word_of_int 8],
          [word_of_int 50, word_of_int 50 - word_of_int 30, word_of_int 30])"
    by (intro meminfo_read [where rest = ?s]) simp_all
  then show ?thesis by (intro exI [of _ "?m @ ?s"]) simp
qed

text \<open>
  The report of a newer kernel has \<open>MemAvailable\<close> as its third line. The conversion stops
  there, and the client sends as buffers and cached memory what its stack held.
\<close>

theorem meminfo_available:
  assumes "file = meminfo_line ''MemTotal:'' a @ meminfo_line ''MemFree:'' b
         @ meminfo_line ''MemAvailable:'' c @ rest"
    and "strstr file ''SwapTotal:'' = Some p" "length file < BUFSIZE" "4 \<le> length junk"
  shows "\<exists>mem swap. read_meminfo junk file = Inr (mem, swap) \<and> mem ! 4 = junk ! 2 \<and> mem ! 5 = junk ! 3"
proof -
  have "sscanf meminfo_fmt file = [SInt a, SInt b]"
    unfolding assms(1) by (rule sscanf_meminfo_available)
  then show ?thesis using assms(2,3,4)
    by (simp add: read_meminfo_def assigned_ints_def not_le Let_def eval_nat_numeral)
qed

theorem meminfo_available_witness:
  "\<exists>file mem swap. read_meminfo [11, 12, 13, 14] file = Inr (mem, swap) \<and> mem ! 4 = 13 \<and> mem ! 5 = 14"
proof -
  let ?m = "meminfo_line ''MemTotal:'' 100 @ meminfo_line ''MemFree:'' 40 @ meminfo_line ''MemAvailable:'' 90"
  let ?s = "meminfo_line ''SwapTotal:'' 50 @ meminfo_line ''SwapFree:'' 30"
  have "strstr (?m @ ?s) ''SwapTotal:'' = Some ?s"
    by (rule strstr_swap) (simp add: no_S_line)
  moreover have "length (?m @ ?s) < BUFSIZE"
    by code_simp
  ultimately have "\<exists>mem swap. read_meminfo [11, 12, 13, 14] (?m @ ?s) = Inr (mem, swap)
      \<and> mem ! 4 = [11, 12, 13, 14] ! 2 \<and> mem ! 5 = [11, 12, 13, 14] ! 3"
    by (intro meminfo_available [where rest = ?s]) simp_all
  then show ?thesis by (intro exI [of _ "?m @ ?s"]) (simp add: eval_nat_numeral)
qed

section \<open>A concrete machine\<close>

definition example_meminfo :: string where
  "example_meminfo = meminfo_line ''MemTotal:'' 100 @ meminfo_line ''MemFree:'' 40
     @ meminfo_line ''Buffers:'' 7 @ meminfo_line ''Cached:'' 8
     @ meminfo_line ''SwapTotal:'' 50 @ meminfo_line ''SwapFree:'' 30"

definition example_monitor :: monitor where
  "example_monitor = \<lparr>m_init = \<lparr>tv_sec = 100, tv_usec = 0\<rparr>, m_now = \<lparr>tv_sec = 101, tv_usec = 500000\<rparr>,
     m_threads = show_int 123 @ [char_of (10 :: nat)], m_meminfo = example_meminfo,
     m_stat1 = ''cpu 10 0 10 80 0 0 0 0 0 0'', m_stat2 = ''cpu 20 0 20 160 0 0 0 0 0 0''\<rparr>"

lemma example_meminfo_read:
  "read_meminfo junk example_meminfo = Inr ([100, 60, 40, 0, 7, 8], [50, 20, 30])"
proof -
  let ?m = "meminfo_line ''MemTotal:'' 100 @ meminfo_line ''MemFree:'' 40
         @ meminfo_line ''Buffers:'' 7 @ meminfo_line ''Cached:'' 8"
  let ?s = "meminfo_line ''SwapTotal:'' 50 @ meminfo_line ''SwapFree:'' 30 @ []"
  have e: "example_meminfo = ?m @ ?s" by (simp add: example_meminfo_def)
  have "strstr example_meminfo ''SwapTotal:'' = Some ?s"
    unfolding e by (rule strstr_swap) (simp add: no_S_line)
  moreover have "length example_meminfo < BUFSIZE" by code_simp
  ultimately show ?thesis
    using read_meminfo_old [of example_meminfo 100 40 7 8 ?s 50 30 "[]" junk] by (simp add: e)
qed

theorem feature_roundtrip_witness:
  "\<exists>tx. get_features [] example_monitor = Inr tx \<and> n_th (get_feature tx zero_features) = 123
     \<and> mem_used (get_feature tx zero_features) = 60 \<and> swap_free (get_feature tx zero_features) = 30"
proof -
  have s1: "read_stat (m_stat1 example_monitor) = Inr [10, 0, 10, 80, 0, 0, 0, 0, 0, 0]" by code_simp
  have s2: "read_stat (m_stat2 example_monitor) = Inr [20, 0, 20, 160, 0, 0, 0, 0, 0, 0]" by code_simp
  have m: "read_meminfo [] (m_meminfo example_monitor) = Inr ([100, 60, 40, 0, 7, 8], [50, 20, 30])"
    by (simp add: example_monitor_def example_meminfo_read)
  have "m_threads example_monitor = show_int (sint (123 :: c_int)) @ [char_of (10 :: nat)]"
    by (simp add: example_monitor_def)
  from feature_roundtrip [OF m s1 s2 this, of zero_features] show ?thesis by auto
qed

end
