(* ===== verification/Mailbox.thy ===== *)
theory Mailbox
  imports Protocol "HOL-Library.Sublist"
begin

text \<open>
  The hand-over of requests from the controller's threads to the thread that talks to the load
  balancer (\<open>controller/server.c\<close>). There is one global structure \<open>virt_machine\<close> and one flag
  \<open>state_man_vm\<close>. A thread with a request locks \<open>manage_vm_mutex\<close>, writes the four fields one
  after the other and sets the flag; it does not unlock. \<open>balancer_thread\<close> polls the flag, sends
  the structure, clears the flag and unlocks the mutex on behalf of the other thread.

  Each C statement on the shared variables is one step, so all interleavings of any number of
  posting threads are covered. \<open>posted\<close> and \<open>sent\<close> record the requests in the order in which
  the flag was set and in which \<open>send\<close> was called.
\<close>

datatype poster =
    Idle
  | Wants virtual_machine
  | Wrote_None virtual_machine
  | Wrote_Ip virtual_machine
  | Wrote_Port virtual_machine
  | Wrote_Service virtual_machine
  | Wrote_All virtual_machine

datatype sender = Polling | Sending | Clearing | Unlocking

record mailbox =
  locked :: bool
  state_man_vm :: bool
  virt_machine :: virtual_machine
  posters :: "nat \<Rightarrow> poster"
  sender :: sender
  posted :: "virtual_machine list"
  sent :: "virtual_machine list"

section \<open>Steps\<close>

inductive post_step :: "nat \<Rightarrow> mailbox \<Rightarrow> mailbox \<Rightarrow> bool" for p :: nat where
  Request: "posters s p = Idle \<Longrightarrow> post_step p s (s\<lparr>posters := (posters s)(p := Wants m)\<rparr>)"
| Lock: "posters s p = Wants m \<Longrightarrow> \<not> locked s \<Longrightarrow>
    post_step p s (s\<lparr>locked := True, posters := (posters s)(p := Wrote_None m)\<rparr>)"
| Write_Ip: "posters s p = Wrote_None m \<Longrightarrow>
    post_step p s (s\<lparr>virt_machine := (virt_machine s)\<lparr>req_ip := req_ip m\<rparr>,
      posters := (posters s)(p := Wrote_Ip m)\<rparr>)"
| Write_Port: "posters s p = Wrote_Ip m \<Longrightarrow>
    post_step p s (s\<lparr>virt_machine := (virt_machine s)\<lparr>req_port := req_port m\<rparr>,
      posters := (posters s)(p := Wrote_Port m)\<rparr>)"
| Write_Service: "posters s p = Wrote_Port m \<Longrightarrow>
    post_step p s (s\<lparr>virt_machine := (virt_machine s)\<lparr>req_service := req_service m\<rparr>,
      posters := (posters s)(p := Wrote_Service m)\<rparr>)"
| Write_Op: "posters s p = Wrote_Service m \<Longrightarrow>
    post_step p s (s\<lparr>virt_machine := (virt_machine s)\<lparr>req_op := req_op m\<rparr>,
      posters := (posters s)(p := Wrote_All m)\<rparr>)"
| Raise: "posters s p = Wrote_All m \<Longrightarrow>
    post_step p s (s\<lparr>state_man_vm := True, posted := posted s @ [m],
      posters := (posters s)(p := Idle)\<rparr>)"

text \<open>\<open>balancer_thread\<close>. A failing \<open>send\<close> is only reported, so it is a step like the other.\<close>

inductive send_step :: "mailbox \<Rightarrow> mailbox \<Rightarrow> bool" where
  Poll: "sender s = Polling \<Longrightarrow> state_man_vm s \<Longrightarrow> send_step s (s\<lparr>sender := Sending\<rparr>)"
| Send: "sender s = Sending \<Longrightarrow> send_step s (s\<lparr>sent := sent s @ [virt_machine s], sender := Clearing\<rparr>)"
| Clear: "sender s = Clearing \<Longrightarrow> send_step s (s\<lparr>state_man_vm := False, sender := Unlocking\<rparr>)"
| Unlock: "sender s = Unlocking \<Longrightarrow> send_step s (s\<lparr>locked := False, sender := Polling\<rparr>)"

definition step :: "mailbox \<Rightarrow> mailbox \<Rightarrow> bool" where
  "step s s' \<longleftrightarrow> (\<exists>p. post_step p s s') \<or> send_step s s'"

definition init_mailbox :: "virtual_machine \<Rightarrow> mailbox" where
  "init_mailbox m = \<lparr>locked = False, state_man_vm = False, virt_machine = m, posters = (\<lambda>_. Idle),
     sender = Polling, posted = [], sent = []\<rparr>"

inductive reachable :: "mailbox \<Rightarrow> bool" where
  Init: "reachable (init_mailbox m)"
| Step: "reachable s \<Longrightarrow> step s s' \<Longrightarrow> reachable s'"

inductive_cases post_stepE: "post_step p s s'"
inductive_cases send_stepE: "send_step s s'"

section \<open>The invariant\<close>

text \<open>
  The phases a thread goes through while it holds the mutex, and how much of the structure it
  has written.
\<close>

fun writing :: "poster \<Rightarrow> virtual_machine option" where
  "writing Idle = None"
| "writing (Wants m) = None"
| "writing (Wrote_None m) = Some m"
| "writing (Wrote_Ip m) = Some m"
| "writing (Wrote_Port m) = Some m"
| "writing (Wrote_Service m) = Some m"
| "writing (Wrote_All m) = Some m"

fun written :: "poster \<Rightarrow> virtual_machine \<Rightarrow> bool" where
  "written (Wrote_Ip m) v = (req_ip v = req_ip m)"
| "written (Wrote_Port m) v = (req_ip v = req_ip m \<and> req_port v = req_port m)"
| "written (Wrote_Service m) v =
     (req_ip v = req_ip m \<and> req_port v = req_port m \<and> req_service v = req_service m)"
| "written (Wrote_All m) v = (v = m)"
| "written _ v = True"

text \<open>
  When nobody writes and the flag is clear, everything posted has been sent; between the setting
  of the flag and the call of \<open>send\<close> the structure holds the one request that is missing. The
  mutex is free only when the sender polls, the flag is clear and nobody writes, and at most one
  thread writes, only while the sender polls a clear flag.
\<close>

definition waiting :: "mailbox \<Rightarrow> bool" where
  "waiting s \<longleftrightarrow> state_man_vm s \<and> sender s \<in> {Polling, Sending}"

definition mbox_ok :: "mailbox \<Rightarrow> bool" where
  "mbox_ok s \<longleftrightarrow>
     posted s = sent s @ (if waiting s then [virt_machine s] else []) \<and>
     (sender s \<in> {Sending, Clearing} \<longrightarrow> state_man_vm s) \<and>
     (sender s = Unlocking \<longrightarrow> \<not> state_man_vm s) \<and>
     (state_man_vm s \<or> sender s \<noteq> Polling \<longrightarrow> locked s \<and> (\<forall>p. writing (posters s p) = None)) \<and>
     (\<forall>p q. writing (posters s p) \<noteq> None \<longrightarrow> writing (posters s q) \<noteq> None \<longrightarrow> p = q) \<and>
     (\<forall>p. writing (posters s p) \<noteq> None \<longrightarrow> locked s) \<and>
     (\<forall>p. written (posters s p) (virt_machine s)) \<and>
     (locked s \<longrightarrow> state_man_vm s \<or> sender s \<noteq> Polling \<or> (\<exists>p. writing (posters s p) \<noteq> None))"

lemma mbox_ok_init: "mbox_ok (init_mailbox m)"
  by (simp add: mbox_ok_def init_mailbox_def waiting_def)

lemma mbox_ok_send: "send_step s s' \<Longrightarrow> mbox_ok s \<Longrightarrow> mbox_ok s'"
  by (erule send_stepE) (auto simp: mbox_ok_def waiting_def)

lemma written_idle: "writing x = None \<Longrightarrow> written x v"
  by (cases x) simp_all

lemma mbox_written: "mbox_ok s \<Longrightarrow> written (posters s p) (virt_machine s)"
  by (simp add: mbox_ok_def)

lemma mbox_writing:
  assumes "mbox_ok s" "writing (posters s p) \<noteq> None"
  shows "\<not> state_man_vm s \<and> sender s = Polling \<and> locked s
    \<and> (\<forall>q. q \<noteq> p \<longrightarrow> writing (posters s q) = None)"
proof -
  have "state_man_vm s \<or> sender s \<noteq> Polling \<longrightarrow> (\<forall>p. writing (posters s p) = None)"
    using assms(1) by (simp add: mbox_ok_def)
  then have "\<not> (state_man_vm s \<or> sender s \<noteq> Polling)" using assms(2) by auto
  moreover have "locked s" using assms by (auto simp: mbox_ok_def)
  moreover have "\<forall>q. q \<noteq> p \<longrightarrow> writing (posters s q) = None"
    using assms unfolding mbox_ok_def by meson
  ultimately show ?thesis by blast
qed

text \<open>A write by the thread \<open>p\<close>, which holds the mutex: nobody else is writing.\<close>

lemma mbox_ok_write:
  assumes ok: "mbox_ok s" and w: "writing (posters s p) \<noteq> None" "writing x \<noteq> None" "written x v"
  shows "mbox_ok (s\<lparr>virt_machine := v, posters := (posters s)(p := x)\<rparr>)"
proof -
  note free = mbox_writing [OF ok w(1)]
  then show ?thesis using ok w
    by (auto simp: mbox_ok_def waiting_def written_idle split: if_splits)
qed

lemma mbox_ok_posters:
  assumes "mbox_ok s" "\<And>q. writing (f q) = writing (posters s q)" "\<And>q. written (f q) (virt_machine s)"
  shows "mbox_ok (s\<lparr>posters := f\<rparr>)"
  using assms(1) by (simp add: mbox_ok_def waiting_def assms(2,3))

lemma mbox_ok_post: "post_step p s s' \<Longrightarrow> mbox_ok s \<Longrightarrow> mbox_ok s'"
proof (erule post_stepE)
  fix m assume a: "mbox_ok s" "posters s p = Idle" "s' = s\<lparr>posters := (posters s)(p := Wants m)\<rparr>"
  show "mbox_ok s'" unfolding a(3)
    by (rule mbox_ok_posters [OF a(1)]) (use a in \<open>simp_all add: mbox_ok_def\<close>)
next
  fix m assume "mbox_ok s" "posters s p = Wants m" "\<not> locked s"
    "s' = s\<lparr>locked := True, posters := (posters s)(p := Wrote_None m)\<rparr>"
  then show "mbox_ok s'" by (auto simp: mbox_ok_def waiting_def split: if_splits)
next
  fix m assume a: "mbox_ok s" "posters s p = Wrote_None m"
    "s' = s\<lparr>virt_machine := (virt_machine s)\<lparr>req_ip := req_ip m\<rparr>, posters := (posters s)(p := Wrote_Ip m)\<rparr>"
  show "mbox_ok s'" unfolding a(3)
    by (rule mbox_ok_write [OF a(1)]) (use a(2) mbox_written [OF a(1), of p] in simp_all)
next
  fix m assume a: "mbox_ok s" "posters s p = Wrote_Ip m"
    "s' = s\<lparr>virt_machine := (virt_machine s)\<lparr>req_port := req_port m\<rparr>, posters := (posters s)(p := Wrote_Port m)\<rparr>"
  show "mbox_ok s'" unfolding a(3)
    by (rule mbox_ok_write [OF a(1)]) (use a(2) mbox_written [OF a(1), of p] in simp_all)
next
  fix m assume a: "mbox_ok s" "posters s p = Wrote_Port m"
    "s' = s\<lparr>virt_machine := (virt_machine s)\<lparr>req_service := req_service m\<rparr>, posters := (posters s)(p := Wrote_Service m)\<rparr>"
  show "mbox_ok s'" unfolding a(3)
    by (rule mbox_ok_write [OF a(1)]) (use a(2) mbox_written [OF a(1), of p] in simp_all)
next
  fix m assume a: "mbox_ok s" "posters s p = Wrote_Service m"
    "s' = s\<lparr>virt_machine := (virt_machine s)\<lparr>req_op := req_op m\<rparr>, posters := (posters s)(p := Wrote_All m)\<rparr>"
  show "mbox_ok s'" unfolding a(3)
    by (rule mbox_ok_write [OF a(1)]) (use a(2) mbox_written [OF a(1), of p] in simp_all)
next
  fix m assume a: "mbox_ok s" "posters s p = Wrote_All m"
    "s' = s\<lparr>state_man_vm := True, posted := posted s @ [m], posters := (posters s)(p := Idle)\<rparr>"
  have w: "\<not> state_man_vm s" "sender s = Polling" "locked s" "virt_machine s = m"
    using mbox_writing [OF a(1), of p] mbox_written [OF a(1), of p] a(2) by simp_all
  have none: "writing (((posters s)(p := Idle)) q) = None" for q
    using mbox_writing [OF a(1), of p] a(2) by simp
  have "posted s = sent s" using a(1) w by (simp add: mbox_ok_def waiting_def)
  then show "mbox_ok s'" unfolding a(3)
    using w none written_idle [OF none] by (simp add: mbox_ok_def waiting_def)
qed

lemma mbox_ok_step: "step s s' \<Longrightarrow> mbox_ok s \<Longrightarrow> mbox_ok s'"
  using mbox_ok_post mbox_ok_send by (auto simp: step_def)

interpretation hand_over: safe_system "\<lambda>s. \<exists>m. s = init_mailbox m" step mbox_ok
  by unfold_locales (blast intro: mbox_ok_init mbox_ok_step)+

lemma reachable_steps: "reachable s \<Longrightarrow> \<exists>m. step\<^sup>*\<^sup>* (init_mailbox m) s"
  by (induction rule: reachable.induct) (blast, meson rtranclp.rtrancl_into_rtrancl)

lemma reachable_ok: "reachable s \<Longrightarrow> mbox_ok s"
  using reachable_steps hand_over.always_inv by blast

section \<open>Delivery\<close>

text \<open>
  C11. The hand-over under every interleaving: at most one thread writes the structure at a time,
  the requests sent are the requests posted, complete and in the same order, and at most the
  last one posted is still to be sent.
\<close>

theorem mailbox_fifo:
  assumes "reachable s"
  shows "prefix (sent s) (posted s) \<and> length (posted s) \<le> length (sent s) + 1
    \<and> (writing (posters s p) = None \<or> writing (posters s q) = None \<or> p = q)"
proof -
  have ok: "mbox_ok s" using assms by (rule reachable_ok)
  have "posted s = sent s @ (if waiting s then [virt_machine s] else [])"
    using ok by (simp add: mbox_ok_def)
  moreover have "writing (posters s p) = None \<or> writing (posters s q) = None \<or> p = q"
    using mbox_writing [OF ok, of p] by auto
  ultimately show ?thesis by (simp add: prefix_def)
qed

text \<open>\<open>settles s\<close>: from \<open>s\<close> some execution frees the mutex with everything posted sent.\<close>

definition settles :: "mailbox \<Rightarrow> bool" where
  "settles s \<longleftrightarrow> (\<exists>t. step\<^sup>*\<^sup>* s t \<and> \<not> locked t \<and> sent t = posted t)"

lemma settles_here: "\<not> locked s \<Longrightarrow> sent s = posted s \<Longrightarrow> settles s"
  unfolding settles_def by blast

lemma settles_step: "step s s' \<Longrightarrow> settles s' \<Longrightarrow> settles s"
  unfolding settles_def by (meson converse_rtranclp_into_rtranclp)

lemma settles_send: "mbox_ok s \<Longrightarrow> send_step s s' \<Longrightarrow> (mbox_ok s' \<Longrightarrow> settles s') \<Longrightarrow> settles s"
  by (meson mbox_ok_send settles_step step_def)

lemma settles_post: "mbox_ok s \<Longrightarrow> post_step p s s' \<Longrightarrow> (mbox_ok s' \<Longrightarrow> settles s') \<Longrightarrow> settles s"
  by (meson mbox_ok_post settles_step step_def)

text \<open>The sender alone brings every phase in which nobody writes back to a free mutex.\<close>

lemma settles_unlock:
  assumes "mbox_ok s" "sender s = Unlocking"
  shows "settles s"
proof -
  have "posted s = sent s" using assms by (simp add: mbox_ok_def waiting_def)
  then have "settles (s\<lparr>locked := False, sender := Polling\<rparr>)"
    by (intro settles_here) simp_all
  then show ?thesis using settles_send [OF assms(1) send_step.Unlock [OF assms(2)]] by blast
qed

lemma settles_clear: "mbox_ok s \<Longrightarrow> sender s = Clearing \<Longrightarrow> settles s"
  by (rule settles_send [OF _ send_step.Clear]) (simp_all add: settles_unlock)

lemma settles_sending: "mbox_ok s \<Longrightarrow> sender s = Sending \<Longrightarrow> settles s"
  by (rule settles_send [OF _ send_step.Send]) (simp_all add: settles_clear)

lemma settles_raised: "mbox_ok s \<Longrightarrow> sender s = Polling \<Longrightarrow> state_man_vm s \<Longrightarrow> settles s"
  by (rule settles_send [OF _ send_step.Poll]) (simp_all add: settles_sending)

lemma settles_quiet:
  assumes ok: "mbox_ok s" and none: "\<And>p. writing (posters s p) = None"
  shows "settles s"
proof (cases "sender s")
  case Polling
  show ?thesis
  proof (cases "state_man_vm s")
    case False
    then have "\<not> locked s" "sent s = posted s"
      using ok none Polling by (auto simp: mbox_ok_def waiting_def)
    then show ?thesis by (rule settles_here)
  qed (use settles_raised [OF ok Polling] in blast)
qed (use ok settles_sending settles_clear settles_unlock in blast)+

text \<open>A thread that writes goes on to set the flag.\<close>

lemma settles_all:
  assumes ok: "mbox_ok s" and p: "posters s p = Wrote_All m"
  shows "settles s"
proof (rule settles_post [OF ok post_step.Raise [where m = m, OF p]])
  let ?s = "s\<lparr>state_man_vm := True, posted := posted s @ [m], posters := (posters s)(p := Idle)\<rparr>"
  have "sender ?s = Polling" using mbox_writing [OF ok, of p] p by simp
  then show "mbox_ok ?s \<Longrightarrow> settles ?s" using settles_raised [of ?s] by simp
qed

lemma settles_service: "mbox_ok s \<Longrightarrow> posters s p = Wrote_Service m \<Longrightarrow> settles s"
  by (rule settles_post [OF _ post_step.Write_Op], assumption+, rule settles_all [where p = p and m = m], simp_all)

lemma settles_port: "mbox_ok s \<Longrightarrow> posters s p = Wrote_Port m \<Longrightarrow> settles s"
  by (rule settles_post [OF _ post_step.Write_Service], assumption+, rule settles_service [where p = p and m = m], simp_all)

lemma settles_ip: "mbox_ok s \<Longrightarrow> posters s p = Wrote_Ip m \<Longrightarrow> settles s"
  by (rule settles_post [OF _ post_step.Write_Port], assumption+, rule settles_port [where p = p and m = m], simp_all)

lemma settles_none: "mbox_ok s \<Longrightarrow> posters s p = Wrote_None m \<Longrightarrow> settles s"
  by (rule settles_post [OF _ post_step.Write_Ip], assumption+, rule settles_ip [where p = p and m = m], simp_all)

lemma settles_writing: "mbox_ok s \<Longrightarrow> writing (posters s p) \<noteq> None \<Longrightarrow> settles s"
  by (cases "posters s p")
    (use settles_none settles_ip settles_port settles_service settles_all in auto)

lemma settles_ok: "mbox_ok s \<Longrightarrow> settles s"
  using settles_writing settles_quiet by blast

text \<open>
  C22. No deadlock: although a posting thread never unlocks the mutex it locked, every reachable
  state can go on to one in which the mutex is free and every request posted has been sent.
\<close>

theorem mailbox_settles:
  assumes "reachable s"
  shows "\<exists>t. step\<^sup>*\<^sup>* s t \<and> \<not> locked t \<and> sent t = posted t"
  using settles_ok [OF reachable_ok [OF assms]] by (simp add: settles_def)

section \<open>A failing \<open>pthread_create\<close>\<close>

text \<open>
  When \<open>accept_new_client\<close> cannot create the communication thread of a machine, it unlocks
  \<open>manage_vm_mutex\<close>, right after having set the flag.
\<close>

definition create_fails :: "mailbox \<Rightarrow> mailbox" where
  "create_fails s = s\<lparr>locked := False\<rparr>"

lemma post_then: "step\<^sup>*\<^sup>* r s \<Longrightarrow> post_step p s s' \<Longrightarrow> step\<^sup>*\<^sup>* r s'"
  by (meson rtranclp.rtrancl_into_rtrancl step_def)

lemma send_then: "step\<^sup>*\<^sup>* r s \<Longrightarrow> send_step s s' \<Longrightarrow> step\<^sup>*\<^sup>* r s'"
  by (meson rtranclp.rtrancl_into_rtrancl step_def)

lemma reachable_rtranclp: "step\<^sup>*\<^sup>* s t \<Longrightarrow> reachable s \<Longrightarrow> reachable t"
  by (induction rule: rtranclp_induct) (auto intro: reachable.Step)

lemma post_ip:
  assumes "posters s p = Idle" "\<not> locked s"
  shows "step\<^sup>*\<^sup>* s (s\<lparr>locked := True, virt_machine := (virt_machine s)\<lparr>req_ip := req_ip m\<rparr>,
    posters := (posters s)(p := Wrote_Ip m)\<rparr>)"
  using post_then [OF post_then [OF post_then [OF rtranclp.rtrancl_refl
        post_step.Request [OF assms(1), of m]] post_step.Lock [of _ p m]] post_step.Write_Ip [of _ p m]] assms(2)
  by simp

lemma all_fields:
  "(v :: virtual_machine)\<lparr>req_ip := req_ip m, req_port := req_port m, req_service := req_service m,
     req_op := req_op m\<rparr> = m"
  by simp

lemma post_all:
  assumes "posters s p = Idle" "\<not> locked s"
  shows "step\<^sup>*\<^sup>* s (s\<lparr>locked := True, virt_machine := m, state_man_vm := True, posted := posted s @ [m]\<rparr>)"
proof -
  have idle: "(posters s)(p := Idle) = posters s" using assms(1) by (simp add: fun_upd_idem)
  show ?thesis
    using post_then [OF post_then [OF post_then [OF post_then [OF post_ip [OF assms, of m]
        post_step.Write_Port [of _ p m]] post_step.Write_Service [of _ p m]]
        post_step.Write_Op [of _ p m]] post_step.Raise [of _ p m]]
    by (simp add: idle all_fields)
qed

text \<open>
  After that unlock the next thread locks the mutex and overwrites the structure before the
  sender has read it: the request of the first is lost and the load balancer receives a mixture,
  the address of the second machine with the port, the service and the operation of the first.
\<close>

theorem create_failure_mixes:
  fixes m1 m2 :: virtual_machine
  shows "\<exists>s t. reachable s \<and> step\<^sup>*\<^sup>* (create_fails s) t
    \<and> posted t = [m1] \<and> sent t = [m1\<lparr>req_ip := req_ip m2\<rparr>]"
proof -
  let ?s = "(init_mailbox m1)\<lparr>locked := True, virt_machine := m1, state_man_vm := True, posted := [m1]\<rparr>"
  have init: "posters (init_mailbox m1) 0 = Idle" "\<not> locked (init_mailbox m1)"
    "posted (init_mailbox m1) = []"
    by (simp_all add: init_mailbox_def)
  have s: "reachable ?s"
    using reachable_rtranclp [OF post_all [OF init(1,2), of m1] reachable.Init] init(3) by simp
  let ?u = "(create_fails ?s)\<lparr>locked := True, virt_machine := m1\<lparr>req_ip := req_ip m2\<rparr>,
    posters := (posters ?s)(1 := Wrote_Ip m2)\<rparr>"
  have u: "step\<^sup>*\<^sup>* (create_fails ?s) ?u"
    using post_ip [of "create_fails ?s" 1 m2] by (simp add: create_fails_def init_mailbox_def)
  have "step\<^sup>*\<^sup>* (create_fails ?s) (?u\<lparr>sent := [m1\<lparr>req_ip := req_ip m2\<rparr>], sender := Clearing\<rparr>)"
    using send_then [OF send_then [OF u send_step.Poll] send_step.Send]
    by (simp add: create_fails_def init_mailbox_def)
  moreover have "posted (?u\<lparr>sent := [m1\<lparr>req_ip := req_ip m2\<rparr>], sender := Clearing\<rparr>) = [m1]"
    by (simp add: create_fails_def)
  moreover have "sent (?u\<lparr>sent := [m1\<lparr>req_ip := req_ip m2\<rparr>], sender := Clearing\<rparr>) = [m1\<lparr>req_ip := req_ip m2\<rparr>]"
    by simp
  ultimately show ?thesis using s by blast
qed

section \<open>A concrete run\<close>

definition example_request :: virtual_machine where
  "example_request = \<lparr>req_ip = ''10.0.0.7'', req_port = request_port, req_service = 1, req_op = REJ\<rparr>"

definition example_mailbox :: mailbox where
  "example_mailbox = (init_mailbox example_request)\<lparr>locked := True, virt_machine := example_request,
     state_man_vm := True, posted := [example_request]\<rparr>"

lemma example_reachable: "reachable example_mailbox"
proof -
  have "posters (init_mailbox example_request) 0 = Idle" "\<not> locked (init_mailbox example_request)"
    "posted (init_mailbox example_request) = []"
    by (simp_all add: init_mailbox_def)
  then show ?thesis
    using reachable_rtranclp [OF post_all reachable.Init, of example_request 0 example_request]
    by (simp add: example_mailbox_def)
qed

theorem mailbox_fifo_witness:
  "prefix (sent example_mailbox) (posted example_mailbox)
    \<and> length (posted example_mailbox) \<le> length (sent example_mailbox) + 1
    \<and> (writing (posters example_mailbox 0) = None \<or> writing (posters example_mailbox 1) = None
        \<or> (0 :: nat) = 1)"
  by (rule mailbox_fifo [OF example_reachable])

theorem mailbox_settles_witness:
  "\<exists>t. step\<^sup>*\<^sup>* example_mailbox t \<and> \<not> locked t \<and> sent t = posted t"
  by (rule mailbox_settles [OF example_reachable])

end
