(* ===== verification/Sockhelp.thy ===== *)
theory Sockhelp
  imports Protocol C_Text "HOL-Library.Sublist"
begin

text \<open>
  The socket helpers (\<open>controller/sockhelp.c\<close>). The operating system is an argument: the answers
  it gives to the calls, in order. A function that runs out of answers is still waiting, which is
  the result \<open>None\<close>. What a function sends or closes is part of its result.
\<close>

datatype errno = EINTR | EWOULDBLOCK | Other_Errno nat

text \<open>The answer of \<open>read\<close> and \<open>recvfrom\<close>, and of \<open>write\<close> and \<open>sendto\<close>. No bytes is the end.\<close>

datatype read_answer = Got string | Read_Error errno

datatype write_answer = Wrote nat | Write_Error errno

definition NOT_AVAILABLE :: c_int where
  "NOT_AVAILABLE = - 71"

definition GLOBAL_CONTROLLER_PORT :: c_int where
  "GLOBAL_CONTROLLER_PORT = 4567"

section \<open>Reading\<close>

fun sock_read :: "read_answer list \<Rightarrow> nat \<Rightarrow> (c_int \<times> string \<times> read_answer list) option" where
  "sock_read [] cnt = None"
| "sock_read (Read_Error e # os) cnt =
     (if e = EINTR then sock_read os cnt
      else if e = EWOULDBLOCK then Some (NOT_AVAILABLE, [], os) else Some (- 1, [], os))"
| "sock_read (Got s # os) cnt = Some (of_nat (length (take cnt s)), take cnt s, os)"

text \<open>One datagram: what does not fit is dropped, as with \<open>recvfrom\<close>.\<close>

fun sock_read_udp :: "read_answer list \<Rightarrow> nat \<Rightarrow> (c_int \<times> string \<times> read_answer list) option" where
  "sock_read_udp [] cnt = None"
| "sock_read_udp (Read_Error EINTR # os) cnt = sock_read_udp os cnt"
| "sock_read_udp (Read_Error EWOULDBLOCK # os) cnt = Some (NOT_AVAILABLE, [], os)"
| "sock_read_udp (Read_Error (Other_Errno n) # os) cnt = Some (- 1, [], os)"
| "sock_read_udp (Got s # os) cnt = Some (of_nat (length (take cnt s)), take cnt s, os)"

section \<open>Writing\<close>

text \<open>
  The loop of \<open>sock_write\<close> and \<open>sock_write_udp\<close> with the data still to be sent and the pieces
  that each call has sent. The result is the failing return value, if there was one.
\<close>

fun write_loop :: "write_answer list \<Rightarrow> string \<Rightarrow> string list
  \<Rightarrow> (c_int option \<times> string list \<times> write_answer list) option"
where
  "write_loop os [] sent = Some (None, sent, os)"
| "write_loop [] (b # buf) sent = None"
| "write_loop (Write_Error e # os) (b # buf) sent =
     (if e = EINTR then write_loop os (b # buf) sent else Some (Some (- 1), sent, os))"
| "write_loop (Wrote n # os) (b # buf) sent =
     (if n = 0 then Some (Some 0, sent, os)
      else write_loop os (drop n (b # buf)) (sent @ [take n (b # buf)]))"

definition write_result :: "nat \<Rightarrow> c_int option \<Rightarrow> c_int" where
  "write_result cnt r = (case r of None \<Rightarrow> of_nat cnt | Some v \<Rightarrow> v)"

definition sock_write :: "write_answer list \<Rightarrow> string \<Rightarrow> (c_int \<times> string list \<times> write_answer list) option" where
  "sock_write os buf =
     map_option (\<lambda>(r, sent, os'). (write_result (length buf) r, sent, os')) (write_loop os buf [])"

text \<open>Every piece is a datagram of its own, for the controllers' port at \<open>ip\<close>.\<close>

record destination =
  sin_addr :: "32 word"
  sin_port :: "16 word"

definition sock_write_udp ::
  "(string \<Rightarrow> 32 word) \<Rightarrow> write_answer list \<Rightarrow> string \<Rightarrow> string
    \<Rightarrow> (c_int \<times> (destination \<times> string) list \<times> write_answer list) option"
where
  "sock_write_udp inet_addr os buf ip =
     (let receiver = \<lparr>sin_addr = inet_addr ip, sin_port = htons (ucast GLOBAL_CONTROLLER_PORT)\<rparr> in
      map_option (\<lambda>(r, sent, os'). (write_result (length buf) r, map (Pair receiver) sent, os'))
        (write_loop os buf []))"

text \<open>\<open>strlen\<close> stops at the first zero.\<close>

definition sock_puts :: "write_answer list \<Rightarrow> string \<Rightarrow> (c_int \<times> string list \<times> write_answer list) option" where
  "sock_puts os str = sock_write os (takeWhile (\<lambda>c. c \<noteq> char_of (0 :: nat)) str)"

section \<open>Lines\<close>

text \<open>
  \<open>sock_gets\<close> reads one byte at a time; the second component is what it has stored at \<open>str\<close>.
\<close>

fun gets_loop :: "read_answer list \<Rightarrow> nat \<Rightarrow> string \<Rightarrow> (c_int \<times> string \<times> read_answer list) option" where
  "gets_loop [] cnt stored = None"
| "gets_loop (Read_Error e # os) cnt stored = Some (- 1, stored, os)"
| "gets_loop (Got [] # os) cnt stored = Some (- 1, stored, os)"
| "gets_loop (Got (c # _) # os) cnt stored =
     (let stored' = (if length stored < cnt \<and> c \<noteq> char_of (10 :: nat) \<and> c \<noteq> char_of (13 :: nat)
                     then stored @ [c] else stored) in
      if c = char_of (10 :: nat)
      then Some (of_nat (length stored'), stored' @ (if 0 < cnt then [char_of (0 :: nat)] else []), os)
      else gets_loop os cnt stored')"

definition sock_gets :: "read_answer list \<Rightarrow> nat \<Rightarrow> (c_int \<times> string \<times> read_answer list) option" where
  "sock_gets os cnt = gets_loop os cnt []"

section \<open>Addresses\<close>

text \<open>
  The name service: \<open>getservbyname\<close>, \<open>inet_addr\<close> and \<open>gethostbyname\<close> (the first address).
\<close>

record names =
  getservbyname :: "string \<Rightarrow> string \<Rightarrow> c_int option"
  inet_addr :: "string \<Rightarrow> 32 word"
  gethostbyname :: "string \<Rightarrow> 32 word option"

text \<open>
  The argument is declared a pointer but is printed as an \<open>int\<close>. \<open>strtol\<close> reads what \<open>"%d"\<close> wrote:
  a number in decimal, since only zero starts with a zero.
\<close>

definition atoport :: "names \<Rightarrow> 64 word \<Rightarrow> string \<Rightarrow> c_int" where
  "atoport ns srv proto =
     (let service_name = show_int (sint (ucast srv :: c_int)) in
      case getservbyname ns service_name proto of
        Some s_port \<Rightarrow> s_port
      | None \<Rightarrow>
          (case scan_int service_name of
             None \<Rightarrow> - 1
           | Some (lport, errpos) \<Rightarrow>
               if errpos \<noteq> [] \<or> lport < 1 \<or> 65535 < lport then - 1
               else ucast (htons (word_of_int lport))))"

definition atoaddr :: "names \<Rightarrow> string \<Rightarrow> 32 word option" where
  "atoaddr ns address =
     (if inet_addr ns address \<noteq> - 1 then Some (inet_addr ns address) else gethostbyname ns address)"

datatype socket_type = SOCK_STREAM | SOCK_DGRAM | Other_Type nat

datatype action =
    Opened c_int
  | Connected c_int destination
  | Closed c_int
  | Bound c_int "16 word"
  | Listening c_int

text \<open>\<open>sock\<close> is the answer of \<open>socket\<close>, \<open>conn_ok\<close> tells whether \<open>connect\<close> succeeded.\<close>

definition make_connection ::
  "names \<Rightarrow> c_int \<Rightarrow> bool \<Rightarrow> 64 word \<Rightarrow> socket_type \<Rightarrow> string \<Rightarrow> c_int \<times> action list"
where
  "make_connection ns sock conn_ok srv type netaddress =
     (let port = (case type of SOCK_STREAM \<Rightarrow> atoport ns srv ''tcp''
                  | SOCK_DGRAM \<Rightarrow> atoport ns srv ''udp'' | Other_Type _ \<Rightarrow> - 1) in
      if port = - 1 then (- 1, [])
      else
        (case atoaddr ns netaddress of
           None \<Rightarrow> (- 1, [])
         | Some addr \<Rightarrow>
             (let address = \<lparr>sin_addr = addr, sin_port = ucast port\<rparr> in
              if type = SOCK_STREAM
              then if conn_ok then (sock, [Opened sock, Connected sock address]) else (- 1, [Opened sock])
              else (sock, [Opened sock]))))"

section \<open>A forking server\<close>

datatype fork_answer = Fork_Failed | In_Child | In_Parent

datatype accept_answer = Accepted c_int fork_answer | Accept_Error errno

text \<open>The loop of \<open>get_connection\<close>: the connection this process returns with, and what it closes.\<close>

fun accept_loop :: "c_int \<Rightarrow> accept_answer list \<Rightarrow> (c_int res \<times> action list) option" where
  "accept_loop ls [] = None"
| "accept_loop ls (Accept_Error e # os) =
     (if e \<noteq> EINTR then Some (Inl Exit_Failure, [Closed ls]) else accept_loop ls os)"
| "accept_loop ls (Accepted fd Fork_Failed # os) = map_option (\<lambda>(r, as). (r, Closed fd # as)) (accept_loop ls os)"
| "accept_loop ls (Accepted fd In_Child # os) = Some (Inr fd, [Closed ls])"
| "accept_loop ls (Accepted fd In_Parent # os) = map_option (\<lambda>(r, as). (r, Closed fd # as)) (accept_loop ls os)"

text \<open>\<open>ls\<close> and \<open>bound\<close> are the answers of \<open>socket\<close> and \<open>bind\<close>.\<close>

definition get_connection ::
  "c_int \<Rightarrow> bool \<Rightarrow> accept_answer list \<Rightarrow> socket_type \<Rightarrow> 16 word \<Rightarrow> (c_int res \<times> action list) option"
where
  "get_connection ls bound os type port =
     (if sint ls < 0 then Some (Inl Exit_Failure, [])
      else if \<not> bound then Some (Inl Exit_Failure, [Opened ls, Closed ls])
      else if type = SOCK_STREAM
      then map_option (\<lambda>(r, as). (r, [Opened ls, Bound ls port, Listening ls] @ as)) (accept_loop ls os)
      else Some (Inr ls, [Opened ls, Bound ls port]))"

section \<open>Everything is sent, in order\<close>

lemma write_loop_sent:
  "write_loop os buf sent = Some (r, sent', os') \<Longrightarrow>
   \<exists>new rest. sent' = sent @ new \<and> buf = concat new @ rest \<and> (r = None \<longleftrightarrow> rest = [])
     \<and> (r = None \<or> r = Some 0 \<or> r = Some (- 1))"
proof (induction os buf sent rule: write_loop.induct)
  case (4 n os b buf sent)
  show ?case
  proof (cases n)
    case (Suc k)
    then obtain new rest where "sent' = (sent @ [take n (b # buf)]) @ new" "drop n (b # buf) = concat new @ rest"
      "r = None \<longleftrightarrow> rest = []" "r = None \<or> r = Some 0 \<or> r = Some (- 1)"
      using 4 by auto
    then show ?thesis
      by (intro exI [of _ "take n (b # buf) # new"] exI [of _ rest]) (metis append.assoc append_Cons
          append_Nil append_take_drop_id concat.simps(2))
  qed (use 4 in auto)
qed (auto split: if_splits)

lemma write_loop_returns:
  "list_all (\<lambda>a. \<exists>n. a = Wrote (Suc n)) os \<Longrightarrow> length buf \<le> length os \<Longrightarrow>
   \<exists>sent' os'. write_loop os buf sent = Some (None, sent', os')"
  by (induction os buf sent rule: write_loop.induct) auto

lemma write_loop_all:
  "write_loop os buf sent = Some (r, sent', os') \<Longrightarrow> list_all (\<lambda>w. \<exists>n. w = Wrote (Suc n)) os \<Longrightarrow> r = None"
  by (induction os buf sent rule: write_loop.induct) auto

text \<open>
  What the programs rely on when they write to a stream: the pieces sent are the beginning of the
  data, and all of it when every call makes progress, of which as many as there are bytes are enough.
\<close>

locale stream_writer =
  fixes writer :: "write_answer list \<Rightarrow> string \<Rightarrow> (c_int \<times> string list \<times> write_answer list) option"
  assumes sent_prefix: "writer os buf = Some (r, sent, os') \<Longrightarrow> prefix (concat sent) buf"
    and sent_all: "list_all (\<lambda>w. \<exists>n. w = Wrote (Suc n)) os \<Longrightarrow> writer os buf = Some (r, sent, os') \<Longrightarrow> concat sent = buf"
    and returns: "list_all (\<lambda>w. \<exists>n. w = Wrote (Suc n)) os \<Longrightarrow> length buf \<le> length os \<Longrightarrow> writer os buf \<noteq> None"
begin

lemma delivered:
  "list_all (\<lambda>w. \<exists>n. w = Wrote (Suc n)) os \<Longrightarrow> length buf \<le> length os \<Longrightarrow>
   \<exists>r sent os'. writer os buf = Some (r, sent, os') \<and> concat sent = buf"
  using returns sent_all by fastforce

lemma sent_length: "writer os buf = Some (r, sent, os') \<Longrightarrow> length (concat sent) \<le> length buf"
  by (drule sent_prefix) (rule prefix_length_le)

end

interpretation stream: stream_writer sock_write
proof
  show "prefix (concat sent) buf" if "sock_write os buf = Some (r, sent, os')" for os buf r sent os'
    using that write_loop_sent [of os buf "[]"] by (auto simp: sock_write_def)
  show "concat sent = buf" if "list_all (\<lambda>w. \<exists>n. w = Wrote (Suc n)) os" "sock_write os buf = Some (r, sent, os')"
    for os buf r sent os'
    using that write_loop_sent [of os buf "[]"] write_loop_all [of os buf "[]"] by (fastforce simp: sock_write_def)
  show "sock_write os buf \<noteq> None" if "list_all (\<lambda>w. \<exists>n. w = Wrote (Suc n)) os" "length buf \<le> length os" for os buf
    using write_loop_returns [of os buf "[]"] that by (auto simp: sock_write_def)
qed

text \<open>
  C39. \<open>sock_write\<close> hides short and interrupted writes: whatever the calls of \<open>write\<close> answer, the
  pieces sent are the beginning of the data, in order; the function returns the length of the
  data after all of it was sent, and 0 or -1 with some of it unsent otherwise. As many answers as
  there are bytes are enough for it to return.
\<close>

theorem sock_write_all:
  "(\<forall>r sent os'. sock_write os buf = Some (r, sent, os') \<longrightarrow>
      r = of_nat (length buf) \<and> concat sent = buf
      \<or> (r = 0 \<or> r = - 1) \<and> strict_prefix (concat sent) buf)
   \<and> (list_all (\<lambda>a. \<exists>n. a = Wrote (Suc n)) os \<and> length buf \<le> length os \<longrightarrow>
      (\<exists>sent os'. sock_write os buf = Some (of_nat (length buf), sent, os')))"
proof (intro conjI allI impI)
  fix r sent os' assume "sock_write os buf = Some (r, sent, os')"
  then obtain q where q: "write_loop os buf [] = Some (q, sent, os')" "r = write_result (length buf) q"
    by (auto simp: sock_write_def)
  then obtain rest where "buf = concat sent @ rest" "q = None \<longleftrightarrow> rest = []"
    "q = None \<or> q = Some 0 \<or> q = Some (- 1)"
    using write_loop_sent [OF q(1)] by auto
  then show "r = of_nat (length buf) \<and> concat sent = buf
      \<or> (r = 0 \<or> r = - 1) \<and> strict_prefix (concat sent) buf"
    using q(2) by (auto simp: write_result_def strict_prefix_def)
next
  assume "list_all (\<lambda>a. \<exists>n. a = Wrote (Suc n)) os \<and> length buf \<le> length os"
  then obtain sent os' where "write_loop os buf [] = Some (None, sent, os')"
    using write_loop_returns by blast
  then show "\<exists>sent os'. sock_write os buf = Some (of_nat (length buf), sent, os')"
    by (auto simp: sock_write_def write_result_def)
qed

theorem sock_write_all_witness:
  "sock_write [Wrote 2, Write_Error EINTR, Wrote 5] ''hello'' = Some (5, [''he'', ''llo''], [])
   \<and> (\<exists>sent os'. sock_write (replicate 5 (Wrote 1)) ''hello'' = Some (of_nat (length ''hello''), sent, os'))"
proof
  show "sock_write [Wrote 2, Write_Error EINTR, Wrote 5] ''hello'' = Some (5, [''he'', ''llo''], [])"
    by (simp add: sock_write_def write_result_def)
  show "\<exists>sent os'. sock_write (replicate 5 (Wrote 1)) ''hello'' = Some (of_nat (length ''hello''), sent, os')"
    using sock_write_all [of "replicate 5 (Wrote 1)" "''hello''"] by (simp add: list_all_iff)
qed

section \<open>Reading a line\<close>

lemma gets_loop_line:
  assumes "char_of (10 :: nat) \<notin> set l" "length stored \<le> cnt"
  shows "gets_loop (map (\<lambda>c. Got [c]) (l @ [char_of (10 :: nat)]) @ os) cnt stored
    = (let s = take cnt (stored @ filter (\<lambda>c. c \<noteq> char_of (13 :: nat)) l) in
       Some (of_nat (length s), s @ (if 0 < cnt then [char_of (0 :: nat)] else []), os))"
  using assms
proof (induction l arbitrary: stored)
  case Nil
  then show ?case by simp
next
  case (Cons c l)
  have c: "c \<noteq> char_of (10 :: nat)" using Cons.prems(1) by auto
  show ?case
  proof (cases "length stored < cnt \<and> c \<noteq> char_of (13 :: nat)")
    case True
    then show ?thesis using Cons.IH [of "stored @ [c]"] Cons.prems c by (simp add: Let_def)
  next
    case False
    then show ?thesis using Cons.IH [of stored] Cons.prems c by (auto simp: Let_def)
  qed
qed

text \<open>
  \<open>sock_gets\<close> stores the line without carriage returns, cut to \<open>count\<close> bytes, and a zero
  behind it: a line of \<open>count\<close> bytes or more writes \<open>count + 1\<close> bytes, one more than the buffer
  it was given has.
\<close>

theorem sock_gets_line:
  assumes "char_of (10 :: nat) \<notin> set l" "0 < cnt"
    and "line = filter (\<lambda>c. c \<noteq> char_of (13 :: nat)) l"
  shows "sock_gets (map (\<lambda>c. Got [c]) (l @ [char_of (10 :: nat)]) @ os) cnt
      = Some (of_nat (min cnt (length line)), take cnt line @ [char_of (0 :: nat)], os)
    \<and> (cnt \<le> length line \<longrightarrow> length (take cnt line @ [char_of (0 :: nat)]) = cnt + 1)"
  using gets_loop_line [OF assms(1), of "[]" cnt os] assms(2,3)
  by (simp add: sock_gets_def Let_def min.commute)

theorem sock_gets_line_witness:
  "sock_gets (map (\<lambda>c. Got [c]) (''abcd'' @ [char_of (10 :: nat)])) 4
    = Some (4, ''abcd'' @ [char_of (0 :: nat)], [])"
proof -
  have c: "char_of (10 :: nat) \<notin> set ''abcd''" "filter (\<lambda>c. c \<noteq> char_of (13 :: nat)) ''abcd'' = ''abcd''"
    by code_simp+
  show ?thesis using sock_gets_line [OF c(1), of 4 "''abcd''" "[]"] c(2) by simp
qed

end
