(* ===== verification/Threads.thy ===== *)
theory Threads
  imports A2PM_Prelude
begin

unbundle bit_operations_syntax

text \<open>
  Atomic operations (\<open>controller/atomic.c\<close>) and the creation of threads (\<open>controller/thread.c\<close>).
  An atomic operation is a function from the old value of the word to the new one and the
  result: the instructions are locked, so nothing comes between. Thread creation is a step
  relation in which every access of shared memory is a step of its own.
\<close>

section \<open>Atomic operations\<close>

text \<open>\<open>lock cmpxchg\<close>, \<open>lock bts\<close>, \<open>lock btr\<close> and the arithmetic instructions on 32 bits.\<close>

definition iCAS :: "c_int \<Rightarrow> c_int \<Rightarrow> c_int \<Rightarrow> c_int \<times> bool" where
  "iCAS v oldVal newVal = (if v = oldVal then (newVal, True) else (v, False))"

definition atomic_test_and_set :: "c_int \<Rightarrow> c_int \<times> bool" where
  "atomic_test_and_set b = (b OR 1, \<not> bit b 0)"

definition atomic_test_and_reset :: "c_int \<Rightarrow> c_int \<times> bool" where
  "atomic_test_and_reset b = (b AND NOT 1, bit b 0)"

definition atomic_add :: "c_int \<Rightarrow> c_int \<Rightarrow> c_int" where
  "atomic_add v i = v + i"

definition atomic_sub :: "c_int \<Rightarrow> c_int \<Rightarrow> c_int" where
  "atomic_sub v i = v - i"

definition atomic_inc :: "c_int \<Rightarrow> c_int" where
  "atomic_inc v = v + 1"

definition atomic_dec :: "c_int \<Rightarrow> c_int" where
  "atomic_dec v = v - 1"

definition atomic_inc_and_test :: "c_int \<Rightarrow> c_int \<times> bool" where
  "atomic_inc_and_test v = (v + 1, v + 1 = 0)"

text \<open>One pass of the loop of \<open>spin_lock\<close>: \<open>xchg\<close> with 1; the lock is taken when it was 0.\<close>

definition spin_lock_pass :: "c_int \<Rightarrow> c_int \<times> bool" where
  "spin_lock_pass lock = (1, lock = 0)"

definition spin_trylock :: "c_int \<Rightarrow> c_int \<times> bool" where
  "spin_trylock lock = atomic_test_and_set lock"

definition spin_unlock :: "c_int \<Rightarrow> c_int" where
  "spin_unlock lock = 0"

lemma bit0_word: "v \<in> {0, 1} \<Longrightarrow> bit (v :: c_int) 0 \<longleftrightarrow> v = 1"
  by (auto simp: bit_0)

section \<open>Mutual exclusion by a spinlock\<close>

record spin =
  lock :: c_int
  owners :: "nat set"

inductive spin_step :: "spin \<Rightarrow> spin \<Rightarrow> bool" where
  Spin_Lock: "spin_lock_pass (lock s) = (v, True) \<Longrightarrow> p \<notin> owners s \<Longrightarrow>
    spin_step s (s\<lparr>lock := v, owners := insert p (owners s)\<rparr>)"
| Spin_Fail: "spin_lock_pass (lock s) = (v, False) \<Longrightarrow> p \<notin> owners s \<Longrightarrow> spin_step s (s\<lparr>lock := v\<rparr>)"
| Try_Lock: "spin_trylock (lock s) = (v, True) \<Longrightarrow> p \<notin> owners s \<Longrightarrow>
    spin_step s (s\<lparr>lock := v, owners := insert p (owners s)\<rparr>)"
| Try_Fail: "spin_trylock (lock s) = (v, False) \<Longrightarrow> p \<notin> owners s \<Longrightarrow> spin_step s (s\<lparr>lock := v\<rparr>)"
| Unlock: "p \<in> owners s \<Longrightarrow> spin_step s (s\<lparr>lock := spin_unlock (lock s), owners := owners s - {p}\<rparr>)"

inductive_cases spin_stepE: "spin_step s s'"

definition spinlock_init :: spin where
  "spinlock_init = \<lparr>lock = 0, owners = {}\<rparr>"

definition spin_ok :: "spin \<Rightarrow> bool" where
  "spin_ok s \<longleftrightarrow> (lock s = 0 \<and> owners s = {}) \<or> (\<exists>p. lock s = 1 \<and> owners s = {p})"

lemma spin_results:
  "spin_lock_pass 0 = (1, True)" "spin_lock_pass 1 = (1, False)"
  "spin_trylock 0 = (1, True)" "spin_trylock 1 = (1, False)"
  by (simp_all add: spin_lock_pass_def spin_trylock_def atomic_test_and_set_def)

lemma spin_ok_step: "spin_step s s' \<Longrightarrow> spin_ok s \<Longrightarrow> spin_ok s'"
proof -
  assume step: "spin_step s s'" and "spin_ok s"
  then consider "lock s = 0" "owners s = {}" | q where "lock s = 1" "owners s = {q}"
    by (auto simp: spin_ok_def)
  then show "spin_ok s'"
  proof cases
    case 1
    with step show ?thesis by (elim spin_stepE) (simp_all add: spin_ok_def spin_results)
  next
    case 2
    with step show ?thesis by (elim spin_stepE) (simp_all add: spin_ok_def spin_results spin_unlock_def)
  qed
qed

interpretation spinlock: safe_system "\<lambda>s. s = spinlock_init" spin_step spin_ok
  by unfold_locales (auto simp: spin_ok_def spinlock_init_def dest: spin_ok_step)

text \<open>
  Spinlocks exclude: however threads mix \<open>spin_lock\<close>, \<open>spin_trylock\<close> and \<open>spin_unlock\<close>, at
  most one owns the lock, and the word is 1 exactly while one does.
\<close>

theorem spin_mutex:
  assumes "spin_step\<^sup>*\<^sup>* spinlock_init s"
  shows "(p \<in> owners s \<longrightarrow> q \<in> owners s \<longrightarrow> p = q) \<and> lock s = (if owners s = {} then 0 else 1)"
proof -
  have "spin_ok s" by (rule spinlock.always_inv [OF refl assms])
  then show ?thesis by (auto simp: spin_ok_def)
qed

theorem spin_mutex_witness:
  "\<exists>s. spin_step\<^sup>*\<^sup>* spinlock_init s \<and> owners s = {3} \<and> lock s = (if owners s = {} then 0 else 1)"
proof -
  let ?s = "spinlock_init\<lparr>lock := 1, owners := insert 3 (owners spinlock_init)\<rparr>"
  have "spin_step spinlock_init ?s"
    by (rule spin_step.Try_Lock) (simp_all add: spinlock_init_def spin_results)
  then have r: "spin_step\<^sup>*\<^sup>* spinlock_init ?s" by blast
  show ?thesis using r spin_mutex [OF r, of 3 3] by (intro exI [of _ ?s]) (simp add: spinlock_init_def)
qed

section \<open>Creation of threads\<close>

text \<open>
  Where a thread is: not created, at the start of the loop of \<open>__helper_create_thread\<close>, with
  the counter loaded, with \<open>tid\<close> assigned, with the compare-and-swap won, in the start routine,
  or done.
\<close>

datatype position = Unborn | Start | Loaded c_int | Tagged c_int | Won | Running | Done

text \<open>
  \<open>arg p\<close> is the address of the block that \<open>create_threads\<close> allocated for the thread \<open>p\<close>, \<open>live\<close>
  the set of blocks that are allocated. \<open>winners\<close> records the threads in the order in which
  their compare-and-swap succeeded.
\<close>

record threads =
  thread_counter :: c_int
  pos :: "nat \<Rightarrow> position"
  tid :: "nat \<Rightarrow> c_int"
  arg :: "nat \<Rightarrow> nat"
  live :: "nat set"
  broken :: "fault option"
  winners :: "nat list"

text \<open>
  \<open>create_threads(n, ...)\<close> allocates one block for the \<open>n\<close> threads it creates. The outcomes of
  \<open>pthread_create\<close> are a list; the result is the last one, uninitialised for no threads.
\<close>

definition create_threads :: "nat \<Rightarrow> nat list \<Rightarrow> c_int list \<Rightarrow> threads \<Rightarrow> c_int res \<times> threads" where
  "create_threads a ps nums s =
     (if nums = [] then Inl Uninit_Read else Inr (last nums),
      let new = map fst (filter (\<lambda>(p, num). num = 0) (zip ps nums)) in
      s\<lparr>live := insert a (live s), pos := (\<lambda>p. if p \<in> set new then Start else pos s p),
        arg := (\<lambda>p. if p \<in> set new then a else arg s p)\<rparr>)"

inductive thread_step :: "nat \<Rightarrow> threads \<Rightarrow> threads \<Rightarrow> bool" for n :: nat where
  Create: "a \<notin> live s \<Longrightarrow> length ps \<le> n \<Longrightarrow> length nums = length ps \<Longrightarrow> distinct ps \<Longrightarrow>
    (\<forall>p \<in> set ps. pos s p = Unborn) \<Longrightarrow> thread_step n s (snd (create_threads a ps nums s))"
| Load: "pos s p = Start \<Longrightarrow> thread_step n s (s\<lparr>pos := (pos s)(p := Loaded (thread_counter s))\<rparr>)"
| Tag: "pos s p = Loaded old \<Longrightarrow>
    thread_step n s (s\<lparr>tid := (tid s)(p := old + 1), pos := (pos s)(p := Tagged old)\<rparr>)"
| Cas_Ok: "pos s p = Tagged old \<Longrightarrow> iCAS (thread_counter s) old (tid s p) = (v, True) \<Longrightarrow>
    thread_step n s (s\<lparr>thread_counter := v, pos := (pos s)(p := Won), winners := winners s @ [p]\<rparr>)"
| Cas_Fail: "pos s p = Tagged old \<Longrightarrow> iCAS (thread_counter s) old (tid s p) = (v, False) \<Longrightarrow>
    thread_step n s (s\<lparr>thread_counter := v, pos := (pos s)(p := Start)\<rparr>)"
| Enter: "pos s p = Won \<Longrightarrow>
    thread_step n s (if arg s p \<in> live s then s\<lparr>pos := (pos s)(p := Running)\<rparr>
                     else s\<lparr>pos := (pos s)(p := Done), broken := Some Use_After_Free\<rparr>)"
| Finish: "pos s p = Running \<Longrightarrow>
    thread_step n s (if arg s p \<in> live s
                     then s\<lparr>pos := (pos s)(p := Done), live := live s - {arg s p}\<rparr>
                     else s\<lparr>pos := (pos s)(p := Done), broken := Some Double_Free\<rparr>)"

inductive_cases thread_stepE: "thread_step n s s'"

definition no_threads :: threads where
  "no_threads = \<lparr>thread_counter = 0, pos = (\<lambda>_. Unborn), tid = (\<lambda>_. 0), arg = (\<lambda>_. 0), live = {},
     broken = None, winners = []\<rparr>"

section \<open>Thread numbers are unique\<close>

definition named :: "position \<Rightarrow> bool" where
  "named x \<longleftrightarrow> x \<in> {Won, Running, Done}"

lemma named_simps [simp]:
  "\<not> named Unborn" "\<not> named Start" "\<not> named (Loaded v)" "\<not> named (Tagged v)" "named Won" "named Running" "named Done"
  by (simp_all add: named_def)

definition tids_ok :: "threads \<Rightarrow> bool" where
  "tids_ok s \<longleftrightarrow> thread_counter s = of_nat (length (winners s)) \<and> distinct (winners s) \<and>
     (\<forall>p. p \<in> set (winners s) \<longleftrightarrow> named (pos s p)) \<and>
     (\<forall>p old. pos s p = Tagged old \<longrightarrow> tid s p = old + 1) \<and>
     map (tid s) (winners s) = map of_nat [1..<length (winners s) + 1]"

lemma tids_ok_pos:
  assumes "tids_ok s" "\<And>q. named (f q) = named (pos s q)" "\<And>q old. f q = Tagged old \<Longrightarrow> pos s q = Tagged old"
  shows "tids_ok (s\<lparr>pos := f\<rparr>)"
  using assms by (auto simp: tids_ok_def)

lemma tids_ok_frame:
  "tids_ok s \<Longrightarrow> pos s' = pos s \<Longrightarrow> tid s' = tid s \<Longrightarrow> thread_counter s' = thread_counter s \<Longrightarrow>
   winners s' = winners s \<Longrightarrow> tids_ok s'"
  by (simp add: tids_ok_def)

lemma tids_ok_create:
  assumes "tids_ok s" "\<forall>p \<in> set ps. pos s p = Unborn"
  shows "tids_ok (snd (create_threads a ps nums s))"
proof -
  let ?new = "map fst (filter (\<lambda>(p, num). num = 0) (zip ps nums))"
  have new: "pos s p = Unborn" if "p \<in> set ?new" for p
    using that assms(2) by (auto dest: set_zip_leftD)
  have "tids_ok (s\<lparr>pos := (\<lambda>p. if p \<in> set ?new then Start else pos s p)\<rparr>)"
    by (rule tids_ok_pos [OF assms(1)]) (use new in \<open>auto split: if_splits\<close>)
  then show ?thesis by (rule tids_ok_frame) (simp_all add: create_threads_def Let_def)
qed

lemma tids_ok_tag:
  assumes ok: "tids_ok s" and p: "pos s p = Loaded old"
  shows "tids_ok (s\<lparr>tid := (tid s)(p := old + 1), pos := (pos s)(p := Tagged old)\<rparr>)"
proof -
  have "p \<notin> set (winners s)" using ok p by (simp add: tids_ok_def)
  then have "map ((tid s)(p := old + 1)) (winners s) = map (tid s) (winners s)" by simp
  then show ?thesis using ok p by (auto simp: tids_ok_def)
qed

lemma tids_ok_cas:
  assumes ok: "tids_ok s" and p: "pos s p = Tagged old" "iCAS (thread_counter s) old (tid s p) = (v, True)"
  shows "tids_ok (s\<lparr>thread_counter := v, pos := (pos s)(p := Won), winners := winners s @ [p]\<rparr>)"
proof -
  have "p \<notin> set (winners s)" using ok p(1) by (simp add: tids_ok_def)
  moreover have v: "v = tid s p" "tid s p = thread_counter s + 1"
    using ok p by (auto simp: iCAS_def tids_ok_def split: if_splits)
  moreover have "thread_counter s = of_nat (length (winners s))" using ok by (simp add: tids_ok_def)
  ultimately show ?thesis using ok by (auto simp: tids_ok_def add.commute)
qed

lemma tids_ok_step: "thread_step n s s' \<Longrightarrow> tids_ok s \<Longrightarrow> tids_ok s'"
proof (erule thread_stepE)
  fix a ps nums assume "tids_ok s" "\<forall>p \<in> set ps. pos s p = Unborn" "s' = snd (create_threads a ps nums s)"
  then show "tids_ok s'" using tids_ok_create by blast
next
  fix p old assume "tids_ok s" "pos s p = Loaded old"
    "s' = s\<lparr>tid := (tid s)(p := old + 1), pos := (pos s)(p := Tagged old)\<rparr>"
  then show "tids_ok s'" using tids_ok_tag by blast
next
  fix p old v assume "tids_ok s" "pos s p = Tagged old" "iCAS (thread_counter s) old (tid s p) = (v, True)"
    "s' = s\<lparr>thread_counter := v, pos := (pos s)(p := Won), winners := winners s @ [p]\<rparr>"
  then show "tids_ok s'" using tids_ok_cas by blast
next
  fix p old v assume a: "tids_ok s" "pos s p = Tagged old" "iCAS (thread_counter s) old (tid s p) = (v, False)"
    "s' = s\<lparr>thread_counter := v, pos := (pos s)(p := Start)\<rparr>"
  have "v = thread_counter s" using a(3) by (auto simp: iCAS_def split: if_splits)
  moreover have "tids_ok (s\<lparr>pos := (pos s)(p := Start)\<rparr>)"
    by (rule tids_ok_pos [OF a(1)]) (use a(2) in \<open>auto split: if_splits\<close>)
  ultimately show "tids_ok s'" unfolding a(4) by (auto intro: tids_ok_frame)
next
  fix p assume a: "tids_ok s" "pos s p = Start" "s' = s\<lparr>pos := (pos s)(p := Loaded (thread_counter s))\<rparr>"
  show "tids_ok s'" unfolding a(3) by (rule tids_ok_pos [OF a(1)]) (use a(2) in \<open>auto split: if_splits\<close>)
next
  fix p assume a: "tids_ok s" "pos s p = Won"
    "s' = (if arg s p \<in> live s then s\<lparr>pos := (pos s)(p := Running)\<rparr>
           else s\<lparr>pos := (pos s)(p := Done), broken := Some Use_After_Free\<rparr>)"
  have x: "tids_ok (s\<lparr>pos := (pos s)(p := x)\<rparr>)" if "x = Running \<or> x = Done" for x
    by (rule tids_ok_pos [OF a(1)]) (use a(2) that in \<open>auto split: if_splits\<close>)
  then have "tids_ok (s\<lparr>pos := (pos s)(p := Running)\<rparr>)" "tids_ok (s\<lparr>pos := (pos s)(p := Done)\<rparr>)" by simp_all
  then show "tids_ok s'" unfolding a(3) using tids_ok_frame [OF x [of Done]] by simp
next
  fix p assume a: "tids_ok s" "pos s p = Running"
    "s' = (if arg s p \<in> live s then s\<lparr>pos := (pos s)(p := Done), live := live s - {arg s p}\<rparr>
           else s\<lparr>pos := (pos s)(p := Done), broken := Some Double_Free\<rparr>)"
  have "tids_ok (s\<lparr>pos := (pos s)(p := Done)\<rparr>)"
    by (rule tids_ok_pos [OF a(1)]) (use a(2) in \<open>auto split: if_splits\<close>)
  then show "tids_ok s'" unfolding a(3) using tids_ok_frame by simp
qed

interpretation tids: safe_system "\<lambda>s. s = no_threads" "thread_step n" tids_ok for n
  by unfold_locales (simp add: tids_ok_def no_threads_def, rule tids_ok_step)

lemmas tids_ok_reachable = tids.always_inv [OF refl]

lemma of_nat_upt_distinct: "k < 2 ^ 32 \<Longrightarrow> distinct (map of_nat [1..<k + 1] :: c_int list)"
  by (auto simp: distinct_map inj_on_def word_of_nat_eq_iff take_bit_nat_eq_self)

text \<open>
  C31. Thread numbers are unique. In every interleaving of the lock-free loops, while fewer than
  \<open>2 ^ 32\<close> threads were created, two threads past the loop have different \<open>tid\<close>s, and the
  numbers handed out are exactly 1 to their count, in the order of the compare-and-swaps.
\<close>

theorem tid_unique:
  assumes "(thread_step n)\<^sup>*\<^sup>* no_threads s" "length (winners s) < 2 ^ 32"
  shows "(named (pos s p) \<longrightarrow> named (pos s q) \<longrightarrow> tid s p = tid s q \<longrightarrow> p = q)
    \<and> map (tid s) (winners s) = map of_nat [1..<length (winners s) + 1]"
proof -
  have ok: "tids_ok s" using assms(1) by (rule tids_ok_reachable)
  have m: "map (tid s) (winners s) = map of_nat [1..<length (winners s) + 1]" using ok by (simp add: tids_ok_def)
  have "inj_on (tid s) (set (winners s))"
    using of_nat_upt_distinct [OF assms(2)] unfolding m [symmetric] by (simp add: distinct_map)
  moreover have "named (pos s r) \<longleftrightarrow> r \<in> set (winners s)" for r using ok by (simp add: tids_ok_def)
  ultimately show ?thesis using m by (auto dest: inj_onD)
qed

text \<open>A thread that runs alone gets its number: the loop is lock-free.\<close>

lemma solo_wins:
  assumes "tids_ok s" "pos s p = Start"
  shows "\<exists>s'. (thread_step n)\<^sup>*\<^sup>* s s' \<and> pos s' p = Won \<and> tid s' p = thread_counter s + 1"
proof -
  let ?s1 = "s\<lparr>pos := (pos s)(p := Loaded (thread_counter s))\<rparr>"
  let ?s2 = "?s1\<lparr>tid := (tid ?s1)(p := thread_counter s + 1), pos := (pos ?s1)(p := Tagged (thread_counter s))\<rparr>"
  let ?s3 = "?s2\<lparr>thread_counter := thread_counter s + 1, pos := (pos ?s2)(p := Won), winners := winners ?s2 @ [p]\<rparr>"
  have "thread_step n s ?s1" by (rule thread_step.Load [OF assms(2)])
  moreover have "thread_step n ?s1 ?s2" by (rule thread_step.Tag) simp
  moreover have "thread_step n ?s2 ?s3" by (rule thread_step.Cas_Ok) (simp_all add: iCAS_def)
  ultimately have "(thread_step n)\<^sup>*\<^sup>* s ?s3"
    by (meson converse_rtranclp_into_rtranclp rtranclp.rtrancl_refl)
  then show ?thesis by (intro exI [of _ ?s3]) simp
qed

section \<open>One block for each thread\<close>

text \<open>\<open>using s p\<close>: the thread still needs its block.\<close>

definition needs :: "threads \<Rightarrow> nat \<Rightarrow> bool" where
  "needs s p \<longleftrightarrow> pos s p \<notin> {Unborn, Done}"

definition blocks_ok :: "threads \<Rightarrow> bool" where
  "blocks_ok s \<longleftrightarrow> broken s = None \<and> (\<forall>p. needs s p \<longrightarrow> arg s p \<in> live s) \<and>
     (\<forall>p q. needs s p \<longrightarrow> needs s q \<longrightarrow> arg s p = arg s q \<longrightarrow> p = q)"

lemma blocks_ok_pos:
  assumes "blocks_ok s" "\<And>q. (f q \<notin> {Unborn, Done}) = needs s q"
  shows "blocks_ok (s\<lparr>pos := f\<rparr>)"
  using assms by (simp add: blocks_ok_def needs_def)

lemma blocks_ok_frame:
  "blocks_ok s \<Longrightarrow> pos s' = pos s \<Longrightarrow> arg s' = arg s \<Longrightarrow> live s' = live s \<Longrightarrow> broken s' = broken s \<Longrightarrow> blocks_ok s'"
  by (simp add: blocks_ok_def needs_def)

lemma blocks_ok_create:
  assumes "blocks_ok s" "a \<notin> live s" "length ps \<le> 1" "\<forall>p \<in> set ps. pos s p = Unborn" "length nums = length ps"
  shows "blocks_ok (snd (create_threads a ps nums s))"
proof -
  define new where "new = map fst (filter (\<lambda>(p, num). num = 0) (zip ps nums))"
  have one: "p = q" if "p \<in> set new" "q \<in> set new" for p q
  proof -
    have "length new \<le> 1"
      using assms(3,5) length_filter_le [of "\<lambda>(p, num). num = 0" "zip ps nums"] by (simp add: new_def)
    then show ?thesis using that by (cases new) auto
  qed
  have "snd (create_threads a ps nums s) = s\<lparr>live := insert a (live s), pos := (\<lambda>p. if p \<in> set new then Start else pos s p),
        arg := (\<lambda>p. if p \<in> set new then a else arg s p)\<rparr>"
    by (simp add: create_threads_def new_def Let_def)
  moreover have "blocks_ok \<dots>"
    using assms(1,2) one by (auto simp: blocks_ok_def needs_def split: if_splits)
  ultimately show ?thesis by simp
qed

lemma blocks_ok_finish:
  assumes "blocks_ok s" "pos s p = Running"
  shows "blocks_ok (s\<lparr>pos := (pos s)(p := Done), live := live s - {arg s p}\<rparr>)"
  using assms by (auto simp: blocks_ok_def needs_def split: if_splits)

lemma blocks_ok_step:
  assumes "thread_step 1 s s'" "blocks_ok s"
  shows "blocks_ok s'"
  using assms(1)
proof cases
  case (Create a ps nums)
  then show ?thesis using blocks_ok_create [OF assms(2), of a ps nums] by simp
next
  case (Load p)
  show ?thesis unfolding Load(1) by (rule blocks_ok_pos [OF assms(2)]) (simp add: Load needs_def)
next
  case (Tag p old)
  have "blocks_ok (s\<lparr>pos := (pos s)(p := Tagged old)\<rparr>)"
    by (rule blocks_ok_pos [OF assms(2)]) (simp add: Tag needs_def)
  then show ?thesis unfolding Tag(1) by (rule blocks_ok_frame) simp_all
next
  case (Cas_Ok p old v)
  have "blocks_ok (s\<lparr>pos := (pos s)(p := Won)\<rparr>)"
    by (rule blocks_ok_pos [OF assms(2)]) (simp add: Cas_Ok needs_def)
  then show ?thesis unfolding Cas_Ok(1) by (rule blocks_ok_frame) simp_all
next
  case (Cas_Fail p old v)
  have "blocks_ok (s\<lparr>pos := (pos s)(p := Start)\<rparr>)"
    by (rule blocks_ok_pos [OF assms(2)]) (simp add: Cas_Fail needs_def)
  then show ?thesis unfolding Cas_Fail(1) by (rule blocks_ok_frame) simp_all
next
  case (Enter p)
  have "arg s p \<in> live s" using assms(2) Enter(2) by (simp add: blocks_ok_def needs_def)
  moreover have "blocks_ok (s\<lparr>pos := (pos s)(p := Running)\<rparr>)"
    by (rule blocks_ok_pos [OF assms(2)]) (simp add: Enter needs_def)
  ultimately show ?thesis unfolding Enter(1) by simp
next
  case (Finish p)
  have "arg s p \<in> live s" using assms(2) Finish(2) by (simp add: blocks_ok_def needs_def)
  then show ?thesis unfolding Finish(1) using blocks_ok_finish [OF assms(2) Finish(2)] by simp
qed

interpretation blocks: safe_system "\<lambda>s. s = no_threads" "thread_step 1" blocks_ok
  by unfold_locales (simp add: blocks_ok_def needs_def no_threads_def, rule blocks_ok_step)

lemmas blocks_ok_reachable = blocks.always_inv [OF refl]

section \<open>Several threads with one block\<close>

text \<open>The steps of one thread from its creation on, when nothing interferes.\<close>

lemma step_then: "(thread_step n)\<^sup>*\<^sup>* r s \<Longrightarrow> thread_step n s s' \<Longrightarrow> (thread_step n)\<^sup>*\<^sup>* r s'"
  by (rule rtranclp.rtrancl_into_rtrancl)

lemma one_step: "thread_step n s s' \<Longrightarrow> (thread_step n)\<^sup>*\<^sup>* s s'"
  by blast

lemma run_to_end:
  assumes "pos s p = Start" "arg s p \<in> live s"
  shows "\<exists>s'. (thread_step n)\<^sup>*\<^sup>* s s' \<and> live s' = live s - {arg s p} \<and> pos s' = (pos s)(p := Done)
    \<and> arg s' = arg s \<and> broken s' = broken s"
proof -
  let ?c = "thread_counter s"
  let ?s1 = "s\<lparr>pos := (pos s)(p := Loaded ?c)\<rparr>"
  let ?s2 = "?s1\<lparr>tid := (tid ?s1)(p := ?c + 1), pos := (pos ?s1)(p := Tagged ?c)\<rparr>"
  let ?s3 = "?s2\<lparr>thread_counter := ?c + 1, pos := (pos ?s2)(p := Won), winners := winners ?s2 @ [p]\<rparr>"
  let ?s4 = "?s3\<lparr>pos := (pos ?s3)(p := Running)\<rparr>"
  let ?s5 = "?s4\<lparr>pos := (pos ?s4)(p := Done), live := live s - {arg s p}\<rparr>"
  have 1: "thread_step n s ?s1" by (rule thread_step.Load [OF assms(1)])
  have 2: "thread_step n ?s1 ?s2" by (rule thread_step.Tag) simp
  have 3: "thread_step n ?s2 ?s3" by (rule thread_step.Cas_Ok) (simp_all add: iCAS_def)
  have 4: "thread_step n ?s3 ?s4" using thread_step.Enter [of ?s3 p n] assms(2) by simp
  have 5: "thread_step n ?s4 ?s5" using thread_step.Finish [of ?s4 p n] assms(2) by simp
  have "(thread_step n)\<^sup>*\<^sup>* s ?s5"
    by (rule step_then [OF step_then [OF step_then [OF step_then [OF one_step [OF 1] 2] 3] 4] 5])
  then show ?thesis by (intro exI [of _ ?s5]) simp
qed

lemma run_to_won:
  assumes "pos s p = Start"
  shows "\<exists>s'. (thread_step n)\<^sup>*\<^sup>* s s' \<and> live s' = live s \<and> pos s' = (pos s)(p := Won)
    \<and> arg s' = arg s \<and> broken s' = broken s \<and> winners s' = winners s @ [p]"
proof -
  let ?c = "thread_counter s"
  let ?s1 = "s\<lparr>pos := (pos s)(p := Loaded ?c)\<rparr>"
  let ?s2 = "?s1\<lparr>tid := (tid ?s1)(p := ?c + 1), pos := (pos ?s1)(p := Tagged ?c)\<rparr>"
  let ?s3 = "?s2\<lparr>thread_counter := ?c + 1, pos := (pos ?s2)(p := Won), winners := winners ?s2 @ [p]\<rparr>"
  have 1: "thread_step n s ?s1" by (rule thread_step.Load [OF assms(1)])
  have 2: "thread_step n ?s1 ?s2" by (rule thread_step.Tag) simp
  have 3: "thread_step n ?s2 ?s3" by (rule thread_step.Cas_Ok) (simp_all add: iCAS_def)
  have "(thread_step n)\<^sup>*\<^sup>* s ?s3"
    by (rule step_then [OF step_then [OF one_step [OF 1] 2] 3])
  then show ?thesis by (intro exI [of _ ?s3]) simp
qed

text \<open>
  The block that \<open>create_threads\<close> allocates. With one thread for each call, as the program
  uses it, no thread reads or frees a freed block. With two threads for one call, the second to
  start can find the block already freed by the first.
\<close>

theorem block_ownership:
  "((thread_step 1)\<^sup>*\<^sup>* no_threads s \<longrightarrow> broken s = None)
   \<and> (\<exists>t. (thread_step 2)\<^sup>*\<^sup>* no_threads t \<and> broken t = Some Use_After_Free)"
proof
  show "(thread_step 1)\<^sup>*\<^sup>* no_threads s \<longrightarrow> broken s = None"
    using blocks_ok_reachable by (simp add: blocks_ok_def)
  let ?c = "snd (create_threads 7 [0, 1] [0, 0] no_threads)"
  have "thread_step 2 no_threads ?c"
    by (rule thread_step.Create) (simp_all add: no_threads_def)
  moreover have c: "pos ?c 0 = Start" "pos ?c 1 = Start" "arg ?c 0 = 7" "arg ?c 1 = 7" "live ?c = {7}"
    by (simp_all add: create_threads_def no_threads_def Let_def)
  moreover obtain t where t: "(thread_step 2)\<^sup>*\<^sup>* ?c t" "live t = {}" "pos t = (pos ?c)(0 := Done)" "arg t = arg ?c"
    using run_to_end [of ?c 0 2] c by auto
  moreover obtain u where u: "(thread_step 2)\<^sup>*\<^sup>* t u" "live u = {}" "pos u 1 = Won"
    using run_to_won [of t 1 2] c t by auto
  moreover have "thread_step 2 u (u\<lparr>pos := (pos u)(1 := Done), broken := Some Use_After_Free\<rparr>)"
    using thread_step.Enter [OF u(3), of 2] u(2) by simp
  ultimately have "(thread_step 2)\<^sup>*\<^sup>* no_threads (u\<lparr>pos := (pos u)(1 := Done), broken := Some Use_After_Free\<rparr>)"
    by (meson converse_rtranclp_into_rtranclp rtranclp_trans step_then)
  then show "\<exists>t. (thread_step 2)\<^sup>*\<^sup>* no_threads t \<and> broken t = Some Use_After_Free"
    by (intro exI conjI) auto
qed

section \<open>A concrete run\<close>

definition one_thread :: threads where
  "one_thread = snd (create_threads 7 [4] [0] no_threads)"

lemma one_thread_reachable: "(thread_step 1)\<^sup>*\<^sup>* no_threads one_thread" "pos one_thread 4 = Start" "winners one_thread = []"
proof -
  have "thread_step 1 no_threads one_thread"
    unfolding one_thread_def by (rule thread_step.Create) (simp_all add: no_threads_def)
  then show "(thread_step 1)\<^sup>*\<^sup>* no_threads one_thread" by blast
qed (simp_all add: one_thread_def create_threads_def no_threads_def Let_def)

theorem tid_unique_witness:
  "\<exists>s. (thread_step 1)\<^sup>*\<^sup>* no_threads s \<and> pos s 4 = Won \<and> tid s 4 = 1"
proof -
  obtain s where s: "(thread_step 1)\<^sup>*\<^sup>* one_thread s" "pos s = (pos one_thread)(4 := Won)"
    "winners s = winners one_thread @ [4]"
    using run_to_won [OF one_thread_reachable(2)] by blast
  have r: "(thread_step 1)\<^sup>*\<^sup>* no_threads s" using one_thread_reachable(1) s(1) by (rule rtranclp_trans)
  have "map (tid s) (winners s) = map of_nat [1..<length (winners s) + 1]"
    using tid_unique [OF r, of 4 4] s(3) by (simp add: one_thread_reachable)
  then show ?thesis using r s by (intro exI [of _ s]) (simp add: one_thread_reachable)
qed

theorem block_ownership_witness: "broken one_thread = None"
  using block_ownership [of one_thread] one_thread_reachable(1) by blast

end
