(* ===== verification/Broadcast.thy ===== *)
theory Broadcast
  imports Sockhelp
begin

text \<open>
  Messages between controllers (\<open>controller/broadcast.c\<close>): the table of callbacks, the single slot
  for a message to be sent, and the loop that sends it and dispatches what is received. A
  datagram is a message with the address of its sender; the callbacks are values of any type
  \<open>'c\<close>, chosen by the component that registers them.
\<close>

definition MAX_CONTROLLERS :: nat where
  "MAX_CONTROLLERS = 32"

definition MAX_CALLBACKS :: nat where
  "MAX_CALLBACKS = 1024"

definition MAX_MESSAGE :: nat where
  "MAX_MESSAGE = 1024"

record msg_struct =
  msg_type :: c_int
  msg_size :: nat
  msg_payload :: c_long

record ip_socket_receiver =
  peer_ip :: string
  peer_socket :: c_int
  peer_value :: c_long

text \<open>
  The arrays as lists of their used entries, so that \<open>last_callback\<close> and
  \<open>last_controller_socket\<close> are lengths. \<open>controllers_sockets\<close> repeats the sockets of
  \<open>connections\<close>. \<open>recv_msg\<close> is the variable \<open>msg\<close> of the loop, which keeps its value.
\<close>

record 'c bcast =
  callbacks :: "(c_int \<times> 'c) list"
  msg_temp :: msg_struct
  new_bcast_message :: bool
  connections :: "ip_socket_receiver list"
  recv_msg :: "msg_struct option"

definition init_bcast :: "'c bcast" where
  "init_bcast = \<lparr>callbacks = [], msg_temp = \<lparr>msg_type = 0, msg_size = 0, msg_payload = 0\<rparr>,
     new_bcast_message = False, connections = [], recv_msg = None\<rparr>"

section \<open>Callbacks\<close>

definition register_callback :: "c_int \<Rightarrow> 'c \<Rightarrow> 'c bcast \<Rightarrow> 'c bcast res" where
  "register_callback type f b =
     (if MAX_CALLBACKS \<le> length (callbacks b) then Inl Out_Of_Bounds
      else Inr (b\<lparr>callbacks := callbacks b @ [(type, f)]\<rparr>))"

text \<open>
  The first entry of the type, called with the socket and the payload. The unused entries have
  the type 0, which is never looked for.
\<close>

definition call_function :: "c_int \<Rightarrow> msg_struct \<Rightarrow> 'c bcast \<Rightarrow> ('c \<times> c_int \<times> c_long) option" where
  "call_function sock m b =
     (if msg_type m = 0 then None
      else map_option (\<lambda>(t, f). (f, sock, msg_payload m)) (find (\<lambda>(t, f). msg_type m = t) (callbacks b)))"

section \<open>Sending\<close>

definition broadcast :: "c_int \<Rightarrow> c_long \<Rightarrow> nat \<Rightarrow> 'c bcast \<Rightarrow> 'c bcast res" where
  "broadcast type payload sz b =
     (if MAX_MESSAGE < sz then Inl Abort
      else Inr (b\<lparr>msg_temp := \<lparr>msg_type = type, msg_size = sz, msg_payload = payload\<rparr>,
        new_bcast_message := True\<rparr>))"

text \<open>A failing transmission is only reported.\<close>

definition do_bcast :: "'c bcast \<Rightarrow> (string \<times> msg_struct) list \<times> 'c bcast" where
  "do_bcast b = (map (\<lambda>c. (peer_ip c, msg_temp b)) (connections b), b\<lparr>new_bcast_message := False\<rparr>)"

section \<open>The loop\<close>

text \<open>How \<open>select\<close> returns; \<open>recvfrom\<close> can fail, and then the sender's address is garbage.\<close>

datatype wakeup =
    Select_Failed
  | Timeout
  | Datagram string msg_struct
  | Recv_Failed string

fun find_peer :: "string \<Rightarrow> ip_socket_receiver list \<Rightarrow> nat" where
  "find_peer ip [] = 0"
| "find_peer ip (c # cs) = (if peer_ip c = ip then 0 else Suc (find_peer ip cs))"

text \<open>
  A received message sets the value of its sender and goes to the callback. The message of a
  controller that is not connected comes with the socket of the first unused entry, which is 0,
  unless the table is full.
\<close>

definition dispatch :: "string \<Rightarrow> msg_struct \<Rightarrow> 'c bcast \<Rightarrow> (('c \<times> c_int \<times> c_long) option \<times> 'c bcast) res" where
  "dispatch ip m b =
     (let i = find_peer ip (connections b) in
      if i < length (connections b)
      then Inr (call_function (peer_socket (connections b ! i)) m b,
                b\<lparr>connections := (connections b)[i := (connections b ! i)\<lparr>peer_value := msg_payload m\<rparr>],
                  recv_msg := Some m\<rparr>)
      else if i < MAX_CONTROLLERS then Inr (call_function 0 m b, b\<lparr>recv_msg := Some m\<rparr>)
      else Inl Out_Of_Bounds)"

text \<open>
  One pass of \<open>broadcast_loop\<close> after \<open>my_new_bcast_message\<close> was read: what is sent, the callback
  to run, and the new state.
\<close>

fun broadcast_wake :: "bool \<Rightarrow> wakeup \<Rightarrow> 'c bcast
  \<Rightarrow> ((string \<times> msg_struct) list \<times> ('c \<times> c_int \<times> c_long) option \<times> 'c bcast) res"
where
  "broadcast_wake my_new Select_Failed b = Inl Exit_Failure"
| "broadcast_wake my_new Timeout b =
     (if my_new then (case do_bcast b of (out, b') \<Rightarrow> Inr (out, None, b')) else Inr ([], None, b))"
| "broadcast_wake my_new (Datagram ip m) b = rbind (dispatch ip m b) (\<lambda>(call, b'). Inr ([], call, b'))"
| "broadcast_wake my_new (Recv_Failed ip) b =
     (case recv_msg b of
        None \<Rightarrow> Inl Uninit_Read
      | Some m \<Rightarrow> rbind (dispatch ip m b) (\<lambda>(call, b'). Inr ([], call, b')))"

section \<open>Initialisation\<close>

definition start_server_dgram :: "c_int \<Rightarrow> bool \<Rightarrow> c_int res" where
  "start_server_dgram sock bound =
     (if sint sock < 0 then Inl Exit_Failure else if \<not> bound then Inl Exit_Failure else Inr sock)"

text \<open>
  The lines of the file of controllers, each with the answers of \<open>make_connection\<close>, which is
  called until it succeeds. The last character of the line, usually the newline, is cut off.
\<close>

fun connect_controllers :: "(string \<times> c_int list) list \<Rightarrow> ip_socket_receiver list
  \<Rightarrow> ip_socket_receiver list res option"
where
  "connect_controllers [] cs = Some (Inr cs)"
| "connect_controllers ((line, socks) # ls) cs =
     (if MAX_CONTROLLERS \<le> length cs \<or> 16 < length line - 1 then Some (Inl Out_Of_Bounds)
      else
        (case dropWhile (\<lambda>s. sint s < 0) socks of
           [] \<Rightarrow> None
         | s # _ \<Rightarrow>
             connect_controllers ls (cs @ [\<lparr>peer_ip = butlast line, peer_socket = s, peer_value = 0\<rparr>])))"

definition initialize_broadcast ::
  "c_int \<Rightarrow> bool \<Rightarrow> (string \<times> c_int list) list option \<Rightarrow> 'c bcast \<Rightarrow> 'c bcast res option"
where
  "initialize_broadcast sock bound lines b =
     (case start_server_dgram sock bound of
        Inl e \<Rightarrow> Some (Inl e)
      | Inr sock_udp \<Rightarrow>
          (case lines of
             None \<Rightarrow> Some (Inl Exit_Failure)
           | Some ls \<Rightarrow>
               map_option (\<lambda>r. rbind r (\<lambda>cs. Inr (b\<lparr>connections := cs\<rparr>))) (connect_controllers ls [])))"

section \<open>What is called and what is sent\<close>

text \<open>Registrations of different types do not interfere, and the first of a type wins.\<close>

lemma call_registered:
  assumes "register_callback t f b = Inr b'" "t \<noteq> 0" "\<forall>(u, g) \<in> set (callbacks b). u \<noteq> t"
  shows "call_function sock m b' =
    (if msg_type m = t then Some (f, sock, msg_payload m) else call_function sock m b)"
proof -
  have cb: "callbacks b' = callbacks b @ [(t, f)]"
    using assms(1) by (auto simp: register_callback_def split: if_splits)
  have app: "find P (xs @ ys) = (case find P xs of None \<Rightarrow> find P ys | Some x \<Rightarrow> Some x)"
    for P :: "c_int \<times> 'b \<Rightarrow> bool" and xs ys
    by (induction xs) auto
  have "find (\<lambda>(u, g). t = u) (callbacks b) = None" if "msg_type m = t"
    using assms(3) by (auto simp: find_None_iff)
  then show ?thesis using assms(2) by (auto simp: call_function_def cb app split: option.splits)
qed

text \<open>Every transmission is of the message in the slot, to every connected controller.\<close>

lemma broadcast_wake_sent:
  "broadcast_wake my_new w b = Inr (out, call, b') \<Longrightarrow>
   out = [] \<or> (my_new \<and> w = Timeout \<and> out = map (\<lambda>c. (peer_ip c, msg_temp b)) (connections b)
     \<and> \<not> new_bcast_message b')"
  by (cases w) (auto simp: do_bcast_def rbind_eq_Inr split: if_splits option.splits)

lemma broadcast_wake_slot:
  "broadcast_wake my_new w b = Inr (out, call, b') \<Longrightarrow> msg_temp b' = msg_temp b \<and> callbacks b' = callbacks b"
  by (cases w)
    (auto simp: do_bcast_def dispatch_def Let_def rbind_eq_Inr split: if_splits option.splits)

lemma broadcast_wake_flag:
  "broadcast_wake my_new w b = Inr (out, call, b') \<Longrightarrow> new_bcast_message b' \<Longrightarrow> new_bcast_message b"
  by (cases w)
    (auto simp: do_bcast_def dispatch_def Let_def rbind_eq_Inr split: if_splits option.splits)

end
