(* ===== verification/Leader.thy ===== *)
theory Leader
  imports Broadcast C_Float "HOL-Library.Signed_Division"
begin

text \<open>
  Timers (\<open>controller/timer.h\<close>) and the election of a leader among the controllers
  (\<open>controller/leader.c\<close>). The time is an argument of every operation that reads it. The second
  half puts the leader thread and the broadcast thread of one controller together, with any
  messages arriving from outside.
\<close>

section \<open>Timers\<close>

text \<open>Milliseconds since the epoch, computed in \<open>long\<close>.\<close>

definition milliseconds :: "timeval \<Rightarrow> c_long" where
  "milliseconds t = tv_sec t * 1000 + word_of_int (sint (tv_usec t) sdiv 1000)"

text \<open>\<open>__rs_timedif\<close> is an \<open>int\<close>: the time is truncated before the start time is subtracted.\<close>

definition timer_value_milli :: "timeval \<Rightarrow> timeval \<Rightarrow> c_int" where
  "timer_value_milli start now =
     (let rs_timedif = ucast (milliseconds now) :: c_int in
      ucast ((scast rs_timedif :: c_long) - milliseconds start))"

text \<open>The same in microseconds, which no code of the repository uses.\<close>

definition microseconds :: "timeval \<Rightarrow> c_long" where
  "microseconds t = tv_sec t * 1000000 + tv_usec t"

definition timer_value_micro :: "timeval \<Rightarrow> timeval \<Rightarrow> c_int" where
  "timer_value_micro start now =
     (let rs_timedif = ucast (microseconds now) :: c_int in
      ucast ((scast rs_timedif :: c_long) - microseconds start))"

definition timer_value_seconds :: "timeval \<Rightarrow> timeval \<Rightarrow> fl" where
  "timer_value_seconds start now =
     fdiv binary64 (f_of_int binary64 (sint (timer_value_milli start now))) (f_of_int binary64 1000)"

definition fle :: "fl \<Rightarrow> fl \<Rightarrow> bool" where
  "fle x y \<longleftrightarrow> flt x y \<or> feq x y"

definition LEADER_SUSPECT_THRESHOLD :: int where
  "LEADER_SUSPECT_THRESHOLD = 10"

definition LEADER_PROPOSE_THRESHOLD :: int where
  "LEADER_PROPOSE_THRESHOLD = 10"

definition LEADER_HEARTBEAT :: c_int where
  "LEADER_HEARTBEAT = 20000"

definition LEADER_PROPOSE :: c_int where
  "LEADER_PROPOSE = 20001"

section \<open>The election\<close>

text \<open>
  \<open>leader_proposals\<close> and \<open>leader_proposals_sockets\<close> up to \<open>last_proposal\<close>, as a list of pairs.
\<close>

record leader =
  controllers :: c_int
  leader_socket :: c_int
  am_i_leader :: bool
  heartbeat :: timeval
  leader_propose_timer :: timeval
  agreement_running :: bool
  leader_proposals :: "(c_long \<times> c_int) list"

text \<open>The loop over the proposals: the greatest value above 0 and the socket it came from.\<close>

fun greatest :: "(c_long \<times> c_int) list \<Rightarrow> c_long \<times> c_int \<Rightarrow> c_long \<times> c_int" where
  "greatest [] best = best"
| "greatest ((v, sock) # ps) best = greatest ps (if sint (fst best) < sint v then (v, sock) else best)"

definition do_agreement_reduction :: "timeval \<Rightarrow> leader \<Rightarrow> leader" where
  "do_agreement_reduction now s =
     (if of_nat (length (leader_proposals s)) < controllers s \<and>
         fle (timer_value_seconds (leader_propose_timer s) now) (f_of_int binary64 LEADER_PROPOSE_THRESHOLD)
      then s
      else
        (let (id, leader) = greatest (leader_proposals s) (0, - 1) in
         if leader = - 1 then s\<lparr>agreement_running := False\<rparr>
         else s\<lparr>agreement_running := False, leader_socket := leader\<rparr>))"

text \<open>A network interface: its name, and its IPv4 address if it has one.\<close>

record ifaddr =
  ifa_name :: string
  ifa_inet :: "32 word option"

text \<open>
  \<open>do_leader_election\<close>: the new state, and the address to propose, if an election starts and
  \<open>eth0\<close> has one. \<open>ifs\<close> is \<open>None\<close> when \<open>getifaddrs\<close> fails.
\<close>

definition do_leader_election :: "timeval \<Rightarrow> ifaddr list option \<Rightarrow> leader \<Rightarrow> (leader \<times> c_long option) res" where
  "do_leader_election now ifs s =
     (if agreement_running s then Inr (do_agreement_reduction now s, None)
      else
        (let s' = s\<lparr>agreement_running := True, leader_proposals := [], leader_propose_timer := now\<rparr> in
         case ifs of
           None \<Rightarrow> Inl Exit_Failure
         | Some is \<Rightarrow>
             (case find (\<lambda>i. ifa_inet i \<noteq> None \<and> ifa_name i = ''eth0'') is of
                None \<Rightarrow> Inr (s', None)
              | Some i \<Rightarrow> Inr (s', Some (ucast (the (ifa_inet i)))))))"

definition leader_propose :: "c_int \<Rightarrow> c_long \<Rightarrow> leader \<Rightarrow> leader res" where
  "leader_propose sock content s =
     (if MAX_CONTROLLERS \<le> length (leader_proposals s) then Inl Out_Of_Bounds
      else Inr (s\<lparr>leader_proposals := leader_proposals s @ [(content, sock)]\<rparr>))"

definition leader_heartbeat :: "timeval \<Rightarrow> leader \<Rightarrow> leader" where
  "leader_heartbeat now s = s\<lparr>heartbeat := now\<rparr>"

definition suspect_leader :: "timeval \<Rightarrow> leader \<Rightarrow> leader" where
  "suspect_leader now s =
     (if flt (f_of_int binary64 LEADER_SUSPECT_THRESHOLD) (timer_value_seconds (heartbeat s) now)
      then s\<lparr>leader_socket := - 1, am_i_leader := False\<rparr> else s)"

text \<open>
  \<open>send_to_leader\<close>: the comparison of the \<open>int\<close> result with the \<open>size_t\<close> size is made on 64 bits
  unsigned.
\<close>

definition send_to_leader :: "write_answer list \<Rightarrow> string \<Rightarrow> leader \<Rightarrow> (bool \<times> string list \<times> write_answer list) option" where
  "send_to_leader os payload s =
     (if leader_socket s = - 1 then Some (False, [], os)
      else map_option (\<lambda>(r, sent, os'). (\<not> (scast r :: c_long) < of_nat (length payload), sent, os'))
             (sock_write os payload))"

section \<open>A controller\<close>

datatype callback = Leader_Heartbeat | Leader_Propose

text \<open>
  \<open>my_new\<close> is the local variable of the broadcast thread, \<open>wire\<close> records the datagrams this
  controller has sent.
\<close>

record net =
  ldr :: leader
  bc :: "callback bcast"
  my_new :: bool
  wire :: "(string \<times> msg_struct) list"

text \<open>One pass of \<open>leader_loop\<close>, which reads the clock at most twice.\<close>

definition elect_if_none :: "timeval \<Rightarrow> ifaddr list option \<Rightarrow> leader \<Rightarrow> callback bcast \<Rightarrow> (leader \<times> callback bcast) res" where
  "elect_if_none now ifs l b =
     (if leader_socket l = - 1
      then rbind (do_leader_election now ifs l) (\<lambda>(l', ip).
             case ip of
               None \<Rightarrow> Inr (l', b)
             | Some a \<Rightarrow> rbind (broadcast LEADER_PROPOSE a 8 b) (\<lambda>b'. Inr (l', b')))
      else Inr (l, b))"

definition leader_pass :: "timeval \<Rightarrow> timeval \<Rightarrow> ifaddr list option \<Rightarrow> net \<Rightarrow> net res" where
  "leader_pass t1 t2 ifs s =
     rbind (elect_if_none t2 ifs (suspect_leader t1 (ldr s)) (bc s)) (\<lambda>(l, b).
     rbind (if am_i_leader l then broadcast LEADER_HEARTBEAT 0 0 b else Inr b) (\<lambda>b'.
       Inr (s\<lparr>ldr := l, bc := b'\<rparr>)))"

definition run_callback :: "timeval \<Rightarrow> callback \<times> c_int \<times> c_long \<Rightarrow> leader \<Rightarrow> leader res" where
  "run_callback now c l =
     (case c of
        (Leader_Heartbeat, _, _) \<Rightarrow> Inr (leader_heartbeat now l)
      | (Leader_Propose, sock, content) \<Rightarrow> leader_propose sock content l)"

text \<open>One pass of \<open>broadcast_loop\<close>: it reads the flag, waits, and runs the callback.\<close>

definition read_flag :: "net \<Rightarrow> net" where
  "read_flag s = s\<lparr>my_new := new_bcast_message (bc s)\<rparr>"

definition broadcast_pass :: "wakeup \<Rightarrow> timeval \<Rightarrow> net \<Rightarrow> net res" where
  "broadcast_pass w now s =
     rbind (broadcast_wake (my_new s) w (bc s)) (\<lambda>(out, call, b).
     rbind (case call of None \<Rightarrow> Inr (ldr s) | Some c \<Rightarrow> run_callback now c (ldr s)) (\<lambda>l.
       Inr (s\<lparr>ldr := l, bc := b, wire := wire s @ out\<rparr>)))"

text \<open>\<open>initialize_leader\<close>: the number of lines of the file of controllers, the timer, the callbacks.\<close>

definition initialize_leader :: "string list option \<Rightarrow> timeval \<Rightarrow> net \<Rightarrow> net res" where
  "initialize_leader lines now s =
     (case lines of
        None \<Rightarrow> Inl Exit_Failure
      | Some ls \<Rightarrow>
          rbind (register_callback LEADER_HEARTBEAT Leader_Heartbeat (bc s)) (\<lambda>b1.
          rbind (register_callback LEADER_PROPOSE Leader_Propose b1) (\<lambda>b2.
            Inr (s\<lparr>ldr := (ldr s)\<lparr>controllers := controllers (ldr s) + of_nat (length ls), heartbeat := now\<rparr>,
                   bc := b2\<rparr>))))"

definition zero_time :: timeval where
  "zero_time = \<lparr>tv_sec = 0, tv_usec = 0\<rparr>"

text \<open>The static initial values.\<close>

definition init_leader :: leader where
  "init_leader = \<lparr>controllers = 0, leader_socket = - 1, am_i_leader = False, heartbeat = zero_time,
     leader_propose_timer = zero_time, agreement_running = False, leader_proposals = []\<rparr>"

inductive net_step :: "net \<Rightarrow> net \<Rightarrow> bool" where
  Leader_Pass: "leader_pass t1 t2 ifs s = Inr s' \<Longrightarrow> net_step s s'"
| Read_Flag: "net_step s (read_flag s)"
| Broadcast_Pass: "broadcast_pass w now s = Inr s' \<Longrightarrow> net_step s s'"

inductive_cases net_stepE: "net_step s s'"

section \<open>Time\<close>

lemma down_word_of_int_mod: "(word_of_int (n mod 2 ^ 64) :: c_int) = word_of_int n"
  by (simp only: word_of_int_eq_iff flip: take_bit_eq_mod) (simp add: take_bit_take_bit)

lemma down_ucast_minus: "(ucast (a - b :: c_long) :: c_int) = ucast a - ucast b"
proof -
  have "(ucast (a - b) :: c_int) = word_of_int (uint (a - b))" by simp
  also have "uint (a - b) = (uint a - uint b) mod 2 ^ 64"
    by (simp add: uint_word_ariths)
  also have "(word_of_int \<dots> :: c_int) = word_of_int (uint a - uint b)" by (rule down_word_of_int_mod)
  also have "\<dots> = word_of_int (uint a) - word_of_int (uint b)" by (rule wi_hom_sub [symmetric])
  finally show ?thesis by simp
qed

lemma down_ucast_scast: "(ucast (scast (w :: c_int) :: c_long) :: c_int) = w"
  by (rule bit_word_eqI) (simp add: bit_simps)

text \<open>The elapsed milliseconds, and what 32 bits signed make of them.\<close>

definition elapsed_ms :: "timeval \<Rightarrow> timeval \<Rightarrow> int" where
  "elapsed_ms start now = sint (milliseconds now) - sint (milliseconds start)"

lemma down_ucast_sint: "(ucast (a :: c_long) :: c_int) = word_of_int (sint a)"
proof -
  have "word_of_int (sint a mod 2 ^ 64) = (word_of_int (sint a) :: c_int)" by (rule down_word_of_int_mod)
  moreover have "sint a mod 2 ^ 64 = uint a"
    by (simp add: uint_sint take_bit_eq_mod)
  ultimately show ?thesis by simp
qed

lemma timer_milli: "sint (timer_value_milli start now) = wrap32 (elapsed_ms start now)"
proof -
  have "timer_value_milli start now = ucast (milliseconds now) - ucast (milliseconds start)"
    by (simp add: timer_value_milli_def Let_def down_ucast_minus down_ucast_scast)
  also have "\<dots> = word_of_int (elapsed_ms start now)"
    by (simp add: down_ucast_sint elapsed_ms_def wi_hom_sub)
  finally show ?thesis by (simp add: sint_word_of_int_32)
qed

lemma timer_micro: "sint (timer_value_micro start now) = wrap32 (sint (microseconds now) - sint (microseconds start))"
proof -
  have "timer_value_micro start now = ucast (microseconds now) - ucast (microseconds start)"
    by (simp add: timer_value_micro_def Let_def down_ucast_minus down_ucast_scast)
  also have "\<dots> = word_of_int (sint (microseconds now) - sint (microseconds start))"
    by (simp add: down_ucast_sint wi_hom_sub)
  finally show ?thesis by (simp only: sint_word_of_int_32)
qed

text \<open>The threshold of ten seconds, in milliseconds: the division rounds to the right side.\<close>

lemma representable_over_10: "representable binary64 (10241 * pow2 (- 10))"
  unfolding representable_def
  by (intro exI [of _ 10241] exI [of _ "- 10"]) (simp add: binary64_def emin_def)

lemma seconds_value:
  assumes "\<bar>m\<bar> \<le> 2 ^ 31"
  shows "fval (fdiv binary64 (f_of_int binary64 m) (f_of_int binary64 1000)) = rnd binary64 (of_int m / 1000)
    \<and> is_num (fdiv binary64 (f_of_int binary64 m) (f_of_int binary64 1000))"
proof (cases "m = 0")
  case True
  then show ?thesis by (simp add: f_of_int_exact) (simp add: f_of_int_def)
next
  case False
  have m: "f_of_int binary64 m = Fin (of_int m)" using assms False by (intro f_of_int_exact) auto
  have k: "f_of_int binary64 1000 = Fin 1000" by (subst f_of_int_exact) auto
  have "\<bar>real_of_int m\<bar> \<le> of_int (2 ^ 31)" using assms by (metis of_int_abs of_int_le_iff)
  also have "\<dots> \<le> pow2 31" by (simp add: pow2_def)
  finally have "\<bar>of_int m / 1000\<bar> \<le> pow2 31" by (simp add: abs_le_iff)
  then show ?thesis unfolding m k
    using fval_round_fl [of "of_int m / 1000" 31 binary64] by (simp add: binary64_def emin_def)
qed

lemma over_ten_seconds:
  assumes "\<bar>m\<bar> \<le> 2 ^ 31"
  defines "x \<equiv> fdiv binary64 (f_of_int binary64 m) (f_of_int binary64 1000)"
  shows "flt (f_of_int binary64 10) x \<longleftrightarrow> 10000 < m" "fle x (f_of_int binary64 10) \<longleftrightarrow> m \<le> 10000"
proof -
  have ten: "f_of_int binary64 10 = Fin 10" by (subst f_of_int_exact) auto
  have prec: "0 < prec binary64" by (simp add: binary64_def)
  have x: "fval x = rnd binary64 (of_int m / 1000)" "is_num x" using seconds_value [OF assms(1)] by (simp_all add: x_def)
  have "rnd binary64 10 = 10"
    using rnd_fixed [OF representable_int [of 10 binary64]] by (simp add: binary64_def emin_def)
  then have le: "rnd binary64 (of_int m / 1000) \<le> 10" if "m \<le> 10000"
    using rnd_mono [of "of_int m / 1000" 10 binary64] prec that by simp
  have c: "rnd binary64 (10241 * pow2 (- 10)) = 10241 * pow2 (- 10)"
    using rnd_fixed [OF representable_over_10 prec] .
  have gt: "10 < rnd binary64 (of_int m / 1000)" if "10000 < m"
  proof -
    have "10001 \<le> real_of_int m" using that by linarith
    then have "10241 * pow2 (- 10) \<le> of_int m / 1000" by (simp add: pow2_def)
    from rnd_mono [OF this prec] have "10241 * pow2 (- 10) \<le> rnd binary64 (of_int m / 1000)" by (simp add: c)
    moreover have "10 < 10241 * pow2 (- 10)" by (simp add: pow2_def)
    ultimately show ?thesis by linarith
  qed
  have lt: "flt (f_of_int binary64 10) x \<longleftrightarrow> 10 < fval x" using x(2) by (simp add: ten flt_fval)
  have fle: "fle x (f_of_int binary64 10) \<longleftrightarrow> fval x \<le> 10"
    using x(2) by (cases x) (auto simp: ten fle_def)
  show "flt (f_of_int binary64 10) x \<longleftrightarrow> 10000 < m" "fle x (f_of_int binary64 10) \<longleftrightarrow> m \<le> 10000"
    unfolding lt fle x(1) using le gt by (metis not_less)+
qed

lemma wrap32_bound: "\<bar>wrap32 n\<bar> \<le> 2 ^ 31"
proof -
  have "0 \<le> (n + 2 ^ 31) mod 2 ^ 32" "(n + 2 ^ 31) mod 2 ^ 32 < 2 ^ 32" by simp_all
  moreover have "(2 :: int) ^ 32 = 2 * 2 ^ 31" by simp
  ultimately show ?thesis unfolding wrap32_def by linarith
qed

lemma timer_over_ten:
  "flt (f_of_int binary64 10) (timer_value_seconds start now) \<longleftrightarrow> 10000 < wrap32 (elapsed_ms start now)"
  "fle (timer_value_seconds start now) (f_of_int binary64 10) \<longleftrightarrow> wrap32 (elapsed_ms start now) \<le> 10000"
  unfolding timer_value_seconds_def timer_milli
  by (rule over_ten_seconds [OF wrap32_bound])+

text \<open>
  The suspicion of the leader is exact to the millisecond for the first \<open>2 ^ 31\<close> ms (24.8
  days) after a heartbeat: the leader is dropped exactly when more than 10000 ms have passed,
  although both time stamps overflow an \<open>int\<close>. Between \<open>2 ^ 31\<close> and \<open>2 ^ 32\<close> ms of silence the
  difference is negative and the leader is not suspected.
\<close>

theorem suspect_exact:
  assumes "0 \<le> elapsed_ms (heartbeat s) now" "elapsed_ms (heartbeat s) now < 2 ^ 32"
  shows "suspect_leader now s =
    (if 10000 < elapsed_ms (heartbeat s) now \<and> elapsed_ms (heartbeat s) now < 2 ^ 31
     then s\<lparr>leader_socket := - 1, am_i_leader := False\<rparr> else s)"
proof -
  let ?d = "elapsed_ms (heartbeat s) now"
  have "wrap32 ?d = (if ?d < 2 ^ 31 then ?d else ?d - 2 ^ 32)"
  proof (cases "?d < 2 ^ 31")
    case True
    then show ?thesis using assms(1) by (simp add: wrap32_id)
  next
    case False
    have "(?d + 2 ^ 31) mod 2 ^ 32 = (?d + 2 ^ 31 - 2 ^ 32) mod 2 ^ 32" by (rule minus_mod_self2 [symmetric])
    also have "\<dots> = ?d + 2 ^ 31 - 2 ^ 32" using False assms(2) by (intro mod_pos_pos_trivial) simp_all
    finally show ?thesis using False by (simp add: wrap32_def)
  qed
  then have "10000 < wrap32 ?d \<longleftrightarrow> 10000 < ?d \<and> ?d < 2 ^ 31" using assms(2) by auto
  then show ?thesis
    by (simp add: suspect_leader_def LEADER_SUSPECT_THRESHOLD_def timer_over_ten)
qed

section \<open>The election\<close>

text \<open>The reference: the first proposal whose value is the greatest of all.\<close>

definition elected :: "(c_long \<times> c_int) list \<Rightarrow> c_long \<times> c_int" where
  "elected ps = hd (filter (\<lambda>p. sint (fst p) = Max (set (map (sint \<circ> fst) ps))) ps)"

text \<open>The loop keeps the first pair with the greatest value, if that is above the initial one.\<close>

lemma greatest_above:
  "(\<exists>p \<in> set ps. sint (fst best) < sint (fst p)) \<Longrightarrow>
   \<exists>us p vs. ps = us @ p # vs \<and> greatest ps best = p \<and> (\<forall>q \<in> set us. sint (fst q) < sint (fst p))
     \<and> (\<forall>q \<in> set vs. sint (fst q) \<le> sint (fst p)) \<and> sint (fst best) < sint (fst p)"
proof (induction ps arbitrary: best)
  case (Cons q ps)
  obtain v sock where q: "q = (v, sock)" by fastforce
  define best' where "best' = (if sint (fst best) < sint v then (v, sock) else best)"
  have g: "greatest (q # ps) best = greatest ps best'" by (simp add: q best'_def)
  have le: "sint v \<le> sint (fst best')" "sint (fst best) \<le> sint (fst best')" by (auto simp: best'_def)
  show ?case
  proof (cases "\<exists>p \<in> set ps. sint (fst best') < sint (fst p)")
    case True
    then obtain us p vs where "ps = us @ p # vs" "greatest ps best' = p" "\<forall>q \<in> set us. sint (fst q) < sint (fst p)"
      "\<forall>q \<in> set vs. sint (fst q) \<le> sint (fst p)" "sint (fst best') < sint (fst p)"
      using Cons.IH by blast
    then show ?thesis using g le q by (intro exI [of _ "q # us"] exI [of _ p] exI [of _ vs]) auto
  next
    case False
    have same: "greatest rs b = b" if "\<forall>p \<in> set rs. sint (fst p) \<le> sint (fst b)" for rs b
      using that by (induction rs) (auto split: if_splits)
    have "greatest ps best' = best'" using False by (intro same) (auto simp: not_less)
    moreover have "best' = q" using Cons.prems False q le by (auto simp: best'_def not_less split: if_splits)
    ultimately show ?thesis using g False Cons.prems q
      by (intro exI [of _ "[]"] exI [of _ q] exI [of _ ps]) (auto simp: not_less best'_def split: if_splits)
  qed
qed simp

lemma greatest_elected:
  assumes "\<exists>p \<in> set ps. 0 < sint (fst p)"
  shows "greatest ps (0, - 1) = elected ps"
proof -
  obtain us p vs where p: "ps = us @ p # vs" "greatest ps (0, - 1) = p" "\<forall>q \<in> set us. sint (fst q) < sint (fst p)"
    "\<forall>q \<in> set vs. sint (fst q) \<le> sint (fst p)"
    using greatest_above [of ps "(0, - 1)"] assms by auto
  have m: "Max (set (map (sint \<circ> fst) ps)) = sint (fst p)"
    by (rule Max_eqI) (use p in \<open>auto simp: less_imp_le\<close>)
  have "filter (\<lambda>q. sint (fst q) = sint (fst p)) us = []" using p(3) by (auto simp: filter_empty_conv)
  moreover have "elected ps = hd (filter (\<lambda>q. sint (fst q) = sint (fst p)) ps)" unfolding elected_def m ..
  ultimately show ?thesis using p(2) by (simp add: p(1))
qed

lemma fst_elected:
  assumes "ps \<noteq> []"
  shows "sint (fst (elected ps)) = Max (set (map (sint \<circ> fst) ps))"
proof -
  let ?m = "Max (set (map (sint \<circ> fst) ps))"
  have "?m \<in> set (map (sint \<circ> fst) ps)" using assms by (intro Max_in) auto
  then have "?m \<in> (sint \<circ> fst) ` set ps" by (simp only: set_map)
  then obtain p where p: "?m = (sint \<circ> fst) p" "p \<in> set ps" by (rule imageE)
  define m where "m = ?m"
  have "p \<in> set (filter (\<lambda>p. sint (fst p) = m) ps)" using p by (simp add: m_def)
  then have "hd (filter (\<lambda>p. sint (fst p) = m) ps) \<in> set (filter (\<lambda>p. sint (fst p) = m) ps)"
    by (intro hd_in_set) (metis list.set_cases list.distinct(1))
  then show ?thesis unfolding elected_def m_def [symmetric] by simp
qed

text \<open>
  C16. The reduction is the election. Once every controller has proposed or more than ten seconds
  have passed, with some address proposed, the leader is the sender of the greatest address, the
  first if several sent it; and a second controller that has received the same addresses, in
  whatever order and from whatever sockets, elects the same address.
\<close>

theorem agreement_elects:
  assumes "controllers s \<le> of_nat (length (leader_proposals s))
      \<or> 10000 < wrap32 (elapsed_ms (leader_propose_timer s) now)"
    and "\<exists>p \<in> set (leader_proposals s). 0 < sint (fst p)"
    and "snd (elected (leader_proposals s)) \<noteq> - 1"
  shows "do_agreement_reduction now s
      = s\<lparr>agreement_running := False, leader_socket := snd (elected (leader_proposals s))\<rparr>
    \<and> (fst ` set qs = fst ` set (leader_proposals s) \<longrightarrow> fst (elected qs) = fst (elected (leader_proposals s)))"
proof
  let ?ps = "leader_proposals s"
  have "\<not> (of_nat (length ?ps) < controllers s \<and>
         fle (timer_value_seconds (leader_propose_timer s) now) (f_of_int binary64 LEADER_PROPOSE_THRESHOLD))"
    using assms(1) by (auto simp: timer_over_ten LEADER_PROPOSE_THRESHOLD_def not_less)
  then show "do_agreement_reduction now s = s\<lparr>agreement_running := False, leader_socket := snd (elected ?ps)\<rparr>"
    using assms(3) greatest_elected [OF assms(2)]
    by (auto simp: do_agreement_reduction_def split: prod.split)
  show "fst ` set qs = fst ` set ?ps \<longrightarrow> fst (elected qs) = fst (elected ?ps)"
  proof
    assume eq: "fst ` set qs = fst ` set ?ps"
    have ne: "?ps \<noteq> []" using assms(2) by auto
    then have "qs \<noteq> []" using eq by auto
    have "set (map (sint \<circ> fst) qs) = sint ` fst ` set qs" "set (map (sint \<circ> fst) ?ps) = sint ` fst ` set ?ps"
      by (simp_all add: image_image comp_def)
    then have "sint (fst (elected qs)) = sint (fst (elected ?ps))"
      using fst_elected [OF \<open>qs \<noteq> []\<close>] fst_elected [OF ne] eq by simp
    then show "fst (elected qs) = fst (elected ?ps)" by (simp add: signed_word_eqI)
  qed
qed

section \<open>A controller in operation\<close>

definition start_net :: "ip_socket_receiver list \<Rightarrow> net" where
  "start_net cs = \<lparr>ldr = init_leader, bc = init_bcast\<lparr>connections := cs\<rparr>, my_new = False, wire = []\<rparr>"

definition proposes :: "string \<times> msg_struct \<Rightarrow> bool" where
  "proposes d \<longleftrightarrow> msg_type (snd d) = LEADER_PROPOSE"

definition net_ok :: "net \<Rightarrow> bool" where
  "net_ok s \<longleftrightarrow> \<not> am_i_leader (ldr s) \<and>
     (leader_socket (ldr s) \<noteq> - 1 \<longrightarrow> \<not> agreement_running (ldr s)) \<and>
     length (leader_proposals (ldr s)) \<le> MAX_CONTROLLERS \<and>
     callbacks (bc s) = [(LEADER_HEARTBEAT, Leader_Heartbeat), (LEADER_PROPOSE, Leader_Propose)] \<and>
     (my_new s \<or> new_bcast_message (bc s) \<longrightarrow> msg_type (msg_temp (bc s)) = LEADER_PROPOSE) \<and>
     list_all proposes (wire s)"

definition ldr_ok :: "leader \<Rightarrow> bool" where
  "ldr_ok l \<longleftrightarrow> \<not> am_i_leader l \<and> (leader_socket l \<noteq> - 1 \<longrightarrow> \<not> agreement_running l)
     \<and> length (leader_proposals l) \<le> MAX_CONTROLLERS"

lemma net_ok_ldr: "net_ok s \<Longrightarrow> ldr_ok (ldr s)"
  by (simp add: net_ok_def ldr_ok_def)

lemma suspect_cases:
  "suspect_leader t l = l \<or> suspect_leader t l = l\<lparr>leader_socket := - 1, am_i_leader := False\<rparr>"
  by (simp add: suspect_leader_def)

lemma ldr_ok_suspect: "ldr_ok l \<Longrightarrow> ldr_ok (suspect_leader t l)"
  using suspect_cases [of t l] by (auto simp: ldr_ok_def)

lemma ldr_ok_reduction: "ldr_ok l \<Longrightarrow> ldr_ok (do_agreement_reduction t l)"
  by (simp add: ldr_ok_def do_agreement_reduction_def split: prod.split)

lemma ldr_ok_election: "do_leader_election t ifs l = Inr (l', ip) \<Longrightarrow> ldr_ok l \<Longrightarrow> leader_socket l = - 1 \<Longrightarrow> ldr_ok l'"
  using ldr_ok_reduction [of l t]
  by (auto simp: do_leader_election_def Let_def split: if_splits option.splits) (auto simp: ldr_ok_def)

lemma ldr_ok_callback: "run_callback t c l = Inr l' \<Longrightarrow> ldr_ok l \<Longrightarrow> ldr_ok l'"
  by (auto simp: run_callback_def leader_heartbeat_def leader_propose_def ldr_ok_def
      split: prod.splits callback.splits if_splits)

lemma net_ok_read_flag: "net_ok s \<Longrightarrow> net_ok (read_flag s)"
  by (simp add: net_ok_def read_flag_def)

lemma leader_pass_cases:
  assumes "leader_pass t1 t2 ifs s = Inr s'" "ldr_ok (ldr s)"
  shows "ldr_ok (ldr s') \<and> my_new s' = my_new s \<and> wire s' = wire s
    \<and> (bc s' = bc s \<or> (\<exists>a. broadcast LEADER_PROPOSE a 8 (bc s) = Inr (bc s')))"
proof -
  let ?l = "suspect_leader t1 (ldr s)"
  have l: "ldr_ok ?l" using assms(2) by (rule ldr_ok_suspect)
  obtain l' b b' where e: "elect_if_none t2 ifs ?l (bc s) = Inr (l', b)"
    and h: "(if am_i_leader l' then broadcast LEADER_HEARTBEAT 0 0 b else Inr b) = Inr b'"
    and s': "s' = s\<lparr>ldr := l', bc := b'\<rparr>"
    using assms(1) by (auto simp: leader_pass_def rbind_eq_Inr)
  have "ldr_ok l' \<and> (b = bc s \<or> (\<exists>a. broadcast LEADER_PROPOSE a 8 (bc s) = Inr b))"
  proof (cases "leader_socket ?l = - 1")
    case True
    then obtain ip where el: "do_leader_election t2 ifs ?l = Inr (l', ip)"
      and b: "(case ip of None \<Rightarrow> Inr (l', bc s)
              | Some a \<Rightarrow> rbind (broadcast LEADER_PROPOSE a 8 (bc s)) (\<lambda>b. Inr (l', b))) = Inr (l', b)"
      using e by (auto simp: elect_if_none_def rbind_eq_Inr split: option.splits)
    show ?thesis using ldr_ok_election [OF el l True] b by (auto simp: rbind_eq_Inr split: option.splits)
  next
    case False
    then show ?thesis using e l by (simp add: elect_if_none_def)
  qed
  then show ?thesis using h by (auto simp: ldr_ok_def s')
qed

lemma broadcast_slot:
  "broadcast t v n b = Inr b' \<Longrightarrow> callbacks b' = callbacks b \<and> msg_type (msg_temp b') = t"
  by (auto simp: broadcast_def split: if_splits)

lemma net_ok_leader_pass:
  assumes "leader_pass t1 t2 ifs s = Inr s'" "net_ok s"
  shows "net_ok s'"
proof -
  note p = leader_pass_cases [OF assms(1) net_ok_ldr [OF assms(2)]]
  have "callbacks (bc s') = callbacks (bc s) \<and>
      (my_new s' \<or> new_bcast_message (bc s') \<longrightarrow> msg_type (msg_temp (bc s')) = LEADER_PROPOSE)"
    using p assms(2) broadcast_slot [of LEADER_PROPOSE _ 8 "bc s" "bc s'"] by (auto simp: net_ok_def)
  then show ?thesis using p assms(2) unfolding net_ok_def ldr_ok_def by simp
qed

lemma net_ok_broadcast_pass:
  assumes "broadcast_pass w now s = Inr s'" "net_ok s"
  shows "net_ok s'"
proof -
  obtain out call b l where w: "broadcast_wake (my_new s) w (bc s) = Inr (out, call, b)"
    and c: "(case call of None \<Rightarrow> Inr (ldr s) | Some c \<Rightarrow> run_callback now c (ldr s)) = Inr l"
    and s': "s' = s\<lparr>ldr := l, bc := b, wire := wire s @ out\<rparr>"
    using assms(1) by (simp add: broadcast_pass_def rbind_eq_Inr split_beta) (metis prod.collapse)
  have l: "ldr_ok l" using c ldr_ok_callback net_ok_ldr [OF assms(2)] by (auto split: option.splits)
  note sent = broadcast_wake_sent [OF w] and slot = broadcast_wake_slot [OF w] broadcast_wake_flag [OF w]
  have "list_all proposes out"
    using sent assms(2) by (auto simp: net_ok_def proposes_def list_all_iff)
  then show ?thesis unfolding s' using l slot assms(2) by (auto simp: net_ok_def ldr_ok_def)
qed

lemma net_ok_step: "net_step s s' \<Longrightarrow> net_ok s \<Longrightarrow> net_ok s'"
  by (elim net_stepE) (auto intro: net_ok_leader_pass net_ok_broadcast_pass net_ok_read_flag)

lemma net_ok_start: "initialize_leader ls now (start_net cs) = Inr s \<Longrightarrow> net_ok s"
  by (auto simp: initialize_leader_def start_net_def init_leader_def init_bcast_def register_callback_def
      net_ok_def MAX_CALLBACKS_def MAX_CONTROLLERS_def split: option.splits)

interpretation controllers: safe_system "\<lambda>s. \<exists>ls now cs. initialize_leader ls now (start_net cs) = Inr s" net_step net_ok
  by unfold_locales (blast intro: net_ok_start, rule net_ok_step)

lemma net_ok_reachable: "initialize_leader ls now (start_net cs) = Inr s0 \<Longrightarrow> net_step\<^sup>*\<^sup>* s0 s \<Longrightarrow> net_ok s"
  by (blast intro: controllers.always_inv)

text \<open>
  C33. Nobody leads. Whatever messages arrive and whatever the interleaving of the two threads,
  \<open>am_i_leader\<close> is never set, so a controller never sends a heartbeat: all it ever sends are
  proposals.
\<close>

theorem never_leader:
  assumes "initialize_leader ls now (start_net cs) = Inr s0" "net_step\<^sup>*\<^sup>* s0 s"
  shows "\<not> am_i_leader (ldr s) \<and> list_all (\<lambda>(ip, m). msg_type m = LEADER_PROPOSE) (wire s)"
  using net_ok_reachable [OF assms(1,2)]
  by (auto simp: net_ok_def proposes_def list_all_iff)


text \<open>
  C5. The table of proposals. It is never longer than 32 entries because the 33rd proposal of an
  election is written behind it: any host can send it, since the sender is not checked.
\<close>

theorem proposals_overflow:
  assumes "initialize_leader ls now (start_net cs) = Inr s0" "net_step\<^sup>*\<^sup>* s0 s"
  shows "length (leader_proposals (ldr s)) \<le> 32
    \<and> (length (leader_proposals (ldr s)) = 32 \<and> length (connections (bc s)) < 32 \<longrightarrow>
        broadcast_pass (Datagram ip \<lparr>msg_type = LEADER_PROPOSE, msg_size = 8, msg_payload = v\<rparr>) t s
          = Inl Out_Of_Bounds)"
proof -
  have ok: "net_ok s" using net_ok_reachable [OF assms(1,2)] .
  let ?m = "\<lparr>msg_type = LEADER_PROPOSE, msg_size = 8, msg_payload = v\<rparr>"
  have cb: "callbacks (bc s) = [(LEADER_HEARTBEAT, Leader_Heartbeat), (LEADER_PROPOSE, Leader_Propose)]"
    using ok by (simp add: net_ok_def)
  have call: "call_function sock ?m (bc s) = Some (Leader_Propose, sock, v)" for sock
    by (simp add: call_function_def cb LEADER_PROPOSE_def LEADER_HEARTBEAT_def)
  have "find_peer ip cs \<le> length cs" for cs by (induction cs) auto
  then have "\<exists>sock b. dispatch ip ?m (bc s) = Inr (Some (Leader_Propose, sock, v), b)"
    if "length (connections (bc s)) < 32"
    using that le_less_trans [OF _ that] by (simp add: dispatch_def Let_def call MAX_CONTROLLERS_def)
  then have "broadcast_pass (Datagram ip ?m) t s = Inl Out_Of_Bounds"
    if "length (leader_proposals (ldr s)) = 32" "length (connections (bc s)) < 32"
    using that by (auto simp: broadcast_pass_def run_callback_def leader_propose_def MAX_CONTROLLERS_def)
  then show ?thesis using ok by (simp add: net_ok_def MAX_CONTROLLERS_def)
qed

text \<open>
  A failed transmission to the leader is reported as a success: the result -1 of
  \<open>sock_write\<close> is compared as an unsigned 64-bit number.
\<close>

theorem send_error_hidden:
  assumes "leader_socket s \<noteq> - 1" "sock_write os payload = Some (- 1, sent, os')"
    and "length payload < 2 ^ 63"
  shows "send_to_leader os payload s = Some (True, sent, os')"
proof -
  have "of_nat (length payload) \<le> (- 1 :: c_long)" by simp
  moreover have "(scast (- 1 :: c_int) :: c_long) = - 1" by simp
  ultimately show ?thesis using assms(1,2) by (simp add: send_to_leader_def not_less)
qed

section \<open>A concrete election\<close>

definition peers :: "ip_socket_receiver list" where
  "peers = [\<lparr>peer_ip = ''10.0.0.2'', peer_socket = 5, peer_value = 0\<rparr>]"

definition eleven_seconds :: timeval where
  "eleven_seconds = \<lparr>tv_sec = 11, tv_usec = 0\<rparr>"

lemma example_times:
  "elapsed_ms zero_time zero_time = 0" "elapsed_ms zero_time eleven_seconds = 11000"
  by (simp_all add: elapsed_ms_def milliseconds_def zero_time_def eleven_seconds_def)

lemma wrap32_examples: "wrap32 0 = 0" "wrap32 11000 = 11000"
  by (simp_all add: wrap32_id)

text \<open>The start, the start of an election, the proposal of the peer, the election.\<close>

definition net0 :: net where
  "net0 = \<lparr>ldr = init_leader\<lparr>controllers := 1\<rparr>,
     bc = init_bcast\<lparr>connections := peers,
       callbacks := [(LEADER_HEARTBEAT, Leader_Heartbeat), (LEADER_PROPOSE, Leader_Propose)]\<rparr>,
     my_new = False, wire = []\<rparr>"

definition net1 :: net where
  "net1 = net0\<lparr>ldr := (ldr net0)\<lparr>agreement_running := True\<rparr>\<rparr>"

definition proposal :: msg_struct where
  "proposal = \<lparr>msg_type = LEADER_PROPOSE, msg_size = 8, msg_payload = 7\<rparr>"

definition net2 :: net where
  "net2 = net1\<lparr>ldr := (ldr net1)\<lparr>leader_proposals := [(7, 5)]\<rparr>,
     bc := (bc net1)\<lparr>connections := [\<lparr>peer_ip = ''10.0.0.2'', peer_socket = 5, peer_value = 7\<rparr>],
       recv_msg := Some proposal\<rparr>\<rparr>"

definition net3 :: net where
  "net3 = net2\<lparr>ldr := (ldr net2)\<lparr>agreement_running := False, leader_socket := 5\<rparr>\<rparr>"

lemma net0_start: "initialize_leader (Some [''10.0.0.2'']) zero_time (start_net peers) = Inr net0"
  by (simp add: initialize_leader_def start_net_def init_leader_def init_bcast_def register_callback_def
      MAX_CALLBACKS_def net0_def zero_time_def)

lemma no_suspicion: "heartbeat l = zero_time \<Longrightarrow> suspect_leader zero_time l = l"
  by (simp add: suspect_leader_def LEADER_SUSPECT_THRESHOLD_def timer_over_ten example_times wrap32_examples)

lemma net0_step: "net_step net0 net1"
proof (rule net_step.Leader_Pass)
  show "leader_pass zero_time zero_time (Some []) net0 = Inr net1"
    by (simp add: leader_pass_def elect_if_none_def no_suspicion do_leader_election_def Let_def net1_def net0_def
        init_leader_def)
qed

lemma net1_step: "net_step net1 net2"
proof (rule net_step.Broadcast_Pass)
  show "broadcast_pass (Datagram ''10.0.0.2'' proposal) zero_time net1 = Inr net2"
    by (simp add: broadcast_pass_def dispatch_def call_function_def run_callback_def leader_propose_def
        MAX_CONTROLLERS_def net2_def net1_def net0_def peers_def proposal_def init_leader_def init_bcast_def
        LEADER_PROPOSE_def LEADER_HEARTBEAT_def)
qed

lemma net2_step: "net_step net2 net3"
proof (rule net_step.Leader_Pass)
  have "elected [(7, 5)] = (7 :: c_long, 5 :: c_int)" by (simp add: elected_def)
  moreover have "greatest [(7, 5)] (0, - 1) = (7 :: c_long, 5 :: c_int)" by simp
  ultimately show "leader_pass zero_time zero_time (Some []) net2 = Inr net3"
    by (simp add: leader_pass_def elect_if_none_def no_suspicion do_leader_election_def do_agreement_reduction_def
        net3_def net2_def net1_def net0_def init_leader_def)
qed

lemma net3_reachable: "net_step\<^sup>*\<^sup>* net0 net3"
  using net0_step net1_step net2_step by (meson converse_rtranclp_into_rtranclp rtranclp.rtrancl_refl)

theorem suspect_exact_witness:
  "suspect_leader eleven_seconds (ldr net3) = (ldr net3)\<lparr>leader_socket := - 1, am_i_leader := False\<rparr>"
proof -
  have "heartbeat (ldr net3) = zero_time"
    by (simp add: net3_def net2_def net1_def net0_def init_leader_def)
  then show ?thesis using suspect_exact [of "ldr net3" eleven_seconds] by (simp add: example_times)
qed

theorem agreement_elects_witness:
  "leader_socket (do_agreement_reduction zero_time (ldr net2)) = 5"
proof -
  have l: "leader_proposals (ldr net2) = [(7, 5)]" "controllers (ldr net2) = 1"
    by (simp_all add: net2_def net1_def net0_def)
  have e: "elected [(7, 5)] = (7 :: c_long, 5 :: c_int)" by (simp add: elected_def)
  show ?thesis using agreement_elects [of "ldr net2" zero_time] by (simp add: l e)
qed

theorem never_leader_witness:
  "\<not> am_i_leader (ldr net3) \<and> list_all (\<lambda>(ip, m). msg_type m = LEADER_PROPOSE) (wire net3)"
  by (rule never_leader [OF net0_start net3_reachable])


theorem proposals_overflow_witness: "length (leader_proposals (ldr net3)) \<le> 32"
  using proposals_overflow [OF net0_start net3_reachable, of "[]" 0 zero_time] by blast

theorem send_error_hidden_witness:
  "send_to_leader [Wrote 1, Write_Error (Other_Errno 104)] ''ab'' (ldr net3) = Some (True, [''a''], [])"
  by (rule send_error_hidden) (simp_all add: net3_def sock_write_def write_result_def)


end
