(* ===== verification/Comm_Thread.thy ===== *)
theory Comm_Thread
  imports Server Features
begin

text \<open>
  The controller's thread for one virtual machine (\<open>communication_thread\<close> of
  \<open>controller/server.c\<close>) and the thread that averages the rejuvenation rates (\<open>mttf_thread\<close>).
  A thread works on a private copy of the registry entry it was started with, and on local
  structures of features that start uninitialised. What the network does, and the uninitialised
  stack of the predictors, are arguments of a pass of its loop; what is sent, closed and posted
  for the load balancer is part of the result.
\<close>

definition TTC_THRESHOLD :: int where
  "TTC_THRESHOLD = 300"

record comm =
  vm :: vm_data
  current_features :: system_features
  init_features :: system_features
  flag_init_features :: bool

text \<open>The shared state: the registry and the rates stored since the last average.\<close>

record ctl =
  registry :: server
  rej_rates :: "fl list"

datatype recv_event = Recv_Error | Recv_Closed | Recv_Text string

definition posted_request :: "operations \<Rightarrow> vm_data \<Rightarrow> virtual_machine" where
  "posted_request op v = \<lparr>req_ip = ip_address v, req_port = request_port,
     req_service = service (service_info v), req_op = op\<rparr>"

definition store_last_system_features :: "vm_data \<Rightarrow> system_features \<Rightarrow> vm_data" where
  "store_last_system_features v f = v\<lparr>last_features := f\<rparr>"

text \<open>
  \<open>rej_rate[index_rej_rate++] = 1/mean_time_to_fail\<close>. The array has \<open>rej_rate_bytes\<close> bytes, four
  for each value.
\<close>

definition store_rate :: "fl \<Rightarrow> ctl \<Rightarrow> ctl res" where
  "store_rate mttf c =
     (if rej_rate_bytes (registry c) < 4 * (length (rej_rates c) + 1) then Inl Out_Of_Bounds
      else Inr (c\<lparr>rej_rates := rej_rates c @ [fdiv binary32 (f_of_int binary32 1) mttf]\<rparr>))"

text \<open>The end of the thread: the machine is deleted at the load balancer and in the registry.\<close>

definition close_thread :: "comm \<Rightarrow> ctl \<Rightarrow> comm option \<times> action list \<times> virtual_machine list \<times> ctl" where
  "close_thread t c =
     (None, [Close (socket (vm t))], [posted_request DELETE (vm t)],
      c\<lparr>registry := manage_disconnected_vms (vm t) (registry c)\<rparr>)"

text \<open>
  The decision after the features were received: a machine predicted to crash within the
  threshold is switched off; otherwise its features are kept and it is told to go on.
\<close>

definition keep_running :: "bool \<Rightarrow> comm \<Rightarrow> ctl \<Rightarrow> comm option \<times> action list \<times> virtual_machine list \<times> ctl" where
  "keep_running send_ok t c =
     (let t' = t\<lparr>vm := (store_last_system_features (vm t) (current_features t))\<lparr>last_system_features_stored := 1\<rparr>\<rparr>;
          sent = Send_Command (socket (vm t)) CONTINUE
      in if send_ok then (Some t', [sent], [], c)
         else (case close_thread t' c of (r, as, rs, c') \<Rightarrow> (r, sent # as, rs, c')))"

definition switch_off :: "bool \<Rightarrow> comm \<Rightarrow> ctl \<Rightarrow> comm option \<times> action list \<times> virtual_machine list \<times> ctl" where
  "switch_off send_ok t c =
     (case switch_active_machine send_ok (vm t) (registry c) of
        (as, s) \<Rightarrow> (Some t, as, [posted_request REJ (vm t)], c\<lparr>registry := s\<rparr>))"

definition crashes_soon :: "system_features_with_slopes \<Rightarrow> int \<Rightarrow> comm \<Rightarrow> bool" where
  "crashes_soon stack ml_model t =
     flt (get_predicted_rttc stack ml_model (last_features (vm t)) (current_features t))
       (f_of_int binary32 TTC_THRESHOLD)"

definition predict :: "system_features_with_slopes \<Rightarrow> system_features_with_slopes \<Rightarrow> int \<Rightarrow> bool \<Rightarrow> comm \<Rightarrow> ctl
  \<Rightarrow> (comm option \<times> action list \<times> virtual_machine list \<times> ctl) res"
where
  "predict stack1 stack2 ml_model send_ok t c =
     rbind (store_rate (get_predicted_mttf stack1 ml_model (last_features (vm t)) (current_features t) (init_features t)) c)
       (\<lambda>c'. Inr (if crashes_soon stack2 ml_model t then switch_off send_ok t c' else keep_running send_ok t c'))"

text \<open>
  One pass. \<open>get_feature\<close> gets \<open>current_features\<close> by value: what it reads from the text is lost.
  A machine that is not active is not listened to: the loop spins.
\<close>

fun comm_pass :: "system_features_with_slopes \<Rightarrow> system_features_with_slopes \<Rightarrow> int \<Rightarrow> recv_event \<Rightarrow> bool \<Rightarrow> comm \<Rightarrow> ctl
  \<Rightarrow> (comm option \<times> action list \<times> virtual_machine list \<times> ctl) res"
where
  "comm_pass stack1 stack2 ml_model ev send_ok t c =
     (if state (service_info (vm t)) \<noteq> ACTIVE then Inr (Some t, [], [], c)
      else
        (case ev of
           Recv_Error \<Rightarrow> Inr (close_thread t c)
         | Recv_Closed \<Rightarrow> Inr (close_thread t c)
         | Recv_Text recv_buff \<Rightarrow>
             (let lost = get_feature recv_buff (current_features t);
                  t' = (if flag_init_features t then t
                        else t\<lparr>init_features := current_features t, flag_init_features := True\<rparr>)
              in if last_system_features_stored (vm t') \<noteq> 0
                 then predict stack1 stack2 ml_model send_ok t' c
                 else Inr (keep_running send_ok t' c))))"

declare comm_pass.simps [simp del]

text \<open>The thread starts with a copy of its entry and indeterminate features.\<close>

definition start_comm :: "vm_data \<Rightarrow> system_features \<Rightarrow> system_features \<Rightarrow> comm" where
  "start_comm v junk1 junk2 =
     \<lparr>vm = v, current_features = junk1, init_features = junk2, flag_init_features = False\<rparr>"

text \<open>
  A pass of \<open>mttf_thread\<close>: nothing while there are no rates, else their average, added up in
  \<open>float\<close> in the order of the array; the index is reset.
\<close>

definition mttf_pass :: "ctl \<Rightarrow> fl option \<times> ctl" where
  "mttf_pass c =
     (if rej_rates c = [] then (None, c)
      else (Some (fdiv binary32 (foldl (fadd binary32) (f_of_int binary32 0) (rej_rates c))
                   (f_of_int binary32 (int (length (rej_rates c))))),
            c\<lparr>rej_rates := []\<rparr>))"

text \<open>A thread over a sequence of passes; the other threads change the shared state in between.\<close>

type_synonym pass = "system_features_with_slopes \<times> system_features_with_slopes \<times> recv_event \<times> bool \<times> (ctl \<Rightarrow> ctl)"

fun comm_run :: "int \<Rightarrow> pass list \<Rightarrow> comm \<Rightarrow> ctl \<Rightarrow> (comm option \<times> action list \<times> virtual_machine list \<times> ctl) res" where
  "comm_run ml [] t c = Inr (Some t, [], [], c)"
| "comm_run ml ((k1, k2, ev, ok, others) # ps) t c =
     rbind (comm_pass k1 k2 ml ev ok t (others c)) (\<lambda>(r, as, rs, c').
       case r of
         None \<Rightarrow> Inr (None, as, rs, c')
       | Some t' \<Rightarrow> rbind (comm_run ml ps t' c') (\<lambda>(r', as', rs', c''). Inr (r', as @ as', rs @ rs', c'')))"

section \<open>The life of a thread\<close>

text \<open>What stays the same in a thread: everything of its copy but the stored features.\<close>

definition same_machine :: "comm \<Rightarrow> comm \<Rightarrow> bool" where
  "same_machine t t' \<longleftrightarrow> socket (vm t') = socket (vm t) \<and> ip_address (vm t') = ip_address (vm t)
     \<and> service_info (vm t') = service_info (vm t)"

lemma same_machine_refl [simp]: "same_machine t t"
  by (simp add: same_machine_def)

lemma same_machine_trans: "same_machine t t' \<Longrightarrow> same_machine t' t'' \<Longrightarrow> same_machine t t''"
  by (simp add: same_machine_def)

lemma request_same: "same_machine t t' \<Longrightarrow> posted_request op (vm t') = posted_request op (vm t)"
  by (simp add: same_machine_def posted_request_def)

lemma req_op_request [simp]: "req_op (posted_request op v) = op"
  by (simp add: posted_request_def)

lemma store_rate_registry: "store_rate m c = Inr c' \<Longrightarrow> registry c' = registry c"
  by (auto simp: store_rate_def split: if_splits)

text \<open>
  One pass either ends the thread, with the request \<open>DELETE\<close> last and its socket closed, or keeps
  the thread on the same machine, with at most a request \<open>REJ\<close>.
\<close>

definition pass_shape :: "comm \<Rightarrow> comm option \<Rightarrow> virtual_machine list \<Rightarrow> bool" where
  "pass_shape t r rs \<longleftrightarrow>
     (case r of
        None \<Rightarrow> rs = [posted_request DELETE (vm t)]
      | Some t' \<Rightarrow> same_machine t t' \<and> (rs = [] \<or> rs = [posted_request REJ (vm t)]))"

lemma keep_running_shape: "keep_running ok t c = (r, as, rs, c') \<Longrightarrow> pass_shape t r rs"
  by (auto simp: keep_running_def close_thread_def store_last_system_features_def pass_shape_def
      same_machine_def posted_request_def Let_def split: if_splits)

lemma switch_off_shape: "switch_off ok t c = (r, as, rs, c') \<Longrightarrow> pass_shape t r rs"
  by (auto simp: switch_off_def pass_shape_def split: prod.splits)

lemma predict_shape: "predict k1 k2 ml ok t c = Inr (r, as, rs, c') \<Longrightarrow> pass_shape t r rs"
  by (auto simp: predict_def res_simps split: if_splits intro: keep_running_shape switch_off_shape)

lemma pass_shape_start:
  "pass_shape (t\<lparr>init_features := f, flag_init_features := b\<rparr>) r rs \<Longrightarrow> pass_shape t r rs"
  by (simp add: pass_shape_def same_machine_def cong: option.case_cong)

lemma comm_pass_shape:
  assumes "comm_pass k1 k2 ml ev ok t c = Inr (r, as, rs, c')"
  shows "pass_shape t r rs"
proof (cases "state (service_info (vm t)) = ACTIVE")
  case True
  show ?thesis
  proof (cases ev)
    case (Recv_Text tx)
    then show ?thesis using assms True
      by (auto simp: comm_pass.simps Let_def split: if_splits
          dest!: keep_running_shape predict_shape intro: pass_shape_start)
  qed (use assms True in \<open>auto simp: comm_pass.simps close_thread_def pass_shape_def\<close>)
qed (use assms in \<open>auto simp: comm_pass.simps pass_shape_def\<close>)

lemma comm_run_requests:
  assumes "comm_run ml ps t c = Inr (r, as, rs, c')"
  shows "\<exists>n. rs = replicate n (posted_request REJ (vm t)) @ (if r = None then [posted_request DELETE (vm t)] else [])"
  using assms
proof (induction ps arbitrary: t c r as rs c')
  case Nil
  then have "rs = replicate 0 (posted_request REJ (vm t))" "r \<noteq> None" by auto
  then show ?case by (metis append_Nil2)
next
  case (Cons p ps)
  obtain k1 k2 ev ok f where p: "p = (k1, k2, ev, ok, f)" by (metis prod.exhaust)
  obtain r1 as1 rs1 c1 where pass: "comm_pass k1 k2 ml ev ok t (f c) = Inr (r1, as1, rs1, c1)"
    and rest: "(case r1 of None \<Rightarrow> Inr (None, as1, rs1, c1)
      | Some t' \<Rightarrow> rbind (comm_run ml ps t' c1) (\<lambda>(r', as', rs', c''). Inr (r', as1 @ as', rs1 @ rs', c'')))
      = Inr (r, as, rs, c')"
    using Cons.prems by (auto simp: p rbind_eq_Inr)
  note shape = comm_pass_shape [OF pass]
  show ?case
  proof (cases r1)
    case None
    then have "rs = replicate 0 (posted_request REJ (vm t)) @ [posted_request DELETE (vm t)]" "r = None"
      using rest shape by (auto simp: pass_shape_def)
    then show ?thesis by metis
  next
    case (Some t1)
    then obtain as2 rs2 where run: "comm_run ml ps t1 c1 = Inr (r, as2, rs2, c')" and rs: "rs = rs1 @ rs2"
      using rest by (auto simp: rbind_eq_Inr)
    have t1: "same_machine t t1" and rs1: "rs1 = [] \<or> rs1 = [posted_request REJ (vm t)]"
      using shape Some by (simp_all add: pass_shape_def)
    from Cons.IH [OF run] obtain n where
      "rs2 = replicate n (posted_request REJ (vm t)) @ (if r = None then [posted_request DELETE (vm t)] else [])"
      unfolding request_same [OF t1] by blast
    then have "rs = replicate (length rs1 + n) (posted_request REJ (vm t)) @ (if r = None then [posted_request DELETE (vm t)] else [])"
      using rs1 unfolding rs by auto
    then show ?thesis by blast
  qed
qed

text \<open>
  C13. The requests of a thread, over any sequence of passes and whatever the other threads do to
  the registry in between: some number of \<open>REJ\<close>, and one \<open>DELETE\<close>, the last, exactly when the
  thread ended. All of them name the machine the thread was started for.
\<close>

theorem thread_requests:
  assumes "comm_run ml ps t c = Inr (r, as, rs, c')"
  shows "\<exists>n. rs = replicate n (posted_request REJ (vm t)) @ (if r = None then [posted_request DELETE (vm t)] else [])"
  using assms by (rule comm_run_requests)

text \<open>
  A thread that was started for a machine in stand-by never does anything, whatever it is
  sent: its private copy never learns of the promotion that another thread wrote to the registry.
\<close>

theorem standby_thread_idle:
  assumes "state (service_info v) \<noteq> ACTIVE"
  shows "comm_run ml ps (start_comm v j1 j2) c
    = Inr (Some (start_comm v j1 j2), [], [], fold (\<lambda>(k1, k2, ev, ok, others). others) ps c)"
  using assms
proof (induction ps arbitrary: c)
  case (Cons p ps)
  then show ?case by (cases p) (simp add: comm_pass.simps start_comm_def)
qed simp

section \<open>The decision\<close>

text \<open>The structure \<open>get_predicted_rttc\<close> hands to the regression.\<close>

definition rttc_slopes :: "system_features_with_slopes \<Rightarrow> system_features \<Rightarrow> system_features \<Rightarrow> system_features_with_slopes" where
  "rttc_slopes stack l cur = stack
       \<lparr>gen_time := ssub (time cur) (time l),
        n_th_slope := int_to_float (n_th cur - n_th l),
        mem_used_slope := int_to_float (mem_used cur - mem_used l),
        mem_free_slope := int_to_float (mem_free cur - mem_free l),
        swap_used_slope := int_to_float (swap_used cur - swap_used l),
        swap_free_slope := int_to_float (swap_free cur - swap_free l),
        cpu_user_slope := ssub (cpu_user cur) (cpu_user l),
        cpu_system_slope := ssub (cpu_system cur) (cpu_system l),
        cpu_idle_slope := ssub (cpu_idle cur) (cpu_idle l),
        s_n_th := n_th l,
        s_mem_used := mem_used l,
        s_mem_buffers := mem_buffers l,
        s_swap_used := swap_used l,
        s_cpu_user := cpu_user l,
        s_cpu_nice := cpu_nice l,
        s_cpu_system := cpu_system l,
        s_cpu_iowait := cpu_iowait l,
        s_cpu_idle := cpu_idle l\<rparr>"

lemma rttc_regression: "get_predicted_rttc stack ml l c = calculate_linear_regression (rttc_slopes stack l c)"
  by (simp add: get_predicted_rttc_def rttc_slopes_def)

lemma threshold: "is_num (f_of_int binary32 TTC_THRESHOLD)" "fval (f_of_int binary32 TTC_THRESHOLD) = 300"
  by (simp_all add: TTC_THRESHOLD_def fl_eval)

lemma crashes_soon_margin:
  fixes E :: real
  assumes "slopes_ok (rttc_slopes stack (last_features (vm t)) (current_features t))"
    "slopes_in (rttc_slopes stack (last_features (vm t)) (current_features t))"
    and "E = regression_exact (rttc_slopes stack (last_features (vm t)) (current_features t))"
  shows "E \<le> 299 \<Longrightarrow> crashes_soon stack ml t" "301 \<le> E \<Longrightarrow> \<not> crashes_soon stack ml t"
proof -
  let ?p = "calculate_linear_regression (rttc_slopes stack (last_features (vm t)) (current_features t))"
  have p: "is_num ?p" "\<bar>fval ?p - E\<bar> \<le> pow2 (-10) + \<bar>E\<bar> * pow2 (-24)"
    using calculate_accuracy [OF assms(1,2)] by (simp_all add: assms(3))
  have iff: "crashes_soon stack ml t \<longleftrightarrow> fval ?p < 300"
    using p(1) threshold by (simp add: crashes_soon_def rttc_regression flt_fval)
  have k: "pow2 (-10) = 1 / 1024" "pow2 (-24) = 1 / 16777216" by (simp_all add: pow2_def)
  show "crashes_soon stack ml t" if "E \<le> 299"
    unfolding iff using p(2) that by (auto simp: k abs_if split: if_splits)
  show "\<not> crashes_soon stack ml t" if "301 \<le> E"
    unfolding iff using p(2) that by (auto simp: k abs_if split: if_splits)
qed

text \<open>The rates still fit: one more value does not run over the array.\<close>

definition room_for_rate :: "ctl \<Rightarrow> bool" where
  "room_for_rate c \<longleftrightarrow> 4 * (length (rej_rates c) + 1) \<le> rej_rate_bytes (registry c)"

text \<open>
  C12. The decision of a pass, when the network works and there is room for the rate: if the exact
  linear model predicts a crash within 299 seconds the machine is told to rejuvenate, the first
  stand-by machine of its service is promoted and the load balancer gets the request \<open>REJ\<close>; if
  it predicts at least 301 seconds the machine is told to go on and nothing else happens. Only
  inside these two seconds around the threshold can rounding decide.
\<close>

theorem decision_sound:
  assumes active: "state (service_info (vm t)) = ACTIVE" "last_system_features_stored (vm t) \<noteq> 0" "flag_init_features t"
    and room: "room_for_rate c"
    and ok: "slopes_ok (rttc_slopes k2 (last_features (vm t)) (current_features t))"
      "slopes_in (rttc_slopes k2 (last_features (vm t)) (current_features t))"
  shows "\<exists>m. let E = regression_exact (rttc_slopes k2 (last_features (vm t)) (current_features t));
      c1 = c\<lparr>rej_rates := rej_rates c @ [m]\<rparr>;
      r = comm_pass k1 k2 ml (Recv_Text tx) True t c
    in (E \<le> 299 \<longrightarrow> r = Inr (Some t, [Send_Command (socket (vm t)) REJUVENATE], [posted_request REJ (vm t)],
          c1\<lparr>registry := promote_standby (service (service_info (vm t))) (registry c)\<rparr>))
     \<and> (301 \<le> E \<longrightarrow> r = Inr (Some (t\<lparr>vm := (vm t)\<lparr>last_features := current_features t, last_system_features_stored := 1\<rparr>\<rparr>),
          [Send_Command (socket (vm t)) CONTINUE], [], c1))"
proof -
  let ?m = "fdiv binary32 (f_of_int binary32 1)
     (get_predicted_mttf k1 ml (last_features (vm t)) (current_features t) (init_features t))"
  let ?c1 = "c\<lparr>rej_rates := rej_rates c @ [?m]\<rparr>"
  have r: "comm_pass k1 k2 ml (Recv_Text tx) True t c
    = Inr (if crashes_soon k2 ml t then switch_off True t ?c1 else keep_running True t ?c1)"
    using active room by (simp add: comm_pass.simps predict_def store_rate_def room_for_rate_def)
  show ?thesis
    using crashes_soon_margin [OF ok refl, of ml]
    by (intro exI [of _ ?m])
       (simp add: Let_def r switch_off_def keep_running_def switch_active_machine_def set_state_def store_last_system_features_def)
qed

section \<open>The array of rates\<close>

lemma rate_pass:
  assumes "state (service_info (vm t)) = ACTIVE" "last_system_features_stored (vm t) \<noteq> 0"
  shows "room_for_rate c \<Longrightarrow> \<exists>t' as rs c'. comm_pass k1 k2 ml (Recv_Text tx) True t c = Inr (Some t', as, rs, c')
      \<and> state (service_info (vm t')) = ACTIVE \<and> last_system_features_stored (vm t') \<noteq> 0
      \<and> length (rej_rates c') = length (rej_rates c) + 1
      \<and> rej_rate_bytes (registry c') = rej_rate_bytes (registry c)"
    and "\<not> room_for_rate c \<Longrightarrow> comm_pass k1 k2 ml (Recv_Text tx) True t c = Inl Out_Of_Bounds"
  using assms
  by (auto simp: comm_pass.simps predict_def store_rate_def room_for_rate_def switch_off_def keep_running_def
      switch_active_machine_def store_last_system_features_def Let_def set_state_def tbl_simps)

text \<open>
  Nothing limits the number of rates: a thread that makes as many predictions as the array
  has room for, without a pass of \<open>mttf_thread\<close> in between, and then one more writes behind it.
\<close>

theorem rates_overflow:
  assumes "state (service_info (vm t)) = ACTIVE" "last_system_features_stored (vm t) \<noteq> 0"
    and "4 * length (rej_rates c) \<le> rej_rate_bytes (registry c)"
    and "rej_rate_bytes (registry c) < 4 * (length (rej_rates c) + length texts)"
  shows "comm_run ml (map (\<lambda>tx. (k1, k2, Recv_Text tx, True, \<lambda>c. c)) texts) t c = Inl Out_Of_Bounds"
  using assms
proof (induction texts arbitrary: t c)
  case (Cons tx texts)
  show ?case
  proof (cases "room_for_rate c")
    case True
    with rate_pass(1) [OF Cons.prems(1,2) this, of k1 k2 ml tx] obtain t' as rs c'
      where r: "comm_pass k1 k2 ml (Recv_Text tx) True t c = Inr (Some t', as, rs, c')"
      and t': "state (service_info (vm t')) = ACTIVE" "last_system_features_stored (vm t') \<noteq> 0"
      and c': "length (rej_rates c') = length (rej_rates c) + 1"
        "rej_rate_bytes (registry c') = rej_rate_bytes (registry c)" by blast
    have "comm_run ml (map (\<lambda>tx. (k1, k2, Recv_Text tx, True, \<lambda>c. c)) texts) t' c' = Inl Out_Of_Bounds"
      using Cons.IH [OF t', of c'] Cons.prems(4) True c' by (simp add: room_for_rate_def)
    then show ?thesis by (simp add: r)
  next
    case False
    then show ?thesis using rate_pass(2) [OF Cons.prems(1,2) False] by simp
  qed
qed simp

section \<open>A failed order to rejuvenate\<close>

text \<open>
  When the command \<open>REJUVENATE\<close> cannot be sent, \<open>switch_active_machine\<close> removes the machine
  and closes its socket, but the thread goes on: its next \<open>recv\<close>, on the closed socket, fails,
  the registry is searched for the address again and the same descriptor is closed a second time.
  The load balancer gets a \<open>REJ\<close> and a \<open>DELETE\<close>.
\<close>

theorem closed_twice:
  assumes active: "state (service_info (vm t)) = ACTIVE" "last_system_features_stored (vm t) \<noteq> 0" "flag_init_features t"
    and room: "room_for_rate c" and soon: "crashes_soon k2 ml t"
  shows "\<exists>c'. comm_run ml [(k1, k2, Recv_Text tx, False, \<lambda>c. c), (k1, k2, Recv_Error, True, \<lambda>c. c)] t c
      = Inr (None, [Send_Command (socket (vm t)) REJUVENATE, Close (socket (vm t)), Close (socket (vm t))],
          [posted_request REJ (vm t), posted_request DELETE (vm t)], c')
    \<and> registry c' = manage_disconnected_vms (vm t) (manage_disconnected_vms (vm t)
          (promote_standby (service (service_info (vm t))) (registry c)))"
  using assms
  by (simp add: comm_pass.simps predict_def store_rate_def room_for_rate_def switch_off_def close_thread_def
      switch_active_machine_def set_state_def manage_disconnected_vms_def Let_def)

section \<open>What a decision depends on\<close>


section \<open>Witnesses\<close>

definition example_comm :: comm where
  "example_comm = (start_comm ((vm_at 5 ''10.0.0.1'' 0 ACTIVE)\<lparr>last_features := zero_features,
     last_system_features_stored := 1\<rparr>) zero_features zero_features)\<lparr>flag_init_features := True\<rparr>"

definition example_ctl :: ctl where
  "example_ctl = \<lparr>registry = init_server (\<lambda>_ _. blank_vm), rej_rates = []\<rparr>"

lemma example_comm_simps [simp]:
  "state (service_info (vm example_comm)) = ACTIVE" "last_system_features_stored (vm example_comm) = 1"
  "flag_init_features example_comm" "last_features (vm example_comm) = zero_features"
  "current_features example_comm = zero_features" "socket (vm example_comm) = 5"
  by (simp_all add: example_comm_def start_comm_def vm_at_def info_of_def)

lemma example_room: "room_for_rate example_ctl" "rej_rate_bytes (registry example_ctl) = 60" "rej_rates example_ctl = []"
  by (simp_all add: example_ctl_def room_for_rate_def init_server_def NUMBER_GROUPS_def NUMBER_VMs_def)

lemma example_soon: "crashes_soon zero_slopes 1 example_comm"
  by (simp add: crashes_soon_def TTC_THRESHOLD_def get_predicted_rttc_def calculate_linear_regression_def
      regression_terms_def zero_slopes_def zero_features_def int_to_float_def int_to_double_def fl_eval)

lemma example_slopes:
  "slopes_ok (rttc_slopes zero_slopes zero_features zero_features)"
  "slopes_in (rttc_slopes zero_slopes zero_features zero_features)"
  "regression_exact (rttc_slopes zero_slopes zero_features zero_features) = 2428923 / 10000"
  by (simp_all add: slopes_ok_def slopes_in_def float_ok_def rttc_slopes_def zero_slopes_def zero_features_def
      regression_exact_def int_to_float_def fl_eval)


theorem thread_requests_witness:
  "\<exists>n. [posted_request DELETE (vm example_comm)] = replicate n (posted_request REJ (vm example_comm)) @ [posted_request DELETE (vm example_comm)]"
proof -
  obtain as c' where "comm_run 1 [(zero_slopes, zero_slopes, Recv_Error, True, \<lambda>c. c)] example_comm example_ctl
    = Inr (None, as, [posted_request DELETE (vm example_comm)], c')"
    by (simp add: comm_pass.simps close_thread_def)
  from thread_requests [OF this] show ?thesis by simp
qed

theorem standby_thread_idle_witness:
  "comm_run 1 [(zero_slopes, zero_slopes, Recv_Error, True, \<lambda>c. c)] (start_comm (vm_at 6 ''10.0.0.2'' 0 STAND_BY) zero_features zero_features) example_ctl
   = Inr (Some (start_comm (vm_at 6 ''10.0.0.2'' 0 STAND_BY) zero_features zero_features), [], [],
       fold (\<lambda>(k1, k2, ev, ok, others). others) [(zero_slopes, zero_slopes, Recv_Error, True, \<lambda>c. c)] example_ctl)"
  by (rule standby_thread_idle) (simp add: vm_at_def info_of_def)

theorem decision_sound_witness:
  "\<exists>m. comm_pass zero_slopes zero_slopes 1 (Recv_Text ''Datapoint: 2'') True example_comm example_ctl
   = Inr (Some example_comm, [Send_Command (socket (vm example_comm)) REJUVENATE], [posted_request REJ (vm example_comm)],
       example_ctl\<lparr>rej_rates := [m], registry := promote_standby (service (service_info (vm example_comm))) (registry example_ctl)\<rparr>)"
proof -
  have "slopes_ok (rttc_slopes zero_slopes (last_features (vm example_comm)) (current_features example_comm))"
    "slopes_in (rttc_slopes zero_slopes (last_features (vm example_comm)) (current_features example_comm))"
    using example_slopes by simp_all
  from decision_sound [OF _ _ _ example_room(1) this, of zero_slopes 1 "''Datapoint: 2''"]
  show ?thesis by (auto simp: Let_def example_slopes example_room)
qed

theorem rates_overflow_witness:
  "comm_run 1 (map (\<lambda>tx. (zero_slopes, zero_slopes, Recv_Text tx, True, \<lambda>c. c)) (replicate 16 ''Datapoint: 2'')) example_comm example_ctl
   = Inl Out_Of_Bounds"
  using rates_overflow [of example_comm example_ctl "replicate 16 ''Datapoint: 2''" 1 zero_slopes zero_slopes]
  by (simp add: example_room)

theorem closed_twice_witness:
  "\<exists>c'. comm_run 1 [(zero_slopes, zero_slopes, Recv_Text ''Datapoint: 2'', False, \<lambda>c. c), (zero_slopes, zero_slopes, Recv_Error, True, \<lambda>c. c)]
       example_comm example_ctl
     = Inr (None, [Send_Command 5 REJUVENATE, Close 5, Close 5], [posted_request REJ (vm example_comm), posted_request DELETE (vm example_comm)], c')"
  using closed_twice [OF _ _ _ example_room(1) example_soon, of zero_slopes "''Datapoint: 2''"] by auto

end
