(* ===== verification/Forwarder.thy ===== *)
theory Forwarder
  imports Sockhelp
begin

text \<open>
  The forwarding of the load balancer (\<open>controller/balancer.c\<close>: \<open>append_buffer\<close>,
  \<open>build_select_list\<close>, \<open>deal_with_data\<close>): one thread for each client carries the bytes between the
  client's socket and the machine's, through one buffer for each direction.

  A buffer is the bytes that wait in it (\<open>held\<close>, whose length is the C variable \<open>bytes_ready\<close>) and
  the rest of its block, where \<open>None\<close> is a byte that was never written. The answers of \<open>select\<close>,
  \<open>read\<close>, \<open>write\<close> and \<open>realloc\<close> are arguments. What crosses the sockets is a list of events.
\<close>

definition FORWARD_BUFFER_SIZE :: nat where
  "FORWARD_BUFFER_SIZE = 1024 * 1024"

text \<open>The number of descriptors an \<open>fd_set\<close> has room for.\<close>

definition FD_SETSIZE :: int where
  "FD_SETSIZE = 1024"

abbreviation NUL :: char where
  "NUL \<equiv> char_of (0 :: nat)"

section \<open>Buffers\<close>

record buffer =
  held :: string
  rest :: "char option list"

definition block :: "buffer \<Rightarrow> char option list" where
  "block b = map Some (held b) @ rest b"

text \<open>\<open>malloc\<close> and \<open>bzero\<close>; later \<open>bzero\<close> of the first \<open>FORWARD_BUFFER_SIZE\<close> bytes.\<close>

definition fresh_buffer :: buffer where
  "fresh_buffer = \<lparr>held = [], rest = replicate FORWARD_BUFFER_SIZE (Some NUL)\<rparr>"

definition bzero_buffer :: "buffer \<Rightarrow> buffer" where
  "bzero_buffer b = \<lparr>held = [],
     rest = replicate FORWARD_BUFFER_SIZE (Some NUL) @ drop FORWARD_BUFFER_SIZE (block b)\<rparr>"

text \<open>What \<open>printf("%s")\<close> reads: the bytes up to the first zero.\<close>

fun read_c_string :: "char option list \<Rightarrow> string res" where
  "read_c_string [] = Inl Out_Of_Bounds"
| "read_c_string (None # cs) = Inl Uninit_Read"
| "read_c_string (Some c # cs) =
     (if c = NUL then Inr [] else rbind (read_c_string cs) (\<lambda>s. Inr (c # s)))"

text \<open>The block may grow where it is, be moved, or not be granted.\<close>

datatype realloc_answer = In_Place | Moved | No_Memory

text \<open>\<open>(*times)*FORWARD_BUFFER_SIZE\<close> is a product of \<open>int\<close>s, converted to \<open>size_t\<close>.\<close>

definition realloc_size :: "c_int \<Rightarrow> nat" where
  "realloc_size tm = unat (scast (tm * 1024 * 1024) :: 64 word)"

definition resize :: "nat \<Rightarrow> buffer \<Rightarrow> buffer" where
  "resize n b = b\<lparr>rest := take (n - length (held b)) (rest b) @ replicate (n - length (block b)) None\<rparr>"

definition memcpy_end :: "buffer \<Rightarrow> string \<Rightarrow> buffer res" where
  "memcpy_end b data =
     (if length (rest b) < length data then Inl Out_Of_Bounds
      else Inr \<lparr>held = held b @ data, rest = drop (length data) (rest b)\<rparr>)"

text \<open>
  \<open>append_buffer\<close>. The new address that \<open>realloc\<close> returns is stored in the parameter only: when
  the block moved, the caller is left with a pointer to freed memory, which is the result \<open>None\<close>.
\<close>

definition append_buffer :: "realloc_answer \<Rightarrow> buffer \<Rightarrow> string \<Rightarrow> c_int \<Rightarrow> (buffer option \<times> c_int) res" where
  "append_buffer ra b data tm =
     (if FORWARD_BUFFER_SIZE \<le> length (held b) + length data
      then
        (case ra of
           No_Memory \<Rightarrow> Inl Null_Deref
         | Moved \<Rightarrow> rbind (memcpy_end (resize (realloc_size tm) b) data) (\<lambda>_. Inr (None, tm + 1))
         | In_Place \<Rightarrow> rbind (memcpy_end (resize (realloc_size tm) b) data) (\<lambda>b'. Inr (Some b', tm + 1)))
      else rbind (memcpy_end b data) (\<lambda>b'. Inr (Some b', tm)))"

definition printf_buffer :: "buffer option \<Rightarrow> buffer res" where
  "printf_buffer ob =
     (case ob of None \<Rightarrow> Inl Use_After_Free | Some b \<Rightarrow> rbind (read_c_string (block b)) (\<lambda>_. Inr b))"

section \<open>One side of a connection\<close>

text \<open>
  What waits for the peer is printed and written to it. Whatever \<open>sock_write\<close> answers, the buffer
  is cleared.
\<close>

definition flush :: "write_answer list \<Rightarrow> buffer \<Rightarrow> (string \<times> buffer) res option" where
  "flush os b =
     (if held b = [] then Some (Inr ([], b))
      else wait_bind (Some (printf_buffer (Some b))) (\<lambda>b.
        map_option (\<lambda>(transferred_bytes, sent, os'). Inr (concat sent, bzero_buffer b)) (sock_write os (held b))))"

text \<open>What is read is appended to the other buffer. No bytes end the thread (\<open>None\<close>).\<close>

definition receive :: "read_answer list \<Rightarrow> realloc_answer \<Rightarrow> buffer \<Rightarrow> c_int
  \<Rightarrow> (string \<times> (buffer \<times> c_int) option) res option"
where
  "receive os ra b tm =
     (case sock_read os FORWARD_BUFFER_SIZE of
        None \<Rightarrow> None
      | Some (transferred_bytes, data, os') \<Rightarrow>
          if transferred_bytes = 0 then Some (Inr ([], None))
          else if 0 < sint transferred_bytes
          then Some (rbind (append_buffer ra b data tm) (\<lambda>(ob, tm').
            rbind (printf_buffer ob) (\<lambda>b'. Inr (data, Some (b', tm')))))
          else Some (rbind (if held b = [] then Inr b else printf_buffer (Some b)) (\<lambda>b'. Inr ([], Some (b', tm)))))"

type_synonym answers = "write_answer list \<times> read_answer list \<times> realloc_answer"

text \<open>
  The two blocks of the loop, for the client and for the machine, are this one with the buffers
  exchanged: \<open>out\<close> waits for this peer, \<open>inb\<close> takes what comes from it.
\<close>

fun serve_side :: "answers \<Rightarrow> buffer \<Rightarrow> buffer \<Rightarrow> c_int
  \<Rightarrow> (string \<times> string \<times> (buffer \<times> buffer \<times> c_int) option) res option"
where
  "serve_side (ws, rs, ra) out inb tm =
     wait_bind (flush ws out) (\<lambda>(sent, out').
       wait_bind (receive rs ra inb tm) (\<lambda>(data, r).
         Some (Inr (sent, data, map_option (\<lambda>(inb', tm'). (out', inb', tm')) r))))"

section \<open>The loop\<close>

record forwarder =
  client_socket :: c_int
  vm_socket :: c_int
  highsock :: c_int
  buffer_from_client :: buffer
  buffer_to_client :: buffer
  reallocs :: c_int

definition start_forwarder :: "c_int \<Rightarrow> c_int \<Rightarrow> forwarder" where
  "start_forwarder c v = \<lparr>client_socket = c, vm_socket = v, highsock = 0,
     buffer_from_client = fresh_buffer, buffer_to_client = fresh_buffer, reallocs = 2\<rparr>"

text \<open>\<open>FD_SET\<close> writes the bit of the descriptor in an array of \<open>FD_SETSIZE\<close> bits, unchecked.\<close>

fun add_sockets :: "c_int list \<Rightarrow> c_int list \<times> c_int \<Rightarrow> (c_int list \<times> c_int) res" where
  "add_sockets [] r = Inr r"
| "add_sockets (s # ss) (socks, high) =
     (if s = 0 then add_sockets ss (socks, high)
      else if sint s < 0 \<or> FD_SETSIZE \<le> sint s then Inl Out_Of_Bounds
      else add_sockets ss (s # socks, if high <s s then s else high))"

definition build_select_list :: "forwarder \<Rightarrow> (c_int list \<times> forwarder) res" where
  "build_select_list s =
     rbind (add_sockets [client_socket s, vm_socket s] ([], highsock s))
       (\<lambda>(socks, high). Inr (socks, s\<lparr>highsock := high\<rparr>))"

text \<open>Read and write readiness share one set, so a socket with room for output is always ready.\<close>

datatype select_answer = Select_Error | Select_Timeout | Select_Ready bool bool

datatype io = From_Client string | To_Client string | From_Vm string | To_Vm string

definition client_side :: "answers \<Rightarrow> forwarder \<Rightarrow> (io list \<times> forwarder option) res option" where
  "client_side a s =
     wait_bind (serve_side a (buffer_to_client s) (buffer_from_client s) (reallocs s)) (\<lambda>(sent, data, r).
       Some (Inr ([To_Client sent, From_Client data],
         map_option (\<lambda>(out, inb, t). s\<lparr>buffer_to_client := out, buffer_from_client := inb, reallocs := t\<rparr>) r)))"

definition vm_side :: "answers \<Rightarrow> forwarder \<Rightarrow> (io list \<times> forwarder option) res option" where
  "vm_side a s =
     wait_bind (serve_side a (buffer_from_client s) (buffer_to_client s) (reallocs s)) (\<lambda>(sent, data, r).
       Some (Inr ([To_Vm sent, From_Vm data],
         map_option (\<lambda>(out, inb, t). s\<lparr>buffer_from_client := out, buffer_to_client := inb, reallocs := t\<rparr>) r)))"

definition when_set :: "bool \<Rightarrow> (forwarder \<Rightarrow> (io list \<times> forwarder option) res option) \<Rightarrow> forwarder
  \<Rightarrow> (io list \<times> forwarder option) res option"
where
  "when_set ready side s = (if ready then side s else Some (Inr ([], Some s)))"

text \<open>\<open>pthread_exit\<close>, after freeing the buffers and closing both sockets, is the state \<open>None\<close>.\<close>

fun forward_pass :: "select_answer \<Rightarrow> answers \<Rightarrow> answers \<Rightarrow> forwarder \<Rightarrow> (io list \<times> forwarder option) res option" where
  "forward_pass sel a b s0 =
     wait_bind (Some (build_select_list s0)) (\<lambda>(socks, s).
       case sel of
         Select_Error \<Rightarrow> Some (Inl Exit_Failure)
       | Select_Timeout \<Rightarrow> Some (Inr ([], Some s))
       | Select_Ready c v \<Rightarrow>
           wait_bind (when_set (c \<and> client_socket s \<in> set socks) (client_side a) s) (\<lambda>(l, r).
             case r of
               None \<Rightarrow> Some (Inr (l, None))
             | Some s' \<Rightarrow>
                 wait_bind (when_set (v \<and> vm_socket s' \<in> set socks) (vm_side b) s') (\<lambda>(l', r').
                   Some (Inr (l @ l', r')))))"

declare forward_pass.simps [simp del]

type_synonym pass = "select_answer \<times> answers \<times> answers"

fun deal_with_data :: "pass list \<Rightarrow> forwarder \<Rightarrow> (io list \<times> forwarder option) res option" where
  "deal_with_data [] s = Some (Inr ([], Some s))"
| "deal_with_data ((sel, a, b) # ps) s =
     wait_bind (forward_pass sel a b s) (\<lambda>(l, r).
       case r of
         None \<Rightarrow> Some (Inr (l, None))
       | Some s' \<Rightarrow> wait_bind (deal_with_data ps s') (\<lambda>(l', r'). Some (Inr (l @ l', r'))))"

section \<open>Nothing is reordered or invented\<close>

fun to_vm :: "io list \<Rightarrow> string" where
  "to_vm [] = []"
| "to_vm (To_Vm s # l) = s @ to_vm l"
| "to_vm (_ # l) = to_vm l"

fun from_client :: "io list \<Rightarrow> string" where
  "from_client [] = []"
| "from_client (From_Client s # l) = s @ from_client l"
| "from_client (_ # l) = from_client l"

fun to_client :: "io list \<Rightarrow> string" where
  "to_client [] = []"
| "to_client (To_Client s # l) = s @ to_client l"
| "to_client (_ # l) = to_client l"

fun from_vm :: "io list \<Rightarrow> string" where
  "from_vm [] = []"
| "from_vm (From_Vm s # l) = s @ from_vm l"
| "from_vm (_ # l) = from_vm l"

lemma io_append [simp]:
  "to_vm (l @ l') = to_vm l @ to_vm l'" "from_client (l @ l') = from_client l @ from_client l'"
  "to_client (l @ l') = to_client l @ to_client l'" "from_vm (l @ l') = from_vm l @ from_vm l'"
     apply (induction l rule: to_vm.induct; simp)
    apply (induction l rule: from_client.induct; simp)
   apply (induction l rule: to_client.induct; simp)
  apply (induction l rule: from_vm.induct; simp)
  done

lemma wait_bind_safe:
  "r \<noteq> Some (Inl e) \<Longrightarrow> (\<And>x. r = Some (Inr x) \<Longrightarrow> k x \<noteq> Some (Inl e)) \<Longrightarrow> wait_bind r k \<noteq> Some (Inl e)"
  by (cases "(r, k)" rule: wait_bind.cases) auto

text \<open>The answers of a side under which no write fails.\<close>

definition all_written :: "answers \<Rightarrow> bool" where
  "all_written a \<longleftrightarrow> list_all (\<lambda>w. \<exists>n. w = Wrote (Suc n)) (fst a)"

lemma flush_sent:
  assumes "flush os b = Some (Inr (sent, b'))"
  shows "held b' = []" "prefix sent (held b)"
    "list_all (\<lambda>w. \<exists>n. w = Wrote (Suc n)) os \<Longrightarrow> sent = held b"
proof -
  have "held b' = [] \<and> prefix sent (held b) \<and> (list_all (\<lambda>w. \<exists>n. w = Wrote (Suc n)) os \<longrightarrow> sent = held b)"
  proof (cases "held b = []")
    case True
    then show ?thesis using assms by (simp add: flush_def)
  next
    case False
    then obtain q pieces os' where w: "sock_write os (held b) = Some (q, pieces, os')"
      and s: "sent = concat pieces" "b' = bzero_buffer b"
      using assms by (auto simp: flush_def wait_bind_Inr printf_buffer_def rbind_eq_Inr)
    show ?thesis using stream.sent_prefix [OF w] stream.sent_all [OF _ w] s by (auto simp: bzero_buffer_def)
  qed
  then show "held b' = []" "prefix sent (held b)"
    "list_all (\<lambda>w. \<exists>n. w = Wrote (Suc n)) os \<Longrightarrow> sent = held b" by blast+
qed

lemma append_held:
  "append_buffer ra b data tm = Inr (Some b', tm') \<Longrightarrow> held b' = held b @ data"
  by (auto simp: append_buffer_def memcpy_end_def resize_def rbind_eq_Inr
      split: if_splits realloc_answer.splits)

lemma printf_same: "printf_buffer ob = Inr b \<Longrightarrow> ob = Some b"
  by (auto simp: printf_buffer_def rbind_eq_Inr split: option.splits)

lemma receive_held:
  "receive os ra b tm = Some (Inr (data, r)) \<Longrightarrow>
   (case r of None \<Rightarrow> data = [] | Some (b', tm') \<Rightarrow> held b' = held b @ data)"
  by (auto simp: receive_def rbind_eq_Inr split: option.splits if_splits
      dest!: printf_same append_held)

text \<open>What a side does to the bytes: it empties one buffer and extends the other.\<close>

lemma serve_side_held:
  assumes "serve_side a out inb tm = Some (Inr (sent, data, r))"
  shows "prefix sent (held out)" "all_written a \<Longrightarrow> sent = held out"
    "(case r of None \<Rightarrow> data = [] | Some (out', inb', tm') \<Rightarrow> held out' = [] \<and> held inb' = held inb @ data)"
proof -
  obtain ws rs ra where a: "a = (ws, rs, ra)" by (cases a)
  obtain out' r' where f: "flush ws out = Some (Inr (sent, out'))"
    and rc: "receive rs ra inb tm = Some (Inr (data, r'))"
    and r: "r = map_option (\<lambda>(inb', tm'). (out', inb', tm')) r'"
    using assms by (auto simp: a wait_bind_Inr)
  show "prefix sent (held out)" by (rule flush_sent(2) [OF f])
  show "all_written a \<Longrightarrow> sent = held out" using flush_sent(3) [OF f] by (simp add: all_written_def a)
  show "case r of None \<Rightarrow> data = [] | Some (out', inb', tm') \<Rightarrow> held out' = [] \<and> held inb' = held inb @ data"
    using receive_held [OF rc] flush_sent(1) [OF f] by (auto simp: r split: option.splits)
qed

text \<open>
  The bytes of one direction: what was read so far, and what reached the other end together with
  what still waits. \<open>lossless\<close> demands that nothing is missing.
\<close>

definition carried :: "bool \<Rightarrow> string \<Rightarrow> string \<Rightarrow> string \<Rightarrow> buffer option \<Rightarrow> bool" where
  "carried lossless waiting input output ob \<longleftrightarrow>
     (case ob of
        None \<Rightarrow> subseq output (waiting @ input) \<and> (lossless \<longrightarrow> prefix output (waiting @ input))
      | Some b \<Rightarrow> subseq (output @ held b) (waiting @ input) \<and> (lossless \<longrightarrow> output @ held b = waiting @ input))"

definition both_carried :: "bool \<Rightarrow> forwarder \<Rightarrow> io list \<Rightarrow> forwarder option \<Rightarrow> bool" where
  "both_carried lossless s l r \<longleftrightarrow>
     carried lossless (held (buffer_from_client s)) (from_client l) (to_vm l) (map_option buffer_from_client r)
   \<and> carried lossless (held (buffer_to_client s)) (from_vm l) (to_client l) (map_option buffer_to_client r)"

lemma carried_refl: "carried x (held b) [] [] (Some b)"
  by (simp add: carried_def)

lemma subseq_prefix: "prefix xs ys \<Longrightarrow> subseq xs ys"
  by (auto simp: prefix_def)

lemma carried_trans:
  assumes "carried x w i p (Some b)" "carried x (held b) i' p' ob"
  shows "carried x w (i @ i') (p @ p') ob"
proof -
  define q where "q = (case ob of None \<Rightarrow> [] | Some b' \<Rightarrow> held b')"
  have 1: "subseq (p @ held b) (w @ i)" "x \<Longrightarrow> p @ held b = w @ i"
    using assms(1) by (auto simp: carried_def)
  have 2: "subseq (p' @ q) (held b @ i')" using assms(2) by (auto simp: carried_def q_def split: option.splits)
  have "subseq (p @ (p' @ q)) (p @ (held b @ i'))" by (rule list_emb_append_mono) (use 2 in auto)
  moreover have "subseq ((p @ held b) @ i') ((w @ i) @ i')" by (rule list_emb_append_mono) (use 1 in auto)
  ultimately have sub: "subseq ((p @ p') @ q) (w @ (i @ i'))"
    using subseq_order.trans by fastforce
  show ?thesis
  proof (cases ob)
    case None
    have "prefix (p @ p') (w @ i @ i')" if x: x
    proof -
      have "prefix p' (held b @ i')" using assms(2) x None by (simp add: carried_def)
      then have "prefix (p @ p') (p @ held b @ i')" by simp
      then show ?thesis using 1(2) [OF x] by (metis append_assoc)
    qed
    then show ?thesis using sub None by (simp add: carried_def q_def)
  next
    case (Some b')
    have "(p @ p') @ held b' = w @ i @ i'" if x: x
      using assms(2) 1(2) [OF x] x Some by (simp add: carried_def)
    then show ?thesis using sub Some by (simp add: carried_def q_def)
  qed
qed

lemma both_carried_trans:
  assumes "both_carried x s l (Some s')" "both_carried x s' l' r"
  shows "both_carried x s (l @ l') r"
  using assms carried_trans by (auto simp: both_carried_def)

lemma carried_none: "prefix p w \<Longrightarrow> carried x w [] p None"
  by (simp add: carried_def subseq_prefix)

lemma carried_flushed:
  "prefix p w \<Longrightarrow> (x \<Longrightarrow> p = w) \<Longrightarrow> held b = [] \<Longrightarrow> carried x w [] p (Some b)"
  by (auto simp: carried_def subseq_prefix)

lemma carried_filled: "held b = w @ i \<Longrightarrow> carried x w i [] (Some b)"
  by (simp add: carried_def)

lemma client_side_carried:
  assumes "client_side a s = Some (Inr (l, r))" "x \<longrightarrow> all_written a"
  shows "both_carried x s l r"
proof -
  obtain sent data q where q: "serve_side a (buffer_to_client s) (buffer_from_client s) (reallocs s) = Some (Inr (sent, data, q))"
    and l: "l = [To_Client sent, From_Client data]"
    and r: "r = map_option (\<lambda>(out, inb, t). s\<lparr>buffer_to_client := out, buffer_from_client := inb, reallocs := t\<rparr>) q"
    using assms(1) by (auto simp: client_side_def wait_bind_Inr)
  show ?thesis using serve_side_held [OF q] assms(2)
    by (cases q) (auto simp: both_carried_def l r intro: carried_none carried_flushed carried_filled)
qed

lemma vm_side_carried:
  assumes "vm_side a s = Some (Inr (l, r))" "x \<longrightarrow> all_written a"
  shows "both_carried x s l r"
proof -
  obtain sent data q where q: "serve_side a (buffer_from_client s) (buffer_to_client s) (reallocs s) = Some (Inr (sent, data, q))"
    and l: "l = [To_Vm sent, From_Vm data]"
    and r: "r = map_option (\<lambda>(out, inb, t). s\<lparr>buffer_from_client := out, buffer_to_client := inb, reallocs := t\<rparr>) q"
    using assms(1) by (auto simp: vm_side_def wait_bind_Inr)
  show ?thesis using serve_side_held [OF q] assms(2)
    by (cases q) (auto simp: both_carried_def l r intro: carried_none carried_flushed carried_filled)
qed

lemma when_set_carried:
  assumes "when_set ready side s = Some (Inr (l, r))" "\<And>l r. side s = Some (Inr (l, r)) \<Longrightarrow> both_carried x s l r"
  shows "both_carried x s l r"
  using assms by (auto simp: when_set_def both_carried_def carried_refl split: if_splits)

lemma build_select_same:
  "build_select_list s = Inr (socks, s') \<Longrightarrow> \<exists>h. s' = s\<lparr>highsock := h\<rparr>"
  by (auto simp: build_select_list_def rbind_eq_Inr)

lemma both_carried_highsock: "both_carried x (s\<lparr>highsock := h\<rparr>) l r = both_carried x s l r"
  by (simp add: both_carried_def)

lemma forward_pass_carried:
  assumes "forward_pass sel a b s = Some (Inr (l, r))" "x \<longrightarrow> all_written a \<and> all_written b"
  shows "both_carried x s l r"
proof -
  obtain socks h where s1: "build_select_list s = Inr (socks, s\<lparr>highsock := h\<rparr>)"
    using assms(1) build_select_same by (fastforce simp: forward_pass.simps wait_bind_Inr)
  let ?s = "s\<lparr>highsock := h\<rparr>"
  have "both_carried x ?s l r"
  proof (cases sel)
    case (Select_Ready c v)
    obtain l1 r1 where 1: "when_set (c \<and> client_socket s \<in> set socks) (client_side a) ?s = Some (Inr (l1, r1))"
      and rest: "(case r1 of None \<Rightarrow> Some (Inr (l1, None))
         | Some s' \<Rightarrow> wait_bind (when_set (v \<and> vm_socket s' \<in> set socks) (vm_side b) s')
             (\<lambda>(l', r'). Some (Inr (l1 @ l', r')))) = Some (Inr (l, r))"
      using assms(1) by (auto simp: forward_pass.simps s1 Select_Ready wait_bind_Inr)
    have c1: "both_carried x ?s l1 r1"
      using when_set_carried [OF 1] client_side_carried assms(2) by blast
    show ?thesis
    proof (cases r1)
      case (Some s')
      then obtain l2 where 2: "when_set (v \<and> vm_socket s' \<in> set socks) (vm_side b) s' = Some (Inr (l2, r))"
        and l: "l = l1 @ l2" using rest by (auto simp: wait_bind_Inr)
      have "both_carried x s' l2 r" using when_set_carried [OF 2] vm_side_carried assms(2) by blast
      then show ?thesis using c1 both_carried_trans unfolding Some l by blast
    qed (use rest c1 in simp)
  qed (use assms(1) in \<open>auto simp: forward_pass.simps s1 both_carried_def carried_refl\<close>)
  then show ?thesis by (simp add: both_carried_highsock)
qed

lemma deal_with_data_carried:
  assumes "deal_with_data ps s = Some (Inr (l, r))"
    "x \<longrightarrow> (\<forall>(sel, a, b) \<in> set ps. all_written a \<and> all_written b)"
  shows "both_carried x s l r"
  using assms
proof (induction ps arbitrary: s l r)
  case Nil
  then show ?case by (auto simp: both_carried_def carried_refl)
next
  case (Cons p ps)
  obtain sel a b where p: "p = (sel, a, b)" by (metis prod.exhaust)
  obtain l1 r1 where 1: "forward_pass sel a b s = Some (Inr (l1, r1))"
    and rest: "(case r1 of None \<Rightarrow> Some (Inr (l1, None))
       | Some s' \<Rightarrow> wait_bind (deal_with_data ps s') (\<lambda>(l', r'). Some (Inr (l1 @ l', r')))) = Some (Inr (l, r))"
    using Cons.prems(1) by (auto simp: p wait_bind_Inr)
  have c1: "both_carried x s l1 r1" using forward_pass_carried [OF 1] Cons.prems(2) p by auto
  show ?case
  proof (cases r1)
    case (Some s')
    then obtain l2 where 2: "deal_with_data ps s' = Some (Inr (l2, r))" and l: "l = l1 @ l2"
      using rest by (auto simp: wait_bind_Inr)
    have "both_carried x s' l2 r" using Cons.IH [OF 2] Cons.prems(2) by auto
    then show ?thesis using c1 both_carried_trans unfolding Some l by blast
  qed (use rest c1 in simp)
qed

text \<open>
  C4. The forwarder implements two channels. Whatever the sockets answer, what reaches one end is
  a subsequence of what was read from the other: nothing is reordered, duplicated or invented. When
  no write fails, nothing is missing either: what was read is what was sent followed by what still
  waits in the buffer, up to the end of the thread, which drops what waits.
\<close>

theorem forward_order:
  assumes "deal_with_data ps (start_forwarder c v) = Some (Inr (l, r))"
  shows "subseq (to_vm l) (from_client l) \<and> subseq (to_client l) (from_vm l)
    \<and> ((\<forall>(sel, a, b) \<in> set ps. all_written a \<and> all_written b) \<longrightarrow>
        (case r of
           None \<Rightarrow> prefix (to_vm l) (from_client l) \<and> prefix (to_client l) (from_vm l)
         | Some s \<Rightarrow> to_vm l @ held (buffer_from_client s) = from_client l
             \<and> to_client l @ held (buffer_to_client s) = from_vm l))"
proof -
  have "both_carried x (start_forwarder c v) l r"
    if "x \<longrightarrow> (\<forall>(sel, a, b) \<in> set ps. all_written a \<and> all_written b)" for x
    using deal_with_data_carried [OF assms that] .
  from this [of False] this [of "\<forall>(sel, a, b) \<in> set ps. all_written a \<and> all_written b"]
  show ?thesis
    by (cases r) (auto simp: both_carried_def carried_def start_forwarder_def fresh_buffer_def
        intro: subseq_order.trans [OF subseq_prefix [OF prefixI [OF refl]]])
qed

section \<open>Safety while the buffers do not grow\<close>

definition zeroed :: "buffer \<Rightarrow> bool" where
  "zeroed b \<longleftrightarrow> take (FORWARD_BUFFER_SIZE - length (held b)) (rest b)
     = replicate (FORWARD_BUFFER_SIZE - length (held b)) (Some NUL)"

lemma zeroed_fresh: "zeroed fresh_buffer" and zeroed_bzero: "zeroed (bzero_buffer b)"
  by (simp_all add: zeroed_def fresh_buffer_def bzero_buffer_def)

lemma read_c_string_stops: "\<exists>s. read_c_string (map Some xs @ Some NUL # ys) = Inr s"
  by (induction xs) auto

lemma printf_zeroed:
  assumes "zeroed b" "length (held b) < FORWARD_BUFFER_SIZE"
  shows "printf_buffer (Some b) = Inr b"
proof -
  obtain k where "FORWARD_BUFFER_SIZE - length (held b) = Suc k"
    using assms(2) by (metis Suc_diff_Suc)
  then have "take (Suc k) (rest b) = Some NUL # replicate k (Some NUL)"
    using assms(1) by (simp add: zeroed_def)
  then obtain ys where "rest b = Some NUL # ys" by (cases "rest b") auto
  then show ?thesis
    using read_c_string_stops [of "held b" ys] by (auto simp: printf_buffer_def block_def)
qed

lemma memcpy_zeroed:
  assumes "zeroed b" "length (held b) + length data \<le> FORWARD_BUFFER_SIZE"
  shows "\<exists>b'. memcpy_end b data = Inr b' \<and> zeroed b' \<and> held b' = held b @ data"
proof -
  have "length (take (FORWARD_BUFFER_SIZE - length (held b)) (rest b)) = FORWARD_BUFFER_SIZE - length (held b)"
    using assms(1) by (simp add: zeroed_def)
  then have "length data \<le> length (rest b)" using assms(2) by simp
  moreover have "drop (length data) (take (FORWARD_BUFFER_SIZE - length (held b)) (rest b))
      = replicate (FORWARD_BUFFER_SIZE - length (held b) - length data) (Some NUL)"
    using assms(1) by (simp add: zeroed_def)
  ultimately show ?thesis
    by (simp add: memcpy_end_def zeroed_def drop_take)
qed

lemma flush_zeroed:
  assumes "zeroed b" "length (held b) < FORWARD_BUFFER_SIZE"
  shows "flush os b \<noteq> Some (Inl e)"
    "flush os b = Some (Inr (sent, b')) \<Longrightarrow> zeroed b' \<and> held b' = []"
  using printf_zeroed [OF assms] assms zeroed_bzero
  by (auto simp: flush_def bzero_buffer_def split: if_splits)

definition read_bytes :: "read_answer list \<Rightarrow> nat" where
  "read_bytes rs = sum_list (map (\<lambda>r. case r of Got s \<Rightarrow> length s | Read_Error e \<Rightarrow> 0) rs)"

definition offered :: "answers \<Rightarrow> nat" where
  "offered a = read_bytes (fst (snd a))"

lemma sock_read_offered:
  "sock_read rs n = Some (k, data, rs') \<Longrightarrow>
   length data \<le> read_bytes rs"
  by (induction rs n rule: sock_read.induct) (auto simp: read_bytes_def split: if_splits)

lemma receive_zeroed:
  assumes "zeroed b"
    "length (held b) + read_bytes rs < FORWARD_BUFFER_SIZE"
  shows "receive rs ra b tm \<noteq> Some (Inl e)"
    "receive rs ra b tm = Some (Inr (data, Some (b', tm'))) \<Longrightarrow> zeroed b'
       \<and> length (held b') \<le> length (held b) + read_bytes rs"
proof -
  have hb: "length (held b) < FORWARD_BUFFER_SIZE" using assms(2) by simp
  have ap: "\<exists>b'. append_buffer ra b d tm = Inr (Some b', tm) \<and> zeroed b' \<and> held b' = held b @ d
      \<and> printf_buffer (Some b') = Inr b'"
    if "sock_read rs FORWARD_BUFFER_SIZE = Some (k, d, rs')" for k d rs'
  proof -
    have l: "length (held b) + length d < FORWARD_BUFFER_SIZE" using sock_read_offered [OF that] assms(2) by simp
    then obtain b' where "memcpy_end b d = Inr b'" "zeroed b'" "held b' = held b @ d"
      using memcpy_zeroed [OF assms(1), of d] by auto
    then show ?thesis using l printf_zeroed [of b'] by (simp add: append_buffer_def)
  qed
  show "receive rs ra b tm \<noteq> Some (Inl e)"
    using ap printf_zeroed [OF assms(1) hb] by (fastforce simp: receive_def split: option.splits if_splits)
  show "receive rs ra b tm = Some (Inr (data, Some (b', tm'))) \<Longrightarrow> zeroed b'
       \<and> length (held b') \<le> length (held b) + read_bytes rs"
    using ap printf_zeroed [OF assms(1) hb] sock_read_offered assms(1)
    by (fastforce simp: receive_def split: option.splits if_splits)
qed

lemma serve_side_zeroed:
  assumes "zeroed out" "length (held out) < FORWARD_BUFFER_SIZE" "zeroed inb"
    "length (held inb) + offered a < FORWARD_BUFFER_SIZE"
  shows "serve_side a out inb tm \<noteq> Some (Inl e)"
    "serve_side a out inb tm = Some (Inr (sent, data, Some (out', inb', tm'))) \<Longrightarrow>
       zeroed out' \<and> held out' = [] \<and> zeroed inb' \<and> length (held inb') \<le> length (held inb) + offered a"
proof -
  obtain ws rs ra where a: "a = (ws, rs, ra)" by (cases a)
  note f = flush_zeroed [OF assms(1,2), of ws]
  note r = receive_zeroed [OF assms(3) assms(4) [unfolded a offered_def, simplified], of ra tm]
  show "serve_side a out inb tm \<noteq> Some (Inl e)"
    unfolding a serve_side.simps using f(1) r(1) by (auto simp: wait_bind_Inl)
  show "zeroed out' \<and> held out' = [] \<and> zeroed inb' \<and> length (held inb') \<le> length (held inb) + offered a"
    if "serve_side a out inb tm = Some (Inr (sent, data, Some (out', inb', tm')))"
    using that f(2) r(2) by (auto simp: a wait_bind_Inr offered_def)
qed

text \<open>The bytes that may still be read fit, with what waits, into the two buffers.\<close>

definition room_left :: "pass list \<Rightarrow> forwarder \<Rightarrow> bool" where
  "room_left ps s \<longleftrightarrow> zeroed (buffer_from_client s) \<and> zeroed (buffer_to_client s)
     \<and> length (held (buffer_from_client s)) + sum_list (map (\<lambda>(sel, a, b). offered a) ps) < FORWARD_BUFFER_SIZE
     \<and> length (held (buffer_to_client s)) + sum_list (map (\<lambda>(sel, a, b). offered b) ps) < FORWARD_BUFFER_SIZE"

definition sockets_ok :: "forwarder \<Rightarrow> bool" where
  "sockets_ok s \<longleftrightarrow> (\<forall>k \<in> {client_socket s, vm_socket s}. 0 \<le> sint k \<and> sint k < FD_SETSIZE)"

lemma build_select_ok: "sockets_ok s \<Longrightarrow> \<exists>socks h. build_select_list s = Inr (socks, s\<lparr>highsock := h\<rparr>)"
proof -
  assume "sockets_ok s"
  then have "\<exists>r. add_sockets [client_socket s, vm_socket s] ([], highsock s) = Inr r"
    by (auto simp: sockets_ok_def)
  then show ?thesis by (auto simp: build_select_list_def simp del: add_sockets.simps)
qed

lemma client_side_safe:
  assumes "room_left ((sel, a, b) # ps) s" "sockets_ok s"
  shows "client_side a s \<noteq> Some (Inl e)"
    "client_side a s = Some (Inr (l, Some s')) \<Longrightarrow> room_left ((sel, ([], [], In_Place), b) # ps) s' \<and> sockets_ok s'"
proof -
  have h: "zeroed (buffer_to_client s)" "length (held (buffer_to_client s)) < FORWARD_BUFFER_SIZE"
    "zeroed (buffer_from_client s)" "length (held (buffer_from_client s)) + offered a < FORWARD_BUFFER_SIZE"
    using assms(1) by (auto simp: room_left_def)
  note sv = serve_side_zeroed [OF h]
  show "client_side a s \<noteq> Some (Inl e)"
    using sv(1) by (auto simp: client_side_def wait_bind_Inl)
  show "room_left ((sel, ([], [], In_Place), b) # ps) s' \<and> sockets_ok s'" if c: "client_side a s = Some (Inr (l, Some s'))"
  proof -
    obtain sent data out inb t where "serve_side a (buffer_to_client s) (buffer_from_client s) (reallocs s)
        = Some (Inr (sent, data, Some (out, inb, t)))"
      and s': "s' = s\<lparr>buffer_to_client := out, buffer_from_client := inb, reallocs := t\<rparr>"
      using c by (auto simp: client_side_def wait_bind_Inr)
    from sv(2) [OF this(1)] assms show ?thesis by (auto simp: s' room_left_def sockets_ok_def offered_def read_bytes_def)
  qed
qed

lemma vm_side_safe:
  assumes "room_left ((sel, a, b) # ps) s" "sockets_ok s"
  shows "vm_side b s \<noteq> Some (Inl e)"
    "vm_side b s = Some (Inr (l, Some s')) \<Longrightarrow> room_left ps s' \<and> sockets_ok s'"
proof -
  have h: "zeroed (buffer_from_client s)" "length (held (buffer_from_client s)) < FORWARD_BUFFER_SIZE"
    "zeroed (buffer_to_client s)" "length (held (buffer_to_client s)) + offered b < FORWARD_BUFFER_SIZE"
    using assms(1) by (auto simp: room_left_def)
  note sv = serve_side_zeroed [OF h]
  show "vm_side b s \<noteq> Some (Inl e)"
    using sv(1) by (auto simp: vm_side_def wait_bind_Inl)
  show "room_left ps s' \<and> sockets_ok s'" if c: "vm_side b s = Some (Inr (l, Some s'))"
  proof -
    obtain sent data out inb t where "serve_side b (buffer_from_client s) (buffer_to_client s) (reallocs s)
        = Some (Inr (sent, data, Some (out, inb, t)))"
      and s': "s' = s\<lparr>buffer_from_client := out, buffer_to_client := inb, reallocs := t\<rparr>"
      using c by (auto simp: vm_side_def wait_bind_Inr)
    from sv(2) [OF this(1)] assms show ?thesis by (auto simp: s' room_left_def sockets_ok_def)
  qed
qed

lemma when_set_safe:
  "(\<And>e. side s \<noteq> Some (Inl e)) \<Longrightarrow> when_set ready side s \<noteq> Some (Inl e)"
  "when_set ready side s = Some (Inr (l, Some s')) \<Longrightarrow> s' = s \<or> side s = Some (Inr (l, Some s'))"
  by (auto simp: when_set_def split: if_splits)

lemma room_left_fewer: "room_left ((sel, a, b) # ps) s \<Longrightarrow> room_left ((sel, ([], [], In_Place), b) # ps) s"
  "room_left ((sel, a, b) # ps) s \<Longrightarrow> room_left ps s"
  by (auto simp: room_left_def offered_def read_bytes_def)

lemma forward_pass_safe:
  assumes "room_left ((sel, a, b) # ps) s0" "sockets_ok s0" "sel \<noteq> Select_Error"
  shows "forward_pass sel a b s0 \<noteq> Some (Inl e)"
    "forward_pass sel a b s0 = Some (Inr (l, Some s')) \<Longrightarrow> room_left ps s' \<and> sockets_ok s'"
proof -
  obtain socks h where bs: "build_select_list s0 = Inr (socks, s0\<lparr>highsock := h\<rparr>)"
    using build_select_ok [OF assms(2)] by blast
  define s where "s = s0\<lparr>highsock := h\<rparr>"
  have s: "room_left ((sel, a, b) # ps) s" "sockets_ok s"
    using assms by (auto simp: s_def room_left_def sockets_ok_def)
  have c: "when_set g (client_side a) s \<noteq> Some (Inl e)" for g e
    using client_side_safe(1) [OF s] by (rule when_set_safe(1))
  have c': "room_left ((sel, ([], [], In_Place), b) # ps) s1 \<and> sockets_ok s1"
    if "when_set g (client_side a) s = Some (Inr (l1, Some s1))" for g l1 s1
    using when_set_safe(2) [OF that] client_side_safe(2) [OF s] s room_left_fewer(1) by blast
  have v: "when_set g (vm_side b) s1 \<noteq> Some (Inl e)"
    if "when_set g' (client_side a) s = Some (Inr (l1, Some s1))" for g g' l1 s1 e
    using c' [OF that] vm_side_safe(1) by (intro when_set_safe(1)) blast
  have v': "room_left ps s2 \<and> sockets_ok s2"
    if "when_set g' (client_side a) s = Some (Inr (l1, Some s1))"
      "when_set g (vm_side b) s1 = Some (Inr (l2, Some s2))" for g g' l1 s1 l2 s2
    using c' [OF that(1)] when_set_safe(2) [OF that(2)] vm_side_safe(2) room_left_fewer(2) by blast
  note p = forward_pass.simps [of sel a b s0, unfolded bs, folded s_def, simplified]
  show "forward_pass sel a b s0 \<noteq> Some (Inl e)"
    using assms(3) c v unfolding p
    by (cases sel) (auto simp: wait_bind_Inl split: option.splits)
  show "room_left ps s' \<and> sockets_ok s'" if "forward_pass sel a b s0 = Some (Inr (l, Some s'))"
    using that assms(3) s room_left_fewer(2) v' unfolding p
    by (cases sel) (auto simp: wait_bind_Inr split: option.splits)
qed

text \<open>
  C20. A connection over which less than one megabyte is offered in each direction is carried
  without a fault, as long as \<open>select\<close> works and the descriptors fit into an \<open>fd_set\<close>.
\<close>

theorem forward_safe:
  assumes "0 \<le> sint c" "sint c < FD_SETSIZE" "0 \<le> sint v" "sint v < FD_SETSIZE"
    and "\<forall>(sel, a, b) \<in> set ps. sel \<noteq> Select_Error"
    and "sum_list (map (\<lambda>(sel, a, b). offered a) ps) < FORWARD_BUFFER_SIZE"
    and "sum_list (map (\<lambda>(sel, a, b). offered b) ps) < FORWARD_BUFFER_SIZE"
  shows "deal_with_data ps (start_forwarder c v) \<noteq> Some (Inl e)"
proof -
  have "deal_with_data ps s \<noteq> Some (Inl e)"
    if "room_left ps s" "sockets_ok s" "\<forall>(sel, a, b) \<in> set ps. sel \<noteq> Select_Error" for s
    using that
  proof (induction ps arbitrary: s)
    case (Cons p ps)
    obtain sel a b where p: "p = (sel, a, b)" by (metis prod.exhaust)
    have ok: "sel \<noteq> Select_Error" using Cons.prems(3) p by auto
    note pass = forward_pass_safe [OF Cons.prems(1) [unfolded p] Cons.prems(2) ok]
    show ?case unfolding p deal_with_data.simps
      using pass Cons.IH Cons.prems(3)
      by (auto simp: wait_bind_Inl split: option.splits)
  qed simp
  moreover have "room_left ps (start_forwarder c v)" "sockets_ok (start_forwarder c v)"
    using assms by (auto simp: room_left_def start_forwarder_def zeroed_def sockets_ok_def fresh_buffer_def)
  ultimately show ?thesis using assms(5) by blast
qed

theorem forward_safe_witness:
  "\<forall>e. deal_with_data [(Select_Ready True True, ([], [Got ''GET /''], In_Place), ([Wrote 5], [Got ''200''], In_Place)),
     (Select_Ready True True, ([Wrote 1, Wrote 2], [Got []], In_Place), ([], [], In_Place))]
     (start_forwarder 4 5) \<noteq> Some (Inl e)"
  by (rule allI, rule forward_safe) (auto simp: FD_SETSIZE_def offered_def read_bytes_def FORWARD_BUFFER_SIZE_def)

section \<open>Where bytes and memory are lost\<close>

lemma sint_small: "n < 2 ^ 31 \<Longrightarrow> sint (of_nat n :: c_int) = int n"
  by (simp add: signed_of_nat signed_take_bit_int_eq_self)

lemma read_c_string_uninit: "NUL \<notin> set xs \<Longrightarrow> read_c_string (map Some xs @ None # ys) = Inl Uninit_Read"
  by (induction xs) auto

lemma sock_read_some:
  assumes "0 < length data" "length data \<le> FORWARD_BUFFER_SIZE"
  shows "sock_read (Got data # rs) FORWARD_BUFFER_SIZE = Some (of_nat (length data), data, rs)"
    "sint (of_nat (length data) :: c_int) = int (length data)" "(of_nat (length data) :: c_int) \<noteq> 0"
proof -
  have "length data < 2 ^ 31" using assms(2) by (simp add: FORWARD_BUFFER_SIZE_def)
  then show s: "sint (of_nat (length data) :: c_int) = int (length data)" by (rule sint_small)
  show "(of_nat (length data) :: c_int) \<noteq> 0" using s assms(1) by (metis of_nat_0_less_iff order_less_irrefl sint_0)
  show "sock_read (Got data # rs) FORWARD_BUFFER_SIZE = Some (of_nat (length data), data, rs)"
    using assms(2) by simp
qed

text \<open>
  C23. The first growth of a buffer never works for text. When a read fills it to a megabyte or
  more, the address that \<open>realloc\<close> returned is lost: if the block moved, the very next \<open>printf\<close>
  reads freed memory; if it grew in place, the \<open>printf\<close> runs into the uninitialised half, for
  nothing terminates the text; and if there was no memory, \<open>memcpy\<close> writes through a null pointer.
\<close>

theorem growth_faults:
  assumes b: "length (held b) < FORWARD_BUFFER_SIZE" "length (block b) = FORWARD_BUFFER_SIZE"
    and data: "length data \<le> FORWARD_BUFFER_SIZE" "FORWARD_BUFFER_SIZE \<le> length (held b) + length data"
    and no_nul: "NUL \<notin> set (held b @ data)"
  shows "receive (Got data # rs) ra b 2 = Some (Inl (case ra of
      In_Place \<Rightarrow> Uninit_Read | Moved \<Rightarrow> Use_After_Free | No_Memory \<Rightarrow> Null_Deref))"
proof -
  let ?n = "length (held b)"
  have pos: "0 < length data" using b(1) data(2) by linarith
  note r = sock_read_some [OF pos data(1)]
  have size: "realloc_size 2 = 2 * FORWARD_BUFFER_SIZE"
    by (simp add: realloc_size_def FORWARD_BUFFER_SIZE_def)
  have len: "length (rest b) = FORWARD_BUFFER_SIZE - ?n" "?n + length data < 2 * FORWARD_BUFFER_SIZE"
    using b data by (auto simp: block_def)
  have rs: "resize (realloc_size 2) b = b\<lparr>rest := rest b @ replicate FORWARD_BUFFER_SIZE None\<rparr>"
    using b len by (simp add: resize_def size)
  have "drop (length data) (rest b @ replicate FORWARD_BUFFER_SIZE None)
      = replicate (2 * FORWARD_BUFFER_SIZE - ?n - length data) (None :: char option)"
    using len(1) b(1) data(2) by simp
  also have "2 * FORWARD_BUFFER_SIZE - ?n - length data = Suc (2 * FORWARD_BUFFER_SIZE - ?n - length data - 1)"
    using len(2) by simp
  finally have m: "memcpy_end (resize (realloc_size 2) b) data = Inr \<lparr>held = held b @ data,
      rest = None # replicate (2 * FORWARD_BUFFER_SIZE - ?n - length data - 1) None\<rparr>"
    using len data b(1) by (simp add: memcpy_end_def rs)
  show ?thesis
    using data(2) pos read_c_string_uninit [OF no_nul] r
    by (cases ra) (simp_all add: receive_def append_buffer_def m printf_buffer_def block_def)
qed

text \<open>
  A write that fails loses what it did not send, and the loop goes on: the end that is written
  to may see a gap.
\<close>

theorem failed_write_drops:
  assumes "zeroed b" "length (held b) < FORWARD_BUFFER_SIZE" "0 < n" "n < length (held b)" "e \<noteq> EINTR"
  shows "flush (Wrote n # Write_Error e # os) b = Some (Inr (take n (held b), bzero_buffer b))
    \<and> held (bzero_buffer b) = []"
proof -
  obtain c cs where "held b = c # cs" using assms(4) by (cases "held b") auto
  moreover obtain d ds where "drop n (held b) = d # ds" using assms(4) by (cases "drop n (held b)") auto
  ultimately show ?thesis
    using assms by (simp add: flush_def printf_zeroed sock_write_def) (simp add: bzero_buffer_def)
qed

text \<open>
  \<open>FD_SET\<close> does not check the descriptor: from the descriptor \<open>FD_SETSIZE\<close> on, which a balancer
  with some five hundred clients reaches, every pass of the thread writes behind the set.
\<close>

theorem fd_set_overflow:
  assumes "FD_SETSIZE \<le> sint v" "c \<noteq> 0" "0 \<le> sint c"
  shows "deal_with_data (p # ps) (start_forwarder c v) = Some (Inl Out_Of_Bounds)"
proof -
  have "v \<noteq> 0" using assms(1) by (auto simp: FD_SETSIZE_def)
  then show ?thesis using assms
    by (cases p) (simp add: forward_pass.simps build_select_list_def start_forwarder_def)
qed

section \<open>Witnesses\<close>

lemma read_c_string_zeros: "0 < n \<Longrightarrow> read_c_string (replicate n (Some NUL)) = Inr []"
  by (cases n) simp_all

theorem failed_write_drops_witness:
  "flush [Wrote 1, Write_Error EWOULDBLOCK] \<lparr>held = ''ab'', rest = replicate (FORWARD_BUFFER_SIZE - 2) (Some NUL)\<rparr>
   = Some (Inr (''a'', bzero_buffer \<lparr>held = ''ab'', rest = replicate (FORWARD_BUFFER_SIZE - 2) (Some NUL)\<rparr>))"
  using failed_write_drops [of "\<lparr>held = ''ab'', rest = replicate (FORWARD_BUFFER_SIZE - 2) (Some NUL)\<rparr>" 1 EWOULDBLOCK "[]"]
  by (simp add: zeroed_def FORWARD_BUFFER_SIZE_def)

theorem fd_set_overflow_witness:
  "deal_with_data [(Select_Timeout, ([], [], In_Place), ([], [], In_Place))] (start_forwarder 4 1024) = Some (Inl Out_Of_Bounds)"
  by (rule fd_set_overflow) (simp_all add: FD_SETSIZE_def)

theorem growth_faults_witness:
  "receive [Got (replicate FORWARD_BUFFER_SIZE CHR ''x'')] Moved fresh_buffer 2 = Some (Inl Use_After_Free)"
  using growth_faults [of fresh_buffer "replicate FORWARD_BUFFER_SIZE CHR ''x''" "[]" Moved]
  by (simp add: fresh_buffer_def block_def FORWARD_BUFFER_SIZE_def char_of_def)

theorem forward_order_witness:
  "\<exists>l r. deal_with_data [(Select_Ready True False, ([], [Got ''ab''], In_Place), ([], [], In_Place)),
        (Select_Ready False True, ([], [], In_Place), ([Wrote 1, Wrote 1], [Got []], In_Place))] (start_forwarder 4 5)
      = Some (Inr (l, r)) \<and> to_vm l = ''ab'' \<and> subseq (to_vm l) (from_client l)"
proof -
  let ?r = "deal_with_data [(Select_Ready True False, ([], [Got ''ab''], In_Place), ([], [], In_Place)),
        (Select_Ready False True, ([], [], In_Place), ([Wrote 1, Wrote 1], [Got []], In_Place))] (start_forwarder 4 5)"
  have "?r = Some (Inr ([To_Client [], From_Client ''ab'', To_Vm ''ab'', From_Vm []], None))"
    by (simp add: forward_pass.simps build_select_list_def start_forwarder_def FD_SETSIZE_def when_set_def
        client_side_def vm_side_def flush_def fresh_buffer_def receive_def append_buffer_def memcpy_end_def
        printf_buffer_def block_def sock_write_def bzero_buffer_def FORWARD_BUFFER_SIZE_def read_c_string_zeros)
  then obtain l r where r: "?r = Some (Inr (l, r))" "to_vm l = ''ab''" by simp
  from forward_order [OF r(1)] r show ?thesis by blast
qed

end
