(* ===== verification/Client.thy ===== *)
theory Client
  imports Features Server
begin

text \<open>
  The program of a virtual machine (\<open>controller/client.c\<close>) beside its measurements: the arguments
  of \<open>main\<close>, \<open>connect_to_server\<close> and the loop that reports features and obeys the controller's
  commands. What the network and the user do are arguments; what is sent, closed and rebooted is
  part of the result.
\<close>

text \<open>The client's \<open>struct vm_service\<close> has no port.\<close>

record client_service =
  c_service :: nat
  c_state :: vm_state

datatype client_action =
    Sent_Info client_service
  | Sent_Features string
  | Closed_Socket
  | Rebooted

section \<open>Arguments\<close>

definition atoi :: "string \<Rightarrow> int" where
  "atoi s = (case scan_int s of None \<Rightarrow> 0 | Some (i, s') \<Rightarrow> i)"

definition status_of :: "string \<Rightarrow> vm_state option" where
  "status_of s = (if s = ''STAND_BY'' then Some STAND_BY else if s = ''ACTIVE'' then Some ACTIVE else None)"

text \<open>The words the user types until one is a status.\<close>

fun ask_status :: "string list \<Rightarrow> vm_state option" where
  "ask_status [] = None"
| "ask_status (buff # typed) = (case status_of buff of None \<Rightarrow> ask_status typed | Some st \<Rightarrow> Some st)"

definition parse_arguments :: "string list \<Rightarrow> string list \<Rightarrow> client_service res option" where
  "parse_arguments argv typed =
     (if length argv \<noteq> 5 then Some (Inl Exit_Failure)
      else map_option (\<lambda>st. Inr \<lparr>c_service = unat (word_of_int (atoi (argv ! 3)) :: c_int), c_state = st\<rparr>)
        (ask_status (argv ! 4 # typed)))"

section \<open>The handshake\<close>

text \<open>
  The loop that waits for \<open>"ok"\<close>. Each pass has the text in \<open>recv_buff\<close> (\<open>None\<close> when \<open>recv\<close>
  failed), the number the user typed (\<open>None\<close> when \<open>scanf\<close> found none) and whether \<open>send\<close> worked.
  A failed \<open>recv\<close> closes the socket, and the loop goes on with an empty text.
\<close>

fun ack_loop :: "client_service \<Rightarrow> (string option \<times> nat option \<times> bool) list
  \<Rightarrow> (client_service res \<times> client_action list) option"
where
  "ack_loop s [] = None"
| "ack_loop s ((answer, typed, send_ok) # evs) =
     (let closed = (if answer = None then [Closed_Socket] else []);
          recv_buff = (case answer of None \<Rightarrow> [] | Some tx \<Rightarrow> tx)
      in if recv_buff = ''ok'' then Some (Inr s, closed)
         else
           (let s' = (case typed of None \<Rightarrow> s | Some n \<Rightarrow> s\<lparr>c_service := n\<rparr>)
            in if send_ok
               then map_option (\<lambda>(r, as). (r, closed @ Sent_Info s' # as)) (ack_loop s' evs)
               else Some (Inl Exit_Failure, closed @ [Sent_Info s', Closed_Socket])))"

definition connect_to_server :: "bool \<Rightarrow> bool \<Rightarrow> bool \<Rightarrow> client_service
  \<Rightarrow> (string option \<times> nat option \<times> bool) list \<Rightarrow> (client_service res \<times> client_action list) option"
where
  "connect_to_server socket_ok connect_ok send_ok s evs =
     (if \<not> socket_ok \<or> \<not> connect_ok then Some (Inl Exit_Failure, [])
      else if \<not> send_ok then Some (Inl Exit_Failure, [Sent_Info s, Closed_Socket])
      else map_option (\<lambda>(r, as). (r, Sent_Info s # as)) (ack_loop s evs))"

section \<open>Reporting and obeying\<close>

text \<open>\<open>enum massage\<close> as the first byte of a message.\<close>

fun command_byte :: "massage \<Rightarrow> char" where
  "command_byte WAITING_DATA = char_of (0 :: nat)"
| "command_byte CONTINUE = char_of (1 :: nat)"
| "command_byte REJUVENATE = char_of (2 :: nat)"
| "command_byte READY = char_of (3 :: nat)"
| "command_byte STARTING_REJUVENATING = char_of (4 :: nat)"

datatype command_recv = Command_Error | Command string

datatype client_status = Running | Stopped | Rebooting

text \<open>
  A pass of the loop of \<open>main\<close>. The end of the connection leaves the zeroed buffer, which is no
  command to reboot.
\<close>

definition client_pass :: "c_int list \<Rightarrow> monitor \<Rightarrow> bool \<Rightarrow> command_recv \<Rightarrow> (client_status \<times> client_action list) res" where
  "client_pass junk m send_ok cmd =
     rbind (get_features junk m) (\<lambda>send_buff. Inr (
       if \<not> send_ok then (Stopped, [Sent_Features send_buff, Closed_Socket])
       else
         (case cmd of
            Command_Error \<Rightarrow> (Stopped, [Sent_Features send_buff, Closed_Socket])
          | Command recv_buff \<Rightarrow>
              if hd (recv_buff @ [char_of (0 :: nat)]) = command_byte REJUVENATE
              then (Rebooting, [Sent_Features send_buff, Rebooted])
              else (Running, [Sent_Features send_buff]))))"

fun client_loop :: "(c_int list \<times> monitor \<times> bool \<times> command_recv) list \<Rightarrow> (client_status \<times> client_action list) res" where
  "client_loop [] = Inr (Running, [])"
| "client_loop ((junk, m, send_ok, cmd) # ps) =
     rbind (client_pass junk m send_ok cmd) (\<lambda>(st, as).
       if st = Running then rbind (client_loop ps) (\<lambda>(st', as'). Inr (st', as @ as')) else Inr (st, as))"

text \<open>\<open>None\<close> while the user is still asked or the handshake goes on.\<close>

definition client_main :: "string list \<Rightarrow> string list \<Rightarrow> bool \<Rightarrow> bool \<Rightarrow> bool
  \<Rightarrow> (string option \<times> nat option \<times> bool) list \<Rightarrow> (c_int list \<times> monitor \<times> bool \<times> command_recv) list
  \<Rightarrow> (client_status \<times> client_action list) res option"
where
  "client_main argv typed socket_ok connect_ok send_ok evs ps =
     (case parse_arguments argv typed of
        None \<Rightarrow> None
      | Some (Inl e) \<Rightarrow> Some (Inl e)
      | Some (Inr s) \<Rightarrow>
          (case connect_to_server socket_ok connect_ok send_ok s evs of
             None \<Rightarrow> None
           | Some (Inl e, as) \<Rightarrow> Some (Inl e)
           | Some (Inr s', as) \<Rightarrow>
               Some (rbind (client_loop ps) (\<lambda>(st, as'). Inr (st, as @ as')))))"

section \<open>The handshake of both programs\<close>

text \<open>
  What the server receives of the client's structure: the two fields it has. The third of the
  server's structure keeps what was in its memory.
\<close>

definition received_info :: "c_int \<Rightarrow> client_service \<Rightarrow> vm_service" where
  "received_info junk_port s = \<lparr>service = c_service s, state = c_state s, provided_port = junk_port\<rparr>"

text \<open>
  A connection that works: the client reads the texts the server sent, in order, beside the
  numbers the user types, and the server receives the structures the client sent.
\<close>

fun client_inputs :: "Server.action list \<Rightarrow> nat list \<Rightarrow> (string option \<times> nat option \<times> bool) list" where
  "client_inputs [] typed = []"
| "client_inputs (Send_Text sk tx # as) (n # typed) = (Some tx, Some n, True) # client_inputs as typed"
| "client_inputs (Send_Text sk tx # as) [] = (Some tx, None, True) # client_inputs as []"
| "client_inputs (Send_Command sk cmd # as) typed = client_inputs as typed"
| "client_inputs (Close sk # as) typed = client_inputs as typed"

fun server_inputs :: "c_int \<Rightarrow> client_action list \<Rightarrow> (bool \<times> info_recv) list" where
  "server_inputs jp [] = []"
| "server_inputs jp (Sent_Info s # as) = (True, Info (received_info jp s)) # server_inputs jp as"
| "server_inputs jp (Sent_Features tx # as) = server_inputs jp as"
| "server_inputs jp (Closed_Socket # as) = server_inputs jp as"
| "server_inputs jp (Rebooted # as) = server_inputs jp as"

lemma reply_received: "reply (received_info jp s) = (if c_service s < NUMBER_GROUPS then ''ok'' else ''groups'')"
  by (simp add: reply_def received_info_def)

lemma handshake_both:
  assumes "\<forall>n \<in> set (butlast (c_service s # typed)). NUMBER_GROUPS \<le> n" "last (c_service s # typed) < NUMBER_GROUPS"
  shows "\<exists>s' as acts. ack_loop s (client_inputs acts typed) = Some (Inr s', as)
    \<and> handshake_loop sk (received_info jp s) (server_inputs jp as @ [(True, Info_Closed)]) = Some (received_info jp s', acts)
    \<and> c_state s' = c_state s \<and> c_service s' = last (c_service s # typed)"
  using assms
proof (induction typed arbitrary: s)
  case Nil
  then show ?case
    by (intro exI [of _ s] exI [of _ "[]"] exI [of _ "[Send_Text sk ''ok'']"]) (simp add: reply_received)
next
  case (Cons n typed)
  let ?s = "s\<lparr>c_service := n\<rparr>"
  have s: "\<not> c_service s < NUMBER_GROUPS" using Cons.prems(1) by simp
  have "\<forall>k \<in> set (butlast (c_service ?s # typed)). NUMBER_GROUPS \<le> k" "last (c_service ?s # typed) < NUMBER_GROUPS"
    using Cons.prems by simp_all
  from Cons.IH [OF this] obtain s' as acts where
    "ack_loop ?s (client_inputs acts typed) = Some (Inr s', as)"
    "handshake_loop sk (received_info jp ?s) (server_inputs jp as @ [(True, Info_Closed)]) = Some (received_info jp s', acts)"
    "c_state s' = c_state s" "c_service s' = last (n # typed)" by auto
  then show ?case using s
    by (intro exI [of _ s'] exI [of _ "Sent_Info ?s # as"] exI [of _ "Send_Text sk ''groups'' # acts"])
       (simp add: reply_received)
qed

text \<open>
  C10. The two programs put together. On a connection that works, once the user types a service
  that exists, the handshake ends on both sides, with the client reading what the server sends and
  the server receiving what the client sends; both then have the same service, the last one typed,
  and the same state. What the server registers as the machine's port was never sent.
\<close>

theorem handshake_agrees:
  assumes "\<forall>n \<in> set (butlast (c_service s # typed)). NUMBER_GROUPS \<le> n" "last (c_service s # typed) < NUMBER_GROUPS"
  shows "\<exists>s' as acts n srv'.
      connect_to_server True True True s (client_inputs acts typed) = Some (Inr s', Sent_Info s # as)
    \<and> accept_new_client junk sk ip pt (Info (received_info jp s)) (server_inputs jp as @ [(True, Info_Closed)]) srv
        = Some (acts, Some (c_service s', n), add_of ip (received_info jp s'), srv')
    \<and> c_service s' = last (c_service s # typed) \<and> c_state s' = c_state s
    \<and> provided_port (received_info jp s') = jp"
proof -
  obtain s' as acts where a: "ack_loop s (client_inputs acts typed) = Some (Inr s', as)"
    and h: "handshake_loop sk (received_info jp s) (server_inputs jp as @ [(True, Info_Closed)]) = Some (received_info jp s', acts)"
    and eq: "c_state s' = c_state s" "c_service s' = last (c_service s # typed)"
    using handshake_both [OF assms] by blast
  show ?thesis
    by (rule exI [of _ s'], rule exI [of _ as], rule exI [of _ acts])
       (simp add: connect_to_server_def a h eq Let_def case_prod_beta, simp add: received_info_def eq)
qed

theorem handshake_agrees_witness:
  "\<exists>s' as acts n srv'.
      connect_to_server True True True \<lparr>c_service = 7, c_state = ACTIVE\<rparr> (client_inputs acts [4, 2]) = Some (Inr s', Sent_Info \<lparr>c_service = 7, c_state = ACTIVE\<rparr> # as)
    \<and> accept_new_client (\<lambda>_. blank_vm) 5 ''10.0.0.1'' 4000 (Info (received_info 99 \<lparr>c_service = 7, c_state = ACTIVE\<rparr>))
        (server_inputs 99 as @ [(True, Info_Closed)]) (init_server (\<lambda>_ _. blank_vm))
        = Some (acts, Some (c_service s', n), add_of ''10.0.0.1'' (received_info 99 s'), srv') \<and> c_service s' = 2"
proof -
  have "\<forall>n \<in> set (butlast (c_service \<lparr>c_service = 7, c_state = ACTIVE\<rparr> # [4, 2])). NUMBER_GROUPS \<le> n"
    "last (c_service \<lparr>c_service = 7, c_state = ACTIVE\<rparr> # [4, 2]) < NUMBER_GROUPS"
    by (simp_all add: NUMBER_GROUPS_def)
  from handshake_agrees [OF this, of "\<lambda>_. blank_vm" 5 "''10.0.0.1''" 4000 99 "init_server (\<lambda>_ _. blank_vm)"]
  obtain s' as acts n srv' where
    "connect_to_server True True True \<lparr>c_service = 7, c_state = ACTIVE\<rparr> (client_inputs acts [4, 2]) = Some (Inr s', Sent_Info \<lparr>c_service = 7, c_state = ACTIVE\<rparr> # as)"
    "accept_new_client (\<lambda>_. blank_vm) 5 ''10.0.0.1'' 4000 (Info (received_info 99 \<lparr>c_service = 7, c_state = ACTIVE\<rparr>))
        (server_inputs 99 as @ [(True, Info_Closed)]) (init_server (\<lambda>_ _. blank_vm))
        = Some (acts, Some (c_service s', n), add_of ''10.0.0.1'' (received_info 99 s'), srv')"
    "c_service s' = last (c_service \<lparr>c_service = 7, c_state = ACTIVE\<rparr> # [4, 2])"
    by (elim exE conjE)
  moreover from this(3) have "c_service s' = 2" by simp
  ultimately show ?thesis
    by - (rule exI [of _ s'], rule exI [of _ as], rule exI [of _ acts], rule exI [of _ n], rule exI [of _ srv'], intro conjI)
qed

end
