(* ===== verification/Startup.thy ===== *)
theory Startup
  imports Client Balancer Leader
begin

text \<open>
  How the two servers start: \<open>start_server\<close>, \<open>accept_load_balancer\<close> and \<open>main\<close> of
  \<open>controller/server.c\<close>, and \<open>main\<close> of \<open>controller/balancer.c\<close> up to its loop. The answers of the
  operating system are arguments, and so is what a function that ends without \<open>return\<close> leaves for
  its caller.
\<close>

section \<open>The controller\<close>

text \<open>A listening socket and its port, in network order.\<close>

record listener =
  l_socket :: c_int
  l_port :: "16 word"

text \<open>The answers of \<open>socket\<close>, \<open>bind\<close> and \<open>listen\<close>.\<close>

type_synonym listen_answers = "c_int \<times> bool \<times> bool"

fun start_server :: "listen_answers \<Rightarrow> c_int \<Rightarrow> listener res" where
  "start_server (sock, bound, listening) p =
     (if sock = - 1 \<or> \<not> bound \<or> \<not> listening then Inl Exit_Failure
      else Inr \<lparr>l_socket = sock, l_port = htons (ucast p)\<rparr>)"

text \<open>\<open>accept_load_balancer\<close> has a \<open>return\<close> for its errors only.\<close>

definition accept_load_balancer :: "c_int \<Rightarrow> c_int \<Rightarrow> c_int \<Rightarrow> c_int" where
  "accept_load_balancer accepted created junk =
     (if accepted = - 1 then - 1 else if created \<noteq> 0 then - 1 else junk)"

record controller =
  ml_model :: int
  vm_listener :: listener
  balancer_listener :: listener
  tables :: server
  network :: net

text \<open>The answers during the start of the messages and of the election.\<close>

type_synonym network_answers =
  "c_int \<times> bool \<times> (string \<times> c_int list) list option \<times> string list option \<times> timeval"

text \<open>The globals of both modules before \<open>main\<close>.\<close>

definition no_network :: net where
  "no_network = \<lparr>ldr = init_leader, bc = init_bcast, my_new = False, wire = []\<rparr>"

fun start_network :: "network_answers \<Rightarrow> net res option" where
  "start_network (sock, bound, lines, counted, now) =
     (case initialize_broadcast sock bound lines (bc no_network) of
        None \<Rightarrow> None
      | Some r \<Rightarrow> Some (rbind r (\<lambda>b. initialize_leader counted now (no_network\<lparr>bc := b\<rparr>))))"

definition controller_main :: "string list \<Rightarrow> (nat \<Rightarrow> nat \<Rightarrow> Server.vm_data) \<Rightarrow> listen_answers \<Rightarrow> listen_answers
  \<Rightarrow> network_answers \<Rightarrow> c_int \<times> c_int \<times> c_int \<Rightarrow> controller res option"
where
  "controller_main argv junk vm_answers lb_answers net_answers = (\<lambda>(accepted, created, left).
     if length argv \<noteq> 4 then Some (Inl Exit_Failure)
     else if atoi (argv ! 1) = atoi (argv ! 2) then Some (Inl Exit_Failure)
     else
       (case rbind (start_server vm_answers (word_of_int (atoi (argv ! 1)))) (\<lambda>vl.
               rbind (start_server lb_answers (word_of_int (atoi (argv ! 2)))) (\<lambda>bl. Inr (vl, bl))) of
          Inl e \<Rightarrow> Some (Inl e)
        | Inr (vl, bl) \<Rightarrow>
            map_option (\<lambda>r. rbind r (\<lambda>n.
              if sint (accept_load_balancer accepted created left) < 0 then Inl Exit_Failure
              else Inr \<lparr>ml_model = atoi (argv ! 3), vm_listener = vl, balancer_listener = bl,
                     tables = init_server junk, network = n\<rparr>))
              (start_network net_answers)))"

section \<open>The load balancer\<close>

text \<open>
  \<open>inet_addr\<close> belongs to the name service. The second argument of \<open>atoport\<close> is a null pointer; the
  first, \<open>argv[1]\<close>, is a pointer whose low half \<open>atoport\<close> prints as a number, so its address
  \<open>service_pointer\<close> matters and its text does not. \<open>listen\<close> is not checked.
\<close>

definition balancer_main :: "names \<Rightarrow> string list \<Rightarrow> 64 word \<Rightarrow> (nat \<Rightarrow> nat \<Rightarrow> Balancer.vm_data)
  \<Rightarrow> c_int \<times> bool \<Rightarrow> c_int \<times> bool \<Rightarrow> (destination \<times> listener \<times> balancer) res"
where
  "balancer_main ns argv service_pointer junk = (\<lambda>(sockfd_controller, connected) (sock, bound).
     if length argv \<noteq> 4 then Inl Exit_Failure
     else if sint sockfd_controller < 0 \<or> \<not> connected then Inl Exit_Failure
     else if sint sock < 0 \<or> \<not> bound then Inl Exit_Failure
     else Inr (\<lparr>sin_addr = inet_addr ns (argv ! 2), sin_port = htons (ucast (word_of_int (atoi (argv ! 3)) :: c_int))\<rparr>,
            \<lparr>l_socket = sock, l_port = ucast (atoport ns service_pointer [])\<rparr>,
            create_system_image junk))"

section \<open>What the start needs\<close>

text \<open>
  A controller whose every system call succeeds starts with empty tables, the two ports of its
  arguments, and no leader, if the value that \<open>accept_load_balancer\<close> forgets to return happens not
  to be negative; otherwise it exits with its load balancer connected. It never exits for two
  ports that differ as numbers but not in their sixteen bits.
\<close>

theorem controller_starts:
  assumes "length argv = 4" "atoi (argv ! 1) \<noteq> atoi (argv ! 2)"
    and "sk1 \<noteq> - 1" "sk2 \<noteq> - 1" "accepted \<noteq> - 1"
    and net: "start_network na = Some (Inr n)"
  shows "controller_main argv junk (sk1, True, True) (sk2, True, True) na (accepted, 0, left) =
    Some (if sint left < 0 then Inl Exit_Failure
      else Inr \<lparr>ml_model = atoi (argv ! 3),
        vm_listener = \<lparr>l_socket = sk1, l_port = htons (word_of_int (atoi (argv ! 1)))\<rparr>,
        balancer_listener = \<lparr>l_socket = sk2, l_port = htons (word_of_int (atoi (argv ! 2)))\<rparr>,
        tables = init_server junk, network = n\<rparr>)
    \<and> server_ok (init_server junk) \<and> \<not> am_i_leader (ldr n) \<and> leader_socket (ldr n) = - 1"
proof -
  have "ucast (word_of_int i :: c_int) = (word_of_int i :: 16 word)" for i
    by (rule bit_word_eqI) (auto simp: bit_simps)
  moreover have "\<not> am_i_leader (ldr n) \<and> leader_socket (ldr n) = - 1"
    using net by (cases na) (auto simp: initialize_leader_def no_network_def init_leader_def rbind_eq_Inr
        split: option.splits)
  ultimately show ?thesis
    using assms server_ok_init by (auto simp: controller_main_def accept_load_balancer_def)
qed

text \<open>
  C34. The balancer listens where its first argument lies, not where it says. Unless a service is
  named by a number, the port is the low half of the pointer to the argument, read as an \<open>int\<close>,
  if that is between 1 and 65535, and port 65535 otherwise.
\<close>

theorem balancer_port:
  assumes "length argv = 4" "0 \<le> sint sc" "0 \<le> sint sk"
    and "\<And>name proto. getservbyname ns name proto = None"
    and "p = sint (ucast service_pointer :: c_int)"
  shows "\<exists>d. balancer_main ns argv service_pointer junk (sc, True) (sk, True) =
      Inr (d, \<lparr>l_socket = sk, l_port = (if 1 \<le> p \<and> p \<le> 65535 then htons (word_of_int p) else - 1)\<rparr>,
        create_system_image junk)"
proof -
  have "scan_int (show_int p) = Some (p, [])" using scan_show_int [of "[]" p] by (simp add: sep_def)
  moreover have "ucast (ucast (h :: 16 word) :: c_int) = h" for h
    by (rule bit_word_eqI) (auto simp: bit_simps)
  moreover have "(ucast (- 1 :: c_int) :: 16 word) = - 1"
    by (rule bit_word_eqI) (auto simp: bit_simps)
  ultimately show ?thesis
    using assms by (auto simp: balancer_main_def atoport_def Let_def)
qed

section \<open>Witnesses\<close>

definition no_names :: names where
  "no_names = \<lparr>getservbyname = (\<lambda>_ _. None), inet_addr = (\<lambda>_. 1), gethostbyname = (\<lambda>_. None)\<rparr>"

text \<open>The argument lies at an address that ends in 8080; it asks for the service http.\<close>

theorem balancer_port_witness:
  "\<exists>d. balancer_main no_names [''balancer'', ''http'', ''10.0.0.9'', ''4000''] 0x7FFD00001F90 (\<lambda>_ _. some_vm) (3, True) (4, True)
    = Inr (d, \<lparr>l_socket = 4, l_port = htons 8080\<rparr>, create_system_image (\<lambda>_ _. some_vm))"
  using balancer_port [of "[''balancer'', ''http'', ''10.0.0.9'', ''4000'']" 3 4 no_names 8080 "0x7FFD00001F90" "\<lambda>_ _. some_vm"]
  by (simp add: no_names_def)

theorem controller_starts_witness:
  "\<exists>n :: net. controller_main [''server'', ''4000'', ''4001'', ''1''] (\<lambda>_ _. blank_vm) (3, True, True) (4, True, True)
      (5, True, Some [(''10.0.0.2 '', [6])], Some [''10.0.0.2 ''], zero_time) (7, 0, - 1) = Some (Inl Exit_Failure)
    \<and> server_ok (init_server (\<lambda>_ _. blank_vm)) \<and> leader_socket (ldr n) = - 1"
proof -
  have a: "atoi ''4000'' = 4000" "atoi ''4001'' = 4001" by code_simp+
  obtain n where "start_network (5, True, Some [(''10.0.0.2 '', [6])], Some [''10.0.0.2 ''], zero_time) = Some (Inr n)"
    by (simp add: initialize_broadcast_def start_server_dgram_def initialize_leader_def register_callback_def
        no_network_def init_bcast_def MAX_CONTROLLERS_def MAX_CALLBACKS_def LEADER_HEARTBEAT_def LEADER_PROPOSE_def)
  moreover have "length [''server'', ''4000'', ''4001'', ''1''] = 4"
    "atoi ([''server'', ''4000'', ''4001'', ''1''] ! 1) \<noteq> atoi ([''server'', ''4000'', ''4001'', ''1''] ! 2)"
    "(3 :: c_int) \<noteq> - 1" "(4 :: c_int) \<noteq> - 1" "(7 :: c_int) \<noteq> - 1" by (simp_all add: a)
  ultimately have "controller_main [''server'', ''4000'', ''4001'', ''1''] (\<lambda>_ _. blank_vm) (3, True, True) (4, True, True)
      (5, True, Some [(''10.0.0.2 '', [6])], Some [''10.0.0.2 ''], zero_time) (7, 0, - 1) = Some (Inl Exit_Failure)"
    "server_ok (init_server (\<lambda>_ _. blank_vm))" "leader_socket (ldr n) = - 1"
    using controller_starts [of "[''server'', ''4000'', ''4001'', ''1'']" 3 4 7
      "(5, True, Some [(''10.0.0.2 '', [6])], Some [''10.0.0.2 ''], zero_time)" n "\<lambda>_ _. blank_vm" "- 1"] by simp_all
  then show ?thesis by blast
qed

end
