(* ===== verification/System.thy ===== *)
theory System
  imports Startup Comm_Thread
begin






section \<open>The invariant\<close>







section \<open>What reaches the load balancer\<close>




section \<open>A machine that registered in stand-by\<close>









section \<open>The time a machine is served\<close>


section \<open>A failover\<close>








end
