(* ===== verification/Training.thy ===== *)
theory Training
  imports Features Db_File
begin

text \<open>
  From the monitored machine to the training data: the text of \<open>get_features\<close>
  (\<open>controller/client.c\<close>) with a newline behind it is the record that the model builder
  (\<open>model_build/aggregate.c\<close>) expects in its database.
\<close>










section \<open>A machine at rest\<close>





end
