(* ===== verification/Utilities.thy ===== *)
theory Utilities
  imports C_Float
begin

text \<open>
  The two programs that wear a machine out (\<open>utilities/leak.c\<close>, \<open>utilities/thread.c\<close>): the first
  allocates and never frees, the second starts threads that burn the processor. The values of
  \<open>random()\<close> are a list, integers from 0 to \<open>RAND_MAX\<close>; the logarithm of the mathematical library
  is an argument. All bounds passed to \<open>RandomRange\<close> keep its integer arithmetic far from overflow,
  so that it is done on \<open>int\<close>.
\<close>

definition RAND_MAX :: int where
  "RAND_MAX = 2147483647"

definition Random :: "int \<Rightarrow> fl" where
  "Random r = fdiv binary64 (f_of_int binary64 r) (f_of_int binary64 (RAND_MAX - 1))"

definition RandomRange :: "int \<Rightarrow> int \<Rightarrow> int \<Rightarrow> int" where
  "RandomRange mn mx r = \<lfloor>fval (fmul binary64 (Random r) (f_of_int binary64 (mx - mn + 1)))\<rfloor> + mn"

definition Expent :: "(fl \<Rightarrow> fl) \<Rightarrow> fl \<Rightarrow> int \<Rightarrow> fl res" where
  "Expent clog mean r =
     (if flt mean (FZero False) then Inl Abort
      else Inr (fmul binary64 (fneg mean) (clog (fsub binary64 (f_of_int binary64 1) (Random r)))))"

section \<open>Waiting\<close>

text \<open>
  Both programs draw their waiting time in the same way. The label \<open>rewait\<close> is reached again with
  probability about one fifth; \<open>None\<close> when the random numbers are used up.
\<close>

definition threshold_of :: "int \<Rightarrow> int \<Rightarrow> int \<Rightarrow> fl" where
  "threshold_of mn mx d = fdiv binary64 (f_of_int binary64 (mn + mx)) (f_of_int binary64 d)"

fun rewait :: "int \<Rightarrow> int \<Rightarrow> fl \<Rightarrow> fl \<Rightarrow> int list \<Rightarrow> (fl \<times> int list) option" where
  "rewait mn mx one_wait_time waiting_time [] = None"
| "rewait mn mx one_wait_time waiting_time (r # rs) =
     (let w = fadd binary64 waiting_time one_wait_time in
      if flt (f_of_int binary64 (RandomRange mn mx r)) (threshold_of mn mx 5)
      then rewait mn mx one_wait_time w rs else Some (w, rs))"

definition waiting_time_of :: "(fl \<Rightarrow> fl) \<Rightarrow> int \<Rightarrow> int \<Rightarrow> fl \<Rightarrow> int list \<Rightarrow> (fl \<times> int list) res option" where
  "waiting_time_of clog mn mx current_mean rs =
     (case rs of [] \<Rightarrow> None | r # rs1 \<Rightarrow>
       (case Expent clog current_mean r of Inl e \<Rightarrow> Some (Inl e) | Inr one_wait_time \<Rightarrow>
         (case rewait mn mx one_wait_time (FZero False) rs1 of
            None \<Rightarrow> None
          | Some (w, []) \<Rightarrow> None
          | Some (w, r2 # rs2) \<Rightarrow>
              Some (Inr (if flt (f_of_int binary64 (RandomRange mn mx r2)) (threshold_of mn mx 50)
                         then fmul binary64 w (f_of_int binary64 40) else w, rs2)))))"

section \<open>The leak\<close>

text \<open>A pass of \<open>main\<close>: how long it waits and how many bytes it then takes for ever.\<close>

fun leak_pass :: "(fl \<Rightarrow> fl) \<Rightarrow> int list \<Rightarrow> (int \<times> fl \<times> int list) res option" where
  "leak_pass clog (r1 # r2 # rs) =
     (let current_mean = f_of_int binary64 (RandomRange 500 1000000 r1);
          leak = RandomRange (1024 * 1024) (1024 * 1024 * 1024) r2
      in map_option (\<lambda>r. rbind r (\<lambda>(w, rs'). Inr (leak, w, rs'))) (waiting_time_of clog 500 1000000 current_mean rs))"
| "leak_pass clog rs = None"

text \<open>The bytes leaked by some number of passes.\<close>

fun leaked :: "nat \<Rightarrow> (fl \<Rightarrow> fl) \<Rightarrow> int list \<Rightarrow> int res option" where
  "leaked 0 clog rs = Some (Inr 0)"
| "leaked (Suc n) clog rs =
     (case leak_pass clog rs of
        None \<Rightarrow> None
      | Some (Inl e) \<Rightarrow> Some (Inl e)
      | Some (Inr (leak, w, rs')) \<Rightarrow> map_option (\<lambda>r. rbind r (\<lambda>k. Inr (leak + k))) (leaked n clog rs'))"

section \<open>The threads\<close>

text \<open>
  A pass of \<open>main\<close> of \<open>thread.c\<close>: the wait before the next thread, and the count of threads.
\<close>

fun spawn_pass :: "(fl \<Rightarrow> fl) \<Rightarrow> bool \<Rightarrow> nat \<Rightarrow> int list \<Rightarrow> (nat \<times> fl \<times> int list) res option" where
  "spawn_pass clog created k [] = None"
| "spawn_pass clog created k (r # rs) =
     (let current_mean = f_of_int binary64 (RandomRange 50000000 200000000 r)
      in map_option (\<lambda>x. rbind x (\<lambda>(w, rs'). Inr (if created then Suc k else k, w, rs')))
           (waiting_time_of clog 50000000 200000000 current_mean rs))"

text \<open>
  The inner loop of \<open>steal_my_cpu\<close>: \<open>*ptr++; ptr++;\<close> moves two characters on after it has looked
  at one. The argument is the memory of the string from \<open>ptr\<close> on, its terminator included.
\<close>

fun scan_string :: "char list \<Rightarrow> unit res" where
  "scan_string [] = Inl Out_Of_Bounds"
| "scan_string [c] = (if c = char_of (0 :: nat) then Inr () else Inl Out_Of_Bounds)"
| "scan_string (c # d # cs) = (if c = char_of (0 :: nat) then Inr () else scan_string cs)"

definition c_literal :: "string \<Rightarrow> char list" where
  "c_literal s = s @ [char_of (0 :: nat)]"

text \<open>A pass of the endless loop: a thousand scans and a chance to sleep, for how long.\<close>

definition steal_pass :: "int \<Rightarrow> int \<Rightarrow> int option res" where
  "steal_pass r r' =
     rbind (foldl (\<lambda>x i. rbind x (\<lambda>u. scan_string (c_literal ''abcdefghijklm''))) (Inr ()) [0..<1000 :: nat])
       (\<lambda>u. Inr (if flt (f_of_int binary64 (RandomRange 1 10 r)) (f_lit binary64 1 2)
                 then Some (10000 * RandomRange 1 10 r') else None))"

section \<open>The range of the random numbers\<close>

abbreviation rnd64 :: "real \<Rightarrow> real" where
  "rnd64 \<equiv> rnd binary64"

lemma b64_params: "emin binary64 = - 1022" "emax binary64 = 1023" "prec binary64 = 53"
  by (simp_all add: emin_def binary64_def)

lemma Random_value:
  assumes "0 \<le> r" "r \<le> RAND_MAX"
  shows "is_num (Random r)" "fval (Random r) = rnd64 (of_int r / 2147483646)"
proof -
  have "\<bar>real_of_int r / 2147483646\<bar> \<le> pow2 1" using assms by (simp add: RAND_MAX_def)
  then have v: "fval (round_fl binary64 (of_int r / 2147483646)) = rnd64 (of_int r / 2147483646)"
    "is_num (round_fl binary64 (of_int r / 2147483646))"
    using fval_round_fl [of "of_int r / 2147483646" 1 binary64] by (simp_all add: b64_params)
  have d: "f_of_int binary64 (RAND_MAX - 1) = Fin 2147483646"
    using f_of_int_exact [of 2147483646] by (simp add: RAND_MAX_def)
  have "is_num (Random r) \<and> fval (Random r) = rnd64 (of_int r / 2147483646)"
  proof (cases "r = 0")
    case True
    then show ?thesis by (simp add: Random_def d) (simp add: f_of_int_def)
  next
    case False
    have "f_of_int binary64 r = Fin (of_int r)" using f_of_int_exact [of r] False assms by (simp add: RAND_MAX_def)
    then show ?thesis using v by (simp add: Random_def d)
  qed
  then show "is_num (Random r)" "fval (Random r) = rnd64 (of_int r / 2147483646)" by blast+
qed

lemma RandomRange_value:
  assumes "0 \<le> r" "r \<le> RAND_MAX" "mn \<le> mx" "mx - mn + 1 \<le> 2 ^ 30"
  shows "RandomRange mn mx r = \<lfloor>rnd64 (rnd64 (of_int r / 2147483646) * of_int (mx - mn + 1))\<rfloor> + mn"
proof -
  let ?n = "mx - mn + 1"
  have n: "is_num (f_of_int binary64 ?n)" "fval (f_of_int binary64 ?n) = of_int ?n"
    using assms(3,4) by (simp_all add: is_num_f_of_int fval_f_of_int)
  have "\<bar>rnd64 (of_int r / 2147483646)\<bar> \<le> pow2 1"
    using assms(1,2) by (intro rnd_abs_le) (simp_all add: RAND_MAX_def b64_params)
  moreover have "\<bar>real_of_int ?n\<bar> \<le> pow2 30"
  proof -
    have "real_of_int ?n \<le> of_int (2 ^ 30)" using assms(4) of_int_le_iff by blast
    then show ?thesis using assms(3) by (simp add: pow2_def)
  qed
  ultimately have "\<bar>rnd64 (of_int r / 2147483646) * of_int ?n\<bar> \<le> pow2 1 * pow2 30"
    unfolding abs_mult by (intro mult_mono) auto
  then have "\<bar>fval (Random r) * fval (f_of_int binary64 ?n)\<bar> \<le> pow2 31"
    using pow2_add [of 1 30] by (simp add: Random_value [OF assms(1,2)] n)
  from fval_fmul(1) [OF Random_value(1) [OF assms(1,2)] n(1) this, of binary64] show ?thesis
    by (simp add: RandomRange_def Random_value [OF assms(1,2)] n b64_params)
qed

lemma rnd64_fixed_int: "\<bar>n\<bar> \<le> 2 ^ 53 \<Longrightarrow> rnd64 (of_int n) = of_int n"
  by (intro rnd_fixed representable_int) (simp_all add: b64_params)

lemma rnd64_rel: "\<bar>rnd64 q - q\<bar> \<le> \<bar>q\<bar> / 2 ^ 53 + 1 / 2 ^ 60"
proof -
  have "pow2 (emin binary64 - 53) \<le> pow2 (- 60)" by (simp add: b64_params)
  then have "pow2 (emin binary64 - 53) \<le> 1 / 2 ^ 60" by (simp add: pow2_def [of "- 60"])
  moreover have "\<bar>q\<bar> * pow2 (- 53) = \<bar>q\<bar> / 2 ^ 53" by (simp add: pow2_def)
  moreover have "\<bar>rnd64 q - q\<bar> \<le> \<bar>q\<bar> * pow2 (- 53) + pow2 (emin binary64 - 53)"
    using rnd_error_rel [of binary64 q] b64_params(3) by simp
  ultimately show ?thesis by linarith
qed

text \<open>The scaled number, by the three cases of the quotient.\<close>

lemma scaled_random:
  fixes n :: int
  assumes "0 \<le> r" "r \<le> RAND_MAX" "1 \<le> n" "n \<le> 2 ^ 30"
    and "p = rnd64 (rnd64 (of_int r / 2147483646) * of_int n)"
  shows "0 \<le> p" "p < of_int n + 1" "r < RAND_MAX - 1 \<Longrightarrow> p < of_int n" "RAND_MAX - 1 \<le> r \<Longrightarrow> of_int n \<le> p"
proof -
  define x where "x = real_of_int r / 2147483646"
  define R where "R = rnd64 x"
  define N where "N = real_of_int n"
  have x: "0 \<le> x" "x \<le> 1 + 1 / 2147483646" using assms(1,2) by (simp_all add: x_def RAND_MAX_def)
  have N: "1 \<le> N" "N \<le> 1073741824" using assms(3,4) by (simp_all add: N_def)
  have p: "p = rnd64 (R * N)" by (simp add: assms(5) R_def x_def N_def)
  have R: "0 \<le> R" using x(1) by (simp add: R_def rnd_sign)
  show "0 \<le> p" unfolding p using R N by (intro rnd_sign) simp
  have eR: "R \<le> x + x / 2 ^ 53 + 1 / 2 ^ 60" using rnd64_rel [of x] x(1) by (simp add: R_def)
  have RN: "0 \<le> R * N" using R N by simp
  have ep: "p \<le> R * N + R * N / 2 ^ 53 + 1 / 2 ^ 60"
    using rnd64_rel [of "R * N"] unfolding p abs_of_nonneg [OF RN] by linarith
  have upper: "p \<le> (y + y / 2 ^ 53 + 1 / 2 ^ 60) * N + (y + y / 2 ^ 53 + 1 / 2 ^ 60) * N / 2 ^ 53 + 1 / 2 ^ 60"
    if "x \<le> y" for y
  proof -
    have "R \<le> y + y / 2 ^ 53 + 1 / 2 ^ 60" using eR that divide_right_mono [OF that, of "2 ^ 53"] by simp
    then have q: "R * N \<le> (y + y / 2 ^ 53 + 1 / 2 ^ 60) * N" using N by (intro mult_right_mono) auto
    have "R * N / 2 ^ 53 \<le> (y + y / 2 ^ 53 + 1 / 2 ^ 60) * N / 2 ^ 53" by (rule divide_right_mono [OF q]) simp
    then show ?thesis using ep q by linarith
  qed
  show "p < of_int n + 1" using upper [OF x(2)] N by (simp add: N_def [symmetric])
  show "p < of_int n" if "r < RAND_MAX - 1"
  proof -
    have "x \<le> 1 - 1 / 2147483646" using that by (simp add: x_def RAND_MAX_def field_simps)
    from upper [OF this] N show ?thesis by (simp add: N_def [symmetric])
  qed
  show "of_int n \<le> p" if "RAND_MAX - 1 \<le> r"
  proof -
    have "real_of_int 1 \<le> x" using that by (simp add: x_def RAND_MAX_def)
    then have "rnd64 (of_int 1) \<le> R" unfolding R_def by (intro rnd_mono) (simp_all add: b64_params)
    then have "1 \<le> R" using rnd64_fixed_int [of 1] by simp
    then have "N \<le> R * N" using N by simp
    then have "rnd64 (of_int n) \<le> p" unfolding p N_def by (intro rnd_mono) (simp_all add: b64_params)
    then show ?thesis using rnd64_fixed_int [of n] assms(3,4) by simp
  qed
qed

lemma RandomRange_bounds:
  assumes "0 \<le> r" "r \<le> RAND_MAX" "mn \<le> mx" "mx - mn + 1 \<le> 2 ^ 30"
  shows "mn \<le> RandomRange mn mx r" "RandomRange mn mx r \<le> mx + 1"
    "RandomRange mn mx r = mx + 1 \<longleftrightarrow> RAND_MAX - 1 \<le> r"
proof -
  define p where "p = rnd64 (rnd64 (of_int r / 2147483646) * of_int (mx - mn + 1))"
  have v: "RandomRange mn mx r = \<lfloor>p\<rfloor> + mn" using RandomRange_value [OF assms] by (simp add: p_def)
  note b = scaled_random [OF assms(1,2) _ assms(4) p_def]
  have n: "1 \<le> mx - mn + 1" using assms(3) by simp
  show "mn \<le> RandomRange mn mx r" using b(1) [OF n] by (simp add: v)
  have hi: "\<lfloor>p\<rfloor> \<le> mx - mn + 1" using b(2) [OF n] by (simp add: floor_le_iff)
  then show "RandomRange mn mx r \<le> mx + 1" by (simp add: v)
  show "RandomRange mn mx r = mx + 1 \<longleftrightarrow> RAND_MAX - 1 \<le> r"
  proof (cases "RAND_MAX - 1 \<le> r")
    case True
    then have "mx - mn + 1 \<le> \<lfloor>p\<rfloor>" using b(4) [OF n] by (simp add: le_floor_iff)
    then show ?thesis using hi True by (simp add: v)
  next
    case False
    have "\<lfloor>p\<rfloor> < mx - mn + 1" unfolding floor_less_iff using b(3) [OF n] False by simp
    then show ?thesis using False by (simp add: v)
  qed
qed

text \<open>
  C40. \<open>RandomRange(min, max)\<close> stays within its bounds except for two of the 2147483648 values of
  \<open>random()\<close>, the largest two, for which it returns \<open>max + 1\<close>: \<open>Random()\<close> divides by
  \<open>RAND_MAX - 1\<close> and so exceeds what it means to be below one.
\<close>

theorem random_range:
  assumes "0 \<le> r" "r \<le> RAND_MAX" "mn \<le> mx" "mx - mn + 1 \<le> 2 ^ 30"
  shows "mn \<le> RandomRange mn mx r \<and> RandomRange mn mx r \<le> mx + 1
    \<and> (RandomRange mn mx r = mx + 1 \<longleftrightarrow> RAND_MAX - 1 \<le> r)"
  using RandomRange_bounds [OF assms] by blast

theorem random_range_witness:
  "RandomRange 1 10 RAND_MAX = 11 \<and> RandomRange 1 10 0 \<noteq> 11"
  using random_range [of RAND_MAX 1 10] random_range [of 0 1 10] by (simp add: RAND_MAX_def)

section \<open>What is taken from the machine\<close>

lemma rewait_rest: "rewait mn mx one w rs = Some (w', rs') \<Longrightarrow> set rs' \<subseteq> set rs"
  by (induction mn mx one w rs rule: rewait.induct) (auto simp: Let_def split: if_splits)

lemma waiting_rest: "waiting_time_of clog mn mx m rs = Some (Inr (w, rs')) \<Longrightarrow> set rs' \<subseteq> set rs"
  by (auto simp: waiting_time_of_def split: list.splits option.splits sum.splits dest!: rewait_rest)

text \<open>
  Every pass takes at least a megabyte and at most a byte more than a gigabyte, and nothing is
  ever given back: the leak of \<open>n\<close> passes lies between \<open>n\<close> times these bounds.
\<close>

theorem leak_bounds:
  assumes "leaked n clog rs = Some (Inr k)" "\<forall>r \<in> set rs. 0 \<le> r \<and> r \<le> RAND_MAX"
  shows "int n * 2 ^ 20 \<le> k \<and> k \<le> int n * (2 ^ 30 + 1)"
  using assms
proof (induction n arbitrary: rs k)
  case (Suc n)
  obtain leak w rs' where pass: "leak_pass clog rs = Some (Inr (leak, w, rs'))"
    and rest: "map_option (\<lambda>r. rbind r (\<lambda>k. Inr (leak + k))) (leaked n clog rs') = Some (Inr k)"
    using Suc.prems(1) by (auto split: option.splits sum.splits)
  obtain r1 r2 rs1 where rs: "rs = r1 # r2 # rs1"
    using pass by (cases "(clog, rs)" rule: leak_pass.cases) auto
  have leak: "leak = RandomRange (1024 * 1024) (1024 * 1024 * 1024) r2"
    and w: "waiting_time_of clog 500 1000000 (f_of_int binary64 (RandomRange 500 1000000 r1)) rs1 = Some (Inr (w, rs'))"
    using pass by (auto simp: rs Let_def rbind_eq_Inr)
  have "2 ^ 20 \<le> leak" "leak \<le> 2 ^ 30 + 1"
    using RandomRange_bounds(1,2) [of r2 "1024 * 1024" "1024 * 1024 * 1024"] Suc.prems(2) by (simp_all add: leak rs)
  moreover obtain k' where k': "leaked n clog rs' = Some (Inr k')" "k = leak + k'"
    using rest by (auto simp: rbind_eq_Inr)
  moreover have "\<forall>r \<in> set rs'. 0 \<le> r \<and> r \<le> RAND_MAX" using waiting_rest [OF w] Suc.prems(2) rs by auto
  with k'(1) have "int n * 2 ^ 20 \<le> k' \<and> k' \<le> int n * (2 ^ 30 + 1)"
    using Suc.IH by blast
  ultimately show ?case by (simp add: algebra_simps)
qed simp

section \<open>The thread that steals the processor\<close>

lemma scan_literal:
  "char_of (0 :: nat) \<notin> set s \<Longrightarrow>
   scan_string (c_literal s) = (if even (length s) then Inr () else Inl Out_Of_Bounds)"
  unfolding c_literal_def by (induction s rule: scan_string.induct) auto

text \<open>
  The loop over the string literal steps over its terminator: it looks at every second
  character, and the literal has thirteen. So the first pass of every thread reads behind it. Were
  it not so, the thread would still never sleep: the random number it compares with 0.01 is at
  least 1.
\<close>

theorem steal_overreads:
  "steal_pass r r' = Inl Out_Of_Bounds
   \<and> (char_of (0 :: nat) \<notin> set s \<longrightarrow>
       scan_string (c_literal s) = (if even (length s) then Inr () else Inl Out_Of_Bounds))
   \<and> (0 \<le> r \<and> r \<le> RAND_MAX \<longrightarrow> \<not> flt (f_of_int binary64 (RandomRange 1 10 r)) (f_lit binary64 1 2))"
proof (intro conjI impI)
  have err: "foldl (\<lambda>x i. rbind x (\<lambda>u. f)) (Inl e) is = Inl e" for f :: "unit res" and e and "is" :: "nat list"
    by (induction "is") auto
  have scan: "scan_string (c_literal ''abcdefghijklm'') = Inl Out_Of_Bounds" by code_simp
  have upt: "[0..<1000 :: nat] = 0 # [Suc 0..<1000]" by (rule upt_conv_Cons) simp
  show "steal_pass r r' = Inl Out_Of_Bounds"
    by (simp only: steal_pass_def upt foldl.simps rbind.simps scan err)
next
  assume "char_of (0 :: nat) \<notin> set s"
  then show "scan_string (c_literal s) = (if even (length s) then Inr () else Inl Out_Of_Bounds)" by (rule scan_literal)
next
  assume "0 \<le> r \<and> r \<le> RAND_MAX"
  then have "1 \<le> RandomRange 1 10 r" "RandomRange 1 10 r \<le> 11" using RandomRange_bounds(1,2) [of r 1 10] by simp_all
  then have "is_num (f_of_int binary64 (RandomRange 1 10 r))" "1 \<le> fval (f_of_int binary64 (RandomRange 1 10 r))"
    by (simp_all add: is_num_f_of_int fval_f_of_int)
  moreover have "is_num (f_lit binary64 1 2) \<and> fval (f_lit binary64 1 2) \<le> 1"
    using fval_round_fl [of "1 / 100" 0 binary64] rnd_abs_le [of "1 / 100" 0 binary64]
    by (simp add: f_lit_def b64_params)
  ultimately show "\<not> flt (f_of_int binary64 (RandomRange 1 10 r)) (f_lit binary64 1 2)"
    using flt_fval by force
qed

theorem steal_overreads_witness:
  "steal_pass 0 0 = Inl Out_Of_Bounds \<and> scan_string (c_literal ''abcd'') = Inr ()
   \<and> \<not> flt (f_of_int binary64 (RandomRange 1 10 5)) (f_lit binary64 1 2)"
  using steal_overreads [of 0 0 "''abcd''"] steal_overreads [of 5 0 "''abcd''"]
  by (simp add: RAND_MAX_def char_of_def)

lemma largest_range: "mn \<le> mx \<Longrightarrow> mx - mn + 1 \<le> 2 ^ 30 \<Longrightarrow> RandomRange mn mx RAND_MAX = mx + 1"
  using RandomRange_bounds(3) [of RAND_MAX mn mx] by (simp add: RAND_MAX_def)

theorem leak_bounds_witness:
  "leaked 1 (\<lambda>_. FZero False) (replicate 5 RAND_MAX) = Some (Inr (2 ^ 30 + 1))
   \<and> int 1 * 2 ^ 20 \<le> (2 ^ 30 + 1 :: int) \<and> (2 ^ 30 + 1 :: int) \<le> int 1 * (2 ^ 30 + 1)"
proof -
  have r: "RandomRange 500 1000000 RAND_MAX = 1000001" "RandomRange 1048576 1073741824 RAND_MAX = 1073741825"
    by (simp_all add: largest_range)
  have e: "Expent (\<lambda>_. FZero False) (f_of_int binary64 1000001) RAND_MAX = Inr (FZero True)"
    by (simp add: Expent_def fl_eval)
  have t: "\<not> flt (f_of_int binary64 1000001) (threshold_of 500 1000000 5)"
    "\<not> flt (f_of_int binary64 1000001) (threshold_of 500 1000000 50)"
    by (simp_all add: threshold_of_def fl_eval)
  have run: "leaked 1 (\<lambda>_. FZero False) (replicate 5 RAND_MAX) = Some (Inr (2 ^ 30 + 1))"
    by (simp add: eval_nat_numeral r waiting_time_of_def e t Let_def)
  have "\<forall>r \<in> set (replicate 5 RAND_MAX). 0 \<le> r \<and> r \<le> RAND_MAX" by (simp add: RAND_MAX_def)
  from leak_bounds [OF run this] run show ?thesis by blast
qed

end
