(* ===== verification/Repmat.thy ===== *)
theory Repmat
  imports C_Float
begin

text \<open>
  The extension of Matlab that the regression scripts of the model builder call to tile an array
  (\<open>model_build/lasso/sub/repmatC.c\<close>). A region of memory is a list of bytes and a pointer an index
  into it; the products of \<open>int\<close> wrap at 32 bits as written, and \<open>size_t\<close> at 64. The interface of
  Matlab is not part of the repository: an \<open>mxArray\<close> is what the functions that read it return, and
  \<open>mxCreateNumericArray\<close> is an argument.
\<close>

section \<open>Repeating a block of memory\<close>

definition memcpy :: "'a list \<Rightarrow> int \<Rightarrow> 'a list \<Rightarrow> int \<Rightarrow> int \<Rightarrow> 'a list res" where
  "memcpy dest p src q n =
     (if 0 \<le> p \<and> p + n \<le> int (length dest) \<and> 0 \<le> q \<and> q + n \<le> int (length src)
      then Inr (take (nat p) dest @ take (nat n) (drop (nat q) src) @ drop (nat (p + n)) dest)
      else Inl Out_Of_Bounds)"

definition size_of_int :: "int \<Rightarrow> int" where
  "size_of_int n = n mod 2 ^ 64"

text \<open>The branch that is compiled; it does not return for a count below 1.\<close>

partial_function (option) memrep :: "'a list \<Rightarrow> int \<Rightarrow> int \<Rightarrow> int \<Rightarrow> 'a list res option" where
  "memrep mem dest chunk rep =
     (if rep = 1 then Some (Inr mem)
      else case memcpy mem (dest + chunk) mem dest chunk of
             Inl e \<Rightarrow> Some (Inl e)
           | Inr mem1 \<Rightarrow>
               if odd rep
               then (case memcpy mem1 (dest + chunk + chunk) mem1 (dest + chunk) chunk of
                       Inl e \<Rightarrow> Some (Inl e)
                     | Inr mem2 \<Rightarrow> memrep mem2 (dest + chunk) (size_of_int (2 * chunk)) (rep div 2))
               else memrep mem1 dest (size_of_int (2 * chunk)) (rep div 2))"

text \<open>The slow way, which the source keeps behind \<open>#if 0\<close>.\<close>

definition memrep_slow :: "'a list \<Rightarrow> int \<Rightarrow> int \<Rightarrow> int \<Rightarrow> 'a list res" where
  "memrep_slow mem dest chunk rep =
     foldl (\<lambda>m i. rbind m (\<lambda>m. memcpy m (dest + int i * chunk) m dest chunk)) (Inr mem) [1..<nat rep]"

section \<open>Tiling an array\<close>

definition imul :: "int \<Rightarrow> int \<Rightarrow> int" where
  "imul a b = wrap32 (a * b)"

fun repmat :: "'a list \<Rightarrow> int \<Rightarrow> 'a list \<Rightarrow> int \<Rightarrow> nat \<Rightarrow> int list \<Rightarrow> int list \<Rightarrow> int list \<Rightarrow> int list
    \<Rightarrow> 'a list res option" where
  "repmat dest p src q 0 destdimsize dimsize dims rep = Some (Inl Out_Of_Bounds)"
| "repmat dest p src q (Suc 0) destdimsize dimsize dims rep =
     (let chunk = size_of_int (dimsize ! 0) in
      wait_bind (Some (memcpy dest p src q chunk)) (\<lambda>dest. memrep dest p chunk (rep ! 0)))"
| "repmat dest p src q (Suc (Suc d)) destdimsize dimsize dims rep =
     wait_bind (foldl (\<lambda>m i. wait_bind m (\<lambda>dest.
           repmat dest (p + imul (int i) (destdimsize ! d)) src (q + imul (int i) (dimsize ! d))
             (Suc d) destdimsize dimsize dims rep))
         (Some (Inr dest)) [0..<nat (dims ! Suc d)])
       (\<lambda>dest. memrep dest p (size_of_int (imul (destdimsize ! d) (dims ! Suc d))) (rep ! Suc d))"

section \<open>The call from Matlab\<close>

type_synonym byte = "8 word"

record mx_array =
  mx_sparse :: bool
  mx_cell :: bool
  mx_dims :: "int list"
  mx_elt_size :: int
  mx_data :: "byte list"
  mx_imag :: "byte list option"
  mx_columns :: nat
  mx_numbers :: "fl list"

datatype mex_outcome =
    Message string
  | No_Memory
  | Result "int list" "byte list" "byte list option"

text \<open>\<open>(int)repv\<close>: outside the range of \<open>int\<close> the processor answers the smallest number.\<close>

definition int_of_double :: "fl \<Rightarrow> int" where
  "int_of_double x =
     (let n = (if 0 \<le> fval x then \<lfloor>fval x\<rfloor> else \<lceil>fval x\<rceil>)
      in if is_num x \<and> - (2 ^ 31) \<le> n \<and> n < 2 ^ 31 then n else - (2 ^ 31))"

fun dim_sizes :: "int \<Rightarrow> int list \<Rightarrow> int list" where
  "dim_sizes s [] = []"
| "dim_sizes s (d # ds) = imul s d # dim_sizes (imul s d) ds"

text \<open>
  The vector of repetitions without its padding; \<open>ndim\<close> is the number of dimensions of the source.
  The arguments can be arrays without elements.
\<close>

fun given_reps :: "nat \<Rightarrow> mx_array list \<Rightarrow> int list res" where
  "given_reps ndim [a] =
     (if mx_columns a \<le> length (mx_numbers a)
      then let rep = map int_of_double (take (mx_columns a) (mx_numbers a)) in
           if length rep = 1 then (if 2 \<le> ndim then Inr (rep @ rep) else Inl Out_Of_Bounds)
           else Inr rep
      else Inl Out_Of_Bounds)"
| "given_reps ndim args =
     (if \<forall>a \<in> set args. mx_numbers a \<noteq> [] then Inr (map (\<lambda>a. int_of_double (hd (mx_numbers a))) args)
      else Inl Out_Of_Bounds)"

definition tile_part :: "byte list \<Rightarrow> byte list \<Rightarrow> nat \<Rightarrow> int list \<Rightarrow> int list \<Rightarrow> int list \<Rightarrow> int list
    \<Rightarrow> byte list res option" where
  "tile_part dest src ndim destdimsize dimsize dims rep =
     wait_bind (repmat dest 0 src 0 ndim destdimsize dimsize dims rep)
       (\<lambda>dest. if ndim < length rep
          then memrep dest 0 (size_of_int (destdimsize ! (ndim - 1))) (foldl imul 1 (drop ndim rep))
          else Some (Inr dest))"

definition mexFunction :: "(int list \<Rightarrow> int \<Rightarrow> byte list option) \<Rightarrow> mx_array list \<Rightarrow> mex_outcome res option" where
  "mexFunction mxCreate prhs =
     (case prhs of
        srcmat # arg # args \<Rightarrow>
          if mx_sparse srcmat then Some (Inr (Message ''Sorry, can't handle sparse matrices yet.''))
          else if mx_cell srcmat then Some (Inr (Message ''Sorry, can't handle cell arrays yet.''))
          else let dims = mx_dims srcmat; ndim = length dims; eltsize = mx_elt_size srcmat;
                   dimsize = dim_sizes eltsize dims in
            wait_bind (Some (given_reps ndim (arg # args))) (\<lambda>given.
              let rep = given @ replicate (ndim - length given) 1;
                  destdims = map2 imul dims rep @ drop ndim rep;
                  destdimsize = dim_sizes eltsize (take ndim destdims)
              in case mxCreate destdims eltsize of None \<Rightarrow> Some (Inr No_Memory) | Some zeros \<Rightarrow>
                if 0 \<in> set given then Some (Inr (Result destdims zeros (map_option (\<lambda>i. zeros) (mx_imag srcmat))))
                else wait_bind (tile_part zeros (mx_data srcmat) ndim destdimsize dimsize dims rep) (\<lambda>re.
                  case mx_imag srcmat of
                    None \<Rightarrow> Some (Inr (Result destdims re None))
                  | Some im \<Rightarrow> wait_bind (tile_part zeros im ndim destdimsize dimsize dims rep)
                      (\<lambda>im'. Some (Inr (Result destdims re (Some im'))))))
      | _ \<Rightarrow> Some (Inr (Message ''Usage: xrepmat(A, [N M ...])'')))"

section \<open>The repeated block\<close>

lemma memcpy_nth:
  assumes "p + n \<le> length d" "q + n \<le> length s"
  shows "\<exists>d'. memcpy d (int p) s (int q) (int n) = Inr d' \<and> length d' = length d
    \<and> (\<forall>i < length d. d' ! i = (if p \<le> i \<and> i < p + n then s ! (q + (i - p)) else d ! i))"
proof -
  let ?d = "take p d @ take n (drop q s) @ drop (p + n) d"
  have "length (take n (drop q s)) = n" "length (take p d) = p" using assms by simp_all
  then have "length ?d = length d \<and> (\<forall>i < length d. ?d ! i = (if p \<le> i \<and> i < p + n then s ! (q + (i - p)) else d ! i))"
    using assms by (auto simp: nth_append)
  moreover have "memcpy d (int p) s (int q) (int n) = Inr ?d" using assms by (simp add: memcpy_def nat_int_add)
  ultimately show ?thesis by blast
qed

lemma memcpy_out: "length d < p + n \<Longrightarrow> memcpy d (int p) s (int q) (int n) = Inl Out_Of_Bounds"
  by (simp add: memcpy_def)

text \<open>\<open>m'\<close> is \<open>m\<close> with the block of \<open>c\<close> bytes at \<open>p\<close> there \<open>r\<close> times.\<close>

definition tiled :: "nat \<Rightarrow> nat \<Rightarrow> nat \<Rightarrow> 'a list \<Rightarrow> 'a list \<Rightarrow> bool" where
  "tiled p c r m m' \<longleftrightarrow> length m' = length m
     \<and> (\<forall>i < length m. m' ! i = (if p \<le> i \<and> i < p + c * r then m ! (p + (i - p) mod c) else m ! i))"

lemma tiled_unique: "tiled p c r m a \<Longrightarrow> tiled p c r m b \<Longrightarrow> a = b"
  by (auto simp: tiled_def intro: nth_equalityI)


lemma tiled_1 [simp]: "tiled p c (Suc 0) m m"
  by (auto simp: tiled_def)

text \<open>A block of two copies, \<open>s\<close> copies behind the first, repeated again.\<close>

lemma tiled_double:
  assumes "tiled p c (s + 2) m m1" "tiled (p + c * s) (2 * c) k m1 m'" "1 \<le> k"
  shows "tiled p c (s + 2 * k) m m'"
  unfolding tiled_def
proof (intro conjI allI impI)
  show "length m' = length m" using assms by (simp add: tiled_def)
  fix i assume i: "i < length m"
  have m1: "m1 ! x = (if p \<le> x \<and> x < p + c * (s + 2) then m ! (p + (x - p) mod c) else m ! x)" if "x < length m" for x
    using assms(1) that by (simp add: tiled_def)
  have m': "m' ! i = (if p + c * s \<le> i \<and> i < p + c * s + 2 * c * k
      then m1 ! (p + c * s + (i - (p + c * s)) mod (2 * c)) else m1 ! i)"
    using assms(1,2) i by (simp add: tiled_def)
  have k: "c + c \<le> c * (k * 2)" using mult_le_mono2 [of 2 "k * 2" c] assms(3) by linarith
  show "m' ! i = (if p \<le> i \<and> i < p + c * (s + 2 * k) then m ! (p + (i - p) mod c) else m ! i)"
  proof (cases "p + c * s \<le> i \<and> i < p + c * s + 2 * c * k")
    case True
    then have c: "0 < c" by (cases c) auto
    obtain j where j: "i = p + c * s + j" using True le_Suc_ex by blast
    have "j mod (2 * c) < 2 * c" using c by simp
    moreover have "p + c * s + j mod (2 * c) < length m"
      using mod_less_eq_dividend [of j "2 * c"] i unfolding j by linarith
    moreover have "j mod (2 * c) mod c = j mod c" by (simp add: mod_mod_cancel)
    ultimately have "m1 ! (p + c * s + j mod (2 * c)) = m ! (p + j mod c)"
      using m1 [of "p + c * s + j mod (2 * c)"] i by (simp add: j algebra_simps)
    then show ?thesis using m' True by (simp add: j algebra_simps)
  next
    case False
    then have "m' ! i = m1 ! i" by (rule trans [OF m' if_not_P])
    moreover have "p + c * (s + 2 * k) = p + c * s + 2 * c * k" by (simp add: algebra_simps)
    moreover have "p + c * (s + 2) \<le> p + c * s + 2 * c * k" "p + c * s \<le> p + c * (s + 2)"
      using k by (simp_all add: algebra_simps)
    ultimately show ?thesis using m1 [OF i] False by (smt (verit) not_le order_trans)
  qed
qed

lemma size_exact: "n < 2 ^ 31 \<Longrightarrow> size_of_int (int n) = int n"
  by (simp add: size_of_int_def)

lemma size_double: "2 * c < 2 ^ 64 \<Longrightarrow> size_of_int (2 * int c) = int (2 * c)"
  by (simp add: size_of_int_def)

lemma copy_tiled:
  assumes "tiled p c r m m1" "1 \<le> r" "p + c * Suc r \<le> length m"
  shows "\<exists>m2. memcpy m1 (int (p + c * r)) m1 (int (p + c * (r - 1))) (int c) = Inr m2 \<and> tiled p c (Suc r) m m2"
proof -
  have l: "length m1 = length m" using assms(1) by (simp add: tiled_def)
  obtain s where r: "r = Suc s" using assms(2) by (cases r) auto
  obtain m2 where m2: "memcpy m1 (int (p + c * r)) m1 (int (p + c * s)) (int c) = Inr m2" "length m2 = length m1"
    "\<forall>i < length m1. m2 ! i = (if p + c * r \<le> i \<and> i < p + c * r + c then m1 ! (p + c * s + (i - (p + c * r))) else m1 ! i)"
    using memcpy_nth [of "p + c * r" c m1 "p + c * s" m1] assms(3) l by (auto simp: r algebra_simps)
  have "m2 ! i = (if p \<le> i \<and> i < p + c * Suc r then m ! (p + (i - p) mod c) else m ! i)" if i: "i < length m" for i
  proof (cases "p + c * r \<le> i \<and> i < p + c * r + c")
    case True
    then obtain j where j: "i = p + c * r + j" "j < c" using le_Suc_ex by fastforce
    have "p + c * s + j < length m" using i j by (simp add: r)
    then have "m1 ! (p + c * s + j) = m ! (p + (c * s + j) mod c)"
      using assms(1) j(2) by (simp add: tiled_def r)
    then show ?thesis using m2(3) i j l by (simp add: r)
  next
    case False
    have "i < length m1" using i l by simp
    from m2(3) [rule_format, OF this] False have "m2 ! i = m1 ! i" by (rule trans [OF _ if_not_P])
    then show ?thesis using assms(1) i False by (auto simp: tiled_def)
  qed
  then show ?thesis using m2(1,2) l by (auto simp: tiled_def r)
qed

lemma memrep_tiles:
  assumes "1 \<le> r" "p + c * r \<le> length m" "length m < 2 ^ 64"
  shows "\<exists>m'. memrep m (int p) (int c) (int r) = Some (Inr m') \<and> tiled p c r m m'"
  using assms
proof (induction r arbitrary: m p c rule: less_induct)
  case (less r)
  show ?case
  proof (cases "r = 1")
    case True
    then show ?thesis by (subst memrep.simps) (simp add: tiled_1)
  next
    case False
    define k where "k = r div 2"
    have k: "1 \<le> k" "k < r" using False less.prems(1) by (simp_all add: k_def)
    have r2: "c * 2 \<le> c * r" using False less.prems(1) by simp
    obtain m1 where m1: "memcpy m (int (p + c)) m (int p) (int c) = Inr m1" "tiled p c 2 m m1"
      using copy_tiled [OF tiled_1, of p c m] r2 less.prems by (auto simp: numeral_2_eq_2)
    have l1: "length m1 = length m" using m1(2) by (simp add: tiled_def)
    have s: "size_of_int (2 * int c) = int (2 * c)" using r2 less.prems by (intro size_double) linarith
    show ?thesis
    proof (cases "odd r")
      case True
      then have r: "r = 1 + 2 * k" by (simp add: k_def)
      then have "c * 3 \<le> c * r" using k by simp
      then obtain m2 where m2: "memcpy m1 (int (p + c * 2)) m1 (int (p + c)) (int c) = Inr m2" "tiled p c 3 m m2"
        using copy_tiled [OF m1(2)] less.prems by (auto simp: numeral_3_eq_3)
      have l2: "length m2 = length m" using m2(2) by (simp add: tiled_def)
      have "p + c + 2 * c * k \<le> length m2" using less.prems(2) l2 by (simp add: r algebra_simps)
      from less.IH [OF k(2) k(1) this] less.prems(3) l2 obtain m' where
        m': "memrep m2 (int (p + c)) (int (2 * c)) (int k) = Some (Inr m')" "tiled (p + c) (2 * c) k m2 m'" by auto
      have "tiled p c r m m'" using tiled_double [of p c 1 m m2 k m'] m2(2) m'(2) k(1) by (simp add: r numeral_3_eq_3)
      moreover have "memrep m (int p) (int c) (int r) = Some (Inr m')"
        using m1(1) m2(1) m'(1) True False s k_def
        by (subst memrep.simps) (simp add: algebra_simps zdiv_int)
      ultimately show ?thesis by blast
    next
      case even: False
      then have r: "r = 0 + 2 * k" by (simp add: k_def)
      have "p + 2 * c * k \<le> length m1" using less.prems(2) l1 by (simp add: r algebra_simps)
      from less.IH [OF k(2) k(1) this] less.prems(3) l1 obtain m' where
        m': "memrep m1 (int p) (int (2 * c)) (int k) = Some (Inr m')" "tiled p (2 * c) k m1 m'" by auto
      have "tiled p c r m m'" using tiled_double [of p c 0 m m1 k m'] m1(2) m'(2) k(1) by (simp add: r numeral_2_eq_2)
      moreover have "memrep m (int p) (int c) (int r) = Some (Inr m')"
        using m1(1) m'(1) even False s k_def
        by (subst memrep.simps) (simp add: algebra_simps zdiv_int)
      ultimately show ?thesis by blast
    qed
  qed
qed

section \<open>The fast way and the slow way\<close>

lemma slow_step:
  "1 \<le> r \<Longrightarrow> memrep_slow m (int p) (int c) (int (Suc r))
   = rbind (memrep_slow m (int p) (int c) (int r)) (\<lambda>m. memcpy m (int (p + c * r)) m (int p) (int c))"
  unfolding memrep_slow_def by (simp add: mult.commute del: of_nat_Suc)

lemma slow_tiles:
  assumes "1 \<le> r" "p + c * r \<le> length m"
  shows "\<exists>m'. memrep_slow m (int p) (int c) (int r) = Inr m' \<and> tiled p c r m m'"
  using assms
proof (induction r rule: nat_induct_at_least)
  case base
  then show ?case by (simp add: memrep_slow_def)
next
  case (Suc r)
  then obtain m1 where m1: "memrep_slow m (int p) (int c) (int r) = Inr m1" "tiled p c r m m1" by auto
  have l: "length m1 = length m" using m1(2) by (simp add: tiled_def)
  obtain m2 where m2: "memcpy m1 (int (p + c * r)) m1 (int p) (int c) = Inr m2" "length m2 = length m1"
    "\<forall>i < length m1. m2 ! i = (if p + c * r \<le> i \<and> i < p + c * r + c then m1 ! (p + (i - (p + c * r))) else m1 ! i)"
    using memcpy_nth [of "p + c * r" c m1 p m1] Suc.prems l by (auto simp: algebra_simps)
  have "m2 ! i = (if p \<le> i \<and> i < p + c * Suc r then m ! (p + (i - p) mod c) else m ! i)" if i: "i < length m" for i
  proof (cases "p + c * r \<le> i \<and> i < p + c * r + c")
    case True
    then obtain j where j: "i = p + c * r + j" "j < c" using le_Suc_ex by fastforce
    have "j < c * r" using j(2) Suc.hyps by (cases r) auto
    then have "m1 ! (p + j) = m ! (p + j)" using m1(2) i j by (simp add: tiled_def)
    then show ?thesis using m2(3) i j l by simp
  next
    case False
    have "i < length m1" using i l by simp
    from m2(3) [rule_format, OF this] False have "m2 ! i = m1 ! i" by (rule trans [OF _ if_not_P])
    then show ?thesis using m1(2) i False by (auto simp: tiled_def)
  qed
  then have "tiled p c (Suc r) m m2" using m2(2) l by (simp add: tiled_def)
  moreover have "memrep_slow m (int p) (int c) (int (Suc r)) = Inr m2"
    using m1(1) m2(1) Suc.hyps by (simp only: slow_step rbind.simps)
  ultimately show ?case by blast
qed

text \<open>Both fault when the copies do not fit into the memory.\<close>

lemma memrep_out:
  assumes "2 \<le> r" "length m < p + c * r" "length m < 2 ^ 62"
  shows "memrep m (int p) (int c) (int r) = Some (Inl Out_Of_Bounds)"
  using assms
proof (induction r arbitrary: m p c rule: less_induct)
  case (less r)
  define k where "k = r div 2"
  have k: "1 \<le> k" "k < r" using less.prems(1) by (simp_all add: k_def)
  show ?case
  proof (cases "p + c * 2 \<le> length m")
    case False
    then show ?thesis using less.prems(1) memcpy_out [of m "p + c" c m p] by (subst memrep.simps) simp
  next
    case fits: True
    then obtain m1 where m1: "memcpy m (int (p + c)) m (int p) (int c) = Inr m1" "tiled p c 2 m m1"
      using copy_tiled [OF tiled_1, of p c m] by (auto simp: numeral_2_eq_2)
    have l1: "length m1 = length m" using m1(2) by (simp add: tiled_def)
    have s: "size_of_int (2 * int c) = int (2 * c)" using fits less.prems(3) by (intro size_double) simp
    show ?thesis
    proof (cases "odd r")
      case True
      then have r: "r = 1 + 2 * k" by (simp add: k_def)
      show ?thesis
      proof (cases "p + c * 3 \<le> length m")
        case False
        then show ?thesis using m1(1) True less.prems(1) l1 memcpy_out [of m1 "p + c * 2" c m1 "p + c"]
          by (subst memrep.simps) (simp add: algebra_simps)
      next
        case True': True
        then obtain m2 where m2: "memcpy m1 (int (p + c * 2)) m1 (int (p + c)) (int c) = Inr m2" "tiled p c 3 m m2"
          using copy_tiled [OF m1(2)] by (auto simp: numeral_3_eq_3)
        have l2: "length m2 = length m" using m2(2) by (simp add: tiled_def)
        have out: "length m2 < p + c + 2 * c * k" using less.prems(2) l2 by (simp add: r algebra_simps)
        have "k \<noteq> 1" using out True' l2 by auto
        then have "memrep m2 (int (p + c)) (int (2 * c)) (int k) = Some (Inl Out_Of_Bounds)"
          using less.IH [OF k(2) _ out] k less.prems(3) l2 by simp
        then show ?thesis using m1(1) m2(1) True less.prems(1) s k_def
          by (subst memrep.simps) (simp add: algebra_simps zdiv_int)
      qed
    next
      case even: False
      then have r: "r = 0 + 2 * k" by (simp add: k_def)
      have out: "length m1 < p + 2 * c * k" using less.prems(2) l1 by (simp add: r algebra_simps)
      have "k \<noteq> 1" using out fits l1 by auto
      then have "memrep m1 (int p) (int (2 * c)) (int k) = Some (Inl Out_Of_Bounds)"
        using less.IH [OF k(2) _ out] k less.prems(3) l1 by simp
      then show ?thesis using m1(1) even less.prems(1) s k_def
        by (subst memrep.simps) (simp add: algebra_simps zdiv_int)
    qed
  qed
qed

lemma slow_out:
  assumes "2 \<le> r" "length m < p + c * r"
  shows "memrep_slow m (int p) (int c) (int r) = Inl Out_Of_Bounds"
  using assms
proof (induction r rule: nat_induct_at_least)
  case base
  then show ?case using memcpy_out [of m "p + c" c m p] by (simp add: memrep_slow_def upt_rec)
next
  case (Suc r)
  have step: "memrep_slow m (int p) (int c) (int (Suc r))
      = rbind (memrep_slow m (int p) (int c) (int r)) (\<lambda>m. memcpy m (int (p + c * r)) m (int p) (int c))"
    using Suc.hyps by (intro slow_step) simp
  show ?case
  proof (cases "length m < p + c * r")
    case True
    then show ?thesis using Suc.IH by (simp only: step rbind.simps)
  next
    case False
    then obtain m1 where "memrep_slow m (int p) (int c) (int r) = Inr m1" "length m1 = length m"
      using slow_tiles [of r p c m] Suc.hyps by (auto simp: tiled_def)
    then show ?thesis using memcpy_out [of m1 "p + c * r" c m1 p] Suc.prems by (simp only: step rbind.simps) simp
  qed
qed

lemma memrep_below_1:
  assumes "r < 1" "1 \<le> c" "length m < 2 ^ 62"
  shows "memrep m (int p) (int c) r = Some (Inl Out_Of_Bounds)"
  using assms
proof (induction "length m - c" arbitrary: r m p c rule: less_induct)
  case less
  have k: "r div 2 < 1" using less.prems(1) by simp
  show ?case
  proof (cases "p + c * 2 \<le> length m")
    case False
    then show ?thesis using less.prems(1) memcpy_out [of m "p + c" c m p] by (subst memrep.simps) simp
  next
    case fits: True
    then obtain m1 where m1: "memcpy m (int (p + c)) m (int p) (int c) = Inr m1" "tiled p c 2 m m1"
      using copy_tiled [OF tiled_1, of p c m] by (auto simp: numeral_2_eq_2)
    have l1: "length m1 = length m" using m1(2) by (simp add: tiled_def)
    have s: "size_of_int (2 * int c) = int (2 * c)" using fits less.prems(3) by (intro size_double) simp
    have less': "length m' - 2 * c < length m - c" if "length m' = length m" for m' :: "'a list"
      using that fits less.prems(2) by simp
    show ?thesis
    proof (cases "odd r")
      case odd: True
      show ?thesis
      proof (cases "p + c * 3 \<le> length m")
        case False
        then show ?thesis using m1(1) odd less.prems(1) l1 memcpy_out [of m1 "p + c * 2" c m1 "p + c"]
          by (subst memrep.simps) (simp add: algebra_simps)
      next
        case True
        then obtain m2 where m2: "memcpy m1 (int (p + c * 2)) m1 (int (p + c)) (int c) = Inr m2" "tiled p c 3 m m2"
          using copy_tiled [OF m1(2)] by (auto simp: numeral_3_eq_3)
        have l2: "length m2 = length m" using m2(2) by (simp add: tiled_def)
        have "memrep m2 (int (p + c)) (int (2 * c)) (r div 2) = Some (Inl Out_Of_Bounds)"
          using less.hyps [OF less' [OF l2] k, of "p + c"] less.prems l2 by simp
        then show ?thesis using m1(1) m2(1) odd less.prems(1) s by (subst memrep.simps) (simp add: algebra_simps)
      qed
    next
      case even: False
      have "memrep m1 (int p) (int (2 * c)) (r div 2) = Some (Inl Out_Of_Bounds)"
        using less.hyps [OF less' [OF l1] k] less.prems l1 by simp
      then show ?thesis using m1(1) even less.prems(1) s by (subst memrep.simps) (simp add: algebra_simps)
    qed
  qed
qed

lemma memrep_slow_way:
  assumes "1 \<le> r" "length m < 2 ^ 62"
  shows "memrep m (int p) (int c) (int r) = Some (memrep_slow m (int p) (int c) (int r))"
proof (cases "p + c * r \<le> length m")
  case True
  moreover have "length m < 2 ^ 64" using assms(2) by simp
  ultimately obtain a b where a: "memrep m (int p) (int c) (int r) = Some (Inr a)" "tiled p c r m a"
    and b: "memrep_slow m (int p) (int c) (int r) = Inr b" "tiled p c r m b"
    using memrep_tiles [OF assms(1)] slow_tiles [OF assms(1)] by blast
  show ?thesis using a(1) b(1) tiled_unique [OF a(2) b(2)] by simp
next
  case False
  then show ?thesis
  proof (cases "r = 1")
    case True
    then show ?thesis by (subst memrep.simps) (simp add: memrep_slow_def)
  next
    case big: False
    then have "2 \<le> r" "length m < p + c * r" using assms(1) False by simp_all
    then show ?thesis using memrep_out [of r m p c] slow_out [of r m p c] assms(2) by simp
  qed
qed

text \<open>
  C26. The repetition by doubling is the repetition by counting that it replaced: for at least one copy
  and a memory of any size below \<open>2 ^ 62\<close> it returns, with the same memory, or with the same access
  outside of it when the copies do not fit. For a count below one the two differ: the slow way copies
  nothing, the fast way goes on doubling until it leaves the memory.
\<close>

theorem memrep_fast_slow:
  assumes "length m < 2 ^ 62"
  shows "(1 \<le> rep \<longrightarrow> memrep m (int p) (int c) rep = Some (memrep_slow m (int p) (int c) rep))
    \<and> (rep < 1 \<and> 1 \<le> c \<longrightarrow> memrep m (int p) (int c) rep = Some (Inl Out_Of_Bounds)
      \<and> memrep_slow m (int p) (int c) rep = Inr m)"
  using memrep_slow_way [of "nat rep" m p c] memrep_below_1 [of rep c m p] assms
  by (auto simp: memrep_slow_def)

theorem memrep_fast_slow_witness:
  "memrep [1, 2, 0, 0, 0, 0, 0, 0, 0, 0, 9 :: nat] 0 2 5 = Some (Inr [1, 2, 1, 2, 1, 2, 1, 2, 1, 2, 9])
   \<and> memrep [1, 2, 0, 0, 0 :: nat] 0 2 3 = Some (Inl Out_Of_Bounds)
   \<and> memrep [1, 2, 0, 0, 0 :: nat] 0 2 (- 1) = Some (Inl Out_Of_Bounds)"
proof -
  have "memrep_slow [1, 2, 0, 0, 0, 0, 0, 0, 0, 0, 9 :: nat] 0 2 5 = Inr [1, 2, 1, 2, 1, 2, 1, 2, 1, 2, 9]" by code_simp
  moreover have "memrep_slow [1, 2, 0, 0, 0 :: nat] 0 2 3 = Inl Out_Of_Bounds" by code_simp
  ultimately show ?thesis
    using memrep_fast_slow [of "[1, 2, 0, 0, 0, 0, 0, 0, 0, 0, 9 :: nat]" 5 0 2]
      memrep_fast_slow [of "[1, 2, 0, 0, 0 :: nat]" 3 0 2] memrep_fast_slow [of "[1, 2, 0, 0, 0 :: nat]" "- 1" 0 2]
    by simp
qed

section \<open>Every byte of the tiled array\<close>

lemma imul_exact: "a * b < 2 ^ 31 \<Longrightarrow> imul (int a) (int b) = int (a * b)"
proof -
  assume "a * b < 2 ^ 31"
  then have "int (a * b) < 2 ^ 31" by (simp only: of_nat_less_numeral_power_cancel_iff)
  moreover have "- (2 ^ 31) \<le> int (a * b)" by (rule order_trans [of _ 0]) simp_all
  ultimately have "wrap32 (int (a * b)) = int (a * b)" by (intro wrap32_id)
  then show ?thesis by (simp add: imul_def)
qed

text \<open>
  The sizes of the array up to each dimension, in the source (\<open>S\<close>) and in the destination (\<open>D\<close>),
  for dimensions \<open>N\<close> and repetitions \<open>R\<close>.
\<close>

definition shape :: "nat list \<Rightarrow> nat list \<Rightarrow> nat list \<Rightarrow> nat list \<Rightarrow> nat \<Rightarrow> bool" where
  "shape D S N R d \<longleftrightarrow> d < length D \<and> d < length S \<and> d < length N \<and> d < length R
     \<and> D ! 0 = S ! 0 * R ! 0
     \<and> (\<forall>j < d. S ! Suc j = S ! j * N ! Suc j \<and> D ! Suc j = D ! j * N ! Suc j * R ! Suc j)
     \<and> (\<forall>j \<le> d. 1 \<le> R ! j \<and> D ! j < 2 ^ 31)"

lemma shape_Suc: "shape D S N R (Suc d) \<Longrightarrow> shape D S N R d"
  by (simp add: shape_def)

lemma shape_bound: "shape D S N R d \<Longrightarrow> D ! d < 2 ^ 31"
  by (simp add: shape_def)

lemma shape_step:
  assumes "shape D S N R (Suc d)"
  shows "S ! Suc d = S ! d * N ! Suc d" "D ! Suc d = D ! d * N ! Suc d * R ! Suc d" "1 \<le> R ! Suc d"
    "D ! d * N ! Suc d < 2 ^ 31"
proof -
  show e: "S ! Suc d = S ! d * N ! Suc d" "D ! Suc d = D ! d * N ! Suc d * R ! Suc d" "1 \<le> R ! Suc d"
    using assms by (simp_all add: shape_def)
  have "D ! d * N ! Suc d * 1 \<le> D ! Suc d" unfolding e(2) using e(3) by (rule mult_le_mono2)
  then show "D ! d * N ! Suc d < 2 ^ 31" using shape_bound [OF assms] by simp
qed

lemma shape_le: "shape D S N R d \<Longrightarrow> S ! d \<le> D ! d"
proof (induction d)
  case (Suc d)
  have "S ! Suc d = S ! d * N ! Suc d" "D ! Suc d = D ! d * N ! Suc d * R ! Suc d" "1 \<le> R ! Suc d"
    using Suc.prems by (simp_all add: shape_def)
  moreover have "S ! d * N ! Suc d \<le> D ! d * N ! Suc d" using Suc.IH [OF shape_Suc [OF Suc.prems]] by simp
  ultimately show ?case by (metis (no_types) le_trans mult.right_neutral mult_le_mono2)
qed (simp add: shape_def)

text \<open>Where in the source the byte of the destination comes from.\<close>

fun origin :: "nat list \<Rightarrow> nat list \<Rightarrow> nat list \<Rightarrow> nat \<Rightarrow> nat \<Rightarrow> nat" where
  "origin D S N 0 x = x mod S ! 0"
| "origin D S N (Suc d) x = (x div D ! d) mod N ! Suc d * S ! d + origin D S N d (x mod D ! d)"

definition filled :: "'a list \<Rightarrow> 'a list \<Rightarrow> nat \<Rightarrow> nat \<Rightarrow> (nat \<Rightarrow> 'a) \<Rightarrow> bool" where
  "filled dest dest' p n f \<longleftrightarrow> length dest' = length dest
     \<and> (\<forall>i < length dest. dest' ! i = (if p \<le> i \<and> i < p + n then f (i - p) else dest ! i))"

lemma filled_append:
  assumes "filled a b p n f" "filled b c (p + n) k g"
  shows "filled a c p (n + k) (\<lambda>x. if x < n then f x else g (x - n))"
  using assms by (auto simp: filled_def)

lemma filled_cong: "filled a b p n f \<Longrightarrow> (\<And>x. x < n \<Longrightarrow> f x = g x) \<Longrightarrow> filled a b p n g"
  by (auto simp: filled_def)

lemma filled_tiled:
  assumes "filled a b p n f" "tiled p n r b c" "1 \<le> r"
  shows "filled a c p (n * r) (\<lambda>x. f (x mod n))"
  unfolding filled_def
proof (intro conjI allI impI)
  show "length c = length a" using assms by (simp add: filled_def tiled_def)
  fix i assume i: "i < length a"
  have b: "b ! j = (if p \<le> j \<and> j < p + n then f (j - p) else a ! j)" if "j < length a" for j
    using assms(1) that by (simp add: filled_def)
  have c: "c ! i = (if p \<le> i \<and> i < p + n * r then b ! (p + (i - p) mod n) else b ! i)"
    using assms(1,2) i by (simp add: filled_def tiled_def)
  show "c ! i = (if p \<le> i \<and> i < p + n * r then f ((i - p) mod n) else a ! i)"
  proof (cases "p \<le> i \<and> i < p + n * r")
    case True
    then have "0 < n" by (cases n) auto
    moreover have "p + (i - p) mod n < length a" using mod_less_eq_dividend [of "i - p" n] i True by linarith
    ultimately show ?thesis using b [of "p + (i - p) mod n"] c True by simp
  next
    case False
    have "n * 1 \<le> n * r" using assms(3) by (rule mult_le_mono2)
    then have "\<not> (p \<le> i \<and> i < p + n)" using False by linarith
    then have "b ! i = a ! i" using b [OF i] by (simp only: if_False)
    then show ?thesis using c False by auto
  qed
qed

lemma repmat_slices:
  assumes sh: "shape D S N R (Suc d)" and k: "k \<le> N ! Suc d"
    and len: "p + k * D ! d \<le> length dest" "q + k * S ! d \<le> length src" "length dest < 2 ^ 62"
    and IH: "\<And>dest p q. p + D ! d \<le> length dest \<Longrightarrow> q + S ! d \<le> length src \<Longrightarrow> length dest < 2 ^ 62 \<Longrightarrow>
      \<exists>dest'. repmat dest (int p) src (int q) (Suc d) (map int D) (map int S) (map int N) (map int R) = Some (Inr dest')
        \<and> filled dest dest' p (D ! d) (\<lambda>x. src ! (q + origin D S N d x))"
  shows "\<exists>dest'. foldl (\<lambda>m i. wait_bind m (\<lambda>dest.
           repmat dest (int p + imul (int i) (map int D ! d)) src (int q + imul (int i) (map int S ! d))
             (Suc d) (map int D) (map int S) (map int N) (map int R)))
         (Some (Inr dest)) [0..<k] = Some (Inr dest')
     \<and> filled dest dest' p (k * D ! d) (\<lambda>x. src ! (q + (x div D ! d * S ! d + origin D S N d (x mod D ! d))))"
  using k len(1,2)
proof (induction k)
  case 0
  then show ?case by (auto simp: filled_def)
next
  case (Suc k)
  obtain m where m: "foldl (\<lambda>m i. wait_bind m (\<lambda>dest.
           repmat dest (int p + imul (int i) (map int D ! d)) src (int q + imul (int i) (map int S ! d))
             (Suc d) (map int D) (map int S) (map int N) (map int R)))
         (Some (Inr dest)) [0..<k] = Some (Inr m)"
     "filled dest m p (k * D ! d) (\<lambda>x. src ! (q + (x div D ! d * S ! d + origin D S N d (x mod D ! d))))"
    using Suc by (auto simp: algebra_simps)
  have l: "length m = length dest" using m(2) by (simp add: filled_def)
  have D: "k * D ! d < 2 ^ 31"
  proof -
    have "k * D ! d \<le> N ! Suc d * D ! d" using Suc.prems(1) by (intro mult_le_mono1) simp
    then show ?thesis using shape_step(4) [OF sh] unfolding mult.commute [of "N ! Suc d"] by (rule le_less_trans)
  qed
  have "k * S ! d \<le> k * D ! d" using shape_le [OF shape_Suc [OF sh]] by simp
  then have S: "k * S ! d < 2 ^ 31" using D by (rule le_less_trans)
  have i: "map int D ! d = int (D ! d)" "map int S ! d = int (S ! d)" using sh by (simp_all add: shape_def)
  obtain m' where m': "repmat m (int (p + k * D ! d)) src (int (q + k * S ! d)) (Suc d)
        (map int D) (map int S) (map int N) (map int R) = Some (Inr m')"
     "filled m m' (p + k * D ! d) (D ! d) (\<lambda>x. src ! (q + k * S ! d + origin D S N d x))"
    using IH [of "p + k * D ! d" m "q + k * S ! d"] Suc.prems l len(3) by (auto simp: algebra_simps)
  have "filled dest m' p (Suc k * D ! d) (\<lambda>x. src ! (q + (x div D ! d * S ! d + origin D S N d (x mod D ! d))))"
  proof (rule filled_cong)
    show "filled dest m' p (Suc k * D ! d) (\<lambda>x. if x < k * D ! d
        then src ! (q + (x div D ! d * S ! d + origin D S N d (x mod D ! d)))
        else src ! (q + k * S ! d + origin D S N d (x - k * D ! d)))"
      using filled_append [OF m(2) m'(2)] by (simp add: add.commute)
    fix x assume x: "x < Suc k * D ! d"
    show "(if x < k * D ! d then src ! (q + (x div D ! d * S ! d + origin D S N d (x mod D ! d)))
        else src ! (q + k * S ! d + origin D S N d (x - k * D ! d)))
      = src ! (q + (x div D ! d * S ! d + origin D S N d (x mod D ! d)))"
    proof (cases "x < k * D ! d")
      case False
      then obtain y where y: "x = k * D ! d + y" using le_Suc_ex not_le by metis
      then have "y < D ! d" using x by simp
      then show ?thesis by (simp add: y add.assoc)
    qed simp
  qed
  then show ?case using m(1) m'(1) by (auto simp: i imul_exact [OF D] imul_exact [OF S])
qed

lemma split_mod:
  "0 < b \<Longrightarrow> (x mod (n * b)) div b = x div b mod n" "x mod (n * b) mod b = x mod (b :: nat)"
  by (simp_all add: mult.commute [of n] mod_mult2_eq mod_mod_cancel)

lemma repmat_fills:
  assumes "shape D S N R d" "p + D ! d \<le> length dest" "q + S ! d \<le> length src" "length dest < 2 ^ 62"
  shows "\<exists>dest'. repmat dest (int p) src (int q) (Suc d) (map int D) (map int S) (map int N) (map int R) = Some (Inr dest')
     \<and> filled dest dest' p (D ! d) (\<lambda>x. src ! (q + origin D S N d x))"
  using assms
proof (induction d arbitrary: dest p q)
  case 0
  have D: "D ! 0 = S ! 0 * R ! 0" "1 \<le> R ! 0" using 0(1) by (simp_all add: shape_def)
  have i: "map int S ! 0 = int (S ! 0)" "map int R ! 0 = int (R ! 0)" using 0(1) by (simp_all add: shape_def)
  have SD: "S ! 0 \<le> D ! 0" using shape_le [OF 0(1)] .
  have s: "size_of_int (int (S ! 0)) = int (S ! 0)"
    using SD shape_bound [OF 0(1)] by (simp add: size_exact)
  obtain m where m: "memcpy dest (int p) src (int q) (int (S ! 0)) = Inr m" "length m = length dest"
    "\<forall>i < length dest. m ! i = (if p \<le> i \<and> i < p + S ! 0 then src ! (q + (i - p)) else dest ! i)"
    using memcpy_nth [of p "S ! 0" dest q src] 0 SD by auto
  then have "filled dest m p (S ! 0) (\<lambda>x. src ! (q + x))" by (simp add: filled_def)
  moreover obtain m' where m': "memrep m (int p) (int (S ! 0)) (int (R ! 0)) = Some (Inr m')" "tiled p (S ! 0) (R ! 0) m m'"
    using memrep_tiles [OF D(2), of p "S ! 0" m] 0 m(2) by (auto simp: D(1))
  ultimately have "filled dest m' p (D ! 0) (\<lambda>x. src ! (q + origin D S N 0 x))"
    using filled_tiled D by fastforce
  then show ?case using m(1) m'(1) by (auto simp: i s)
next
  case (Suc d)
  let ?n = "N ! Suc d" and ?r = "R ! Suc d"
  note st = shape_step [OF Suc.prems(1)]
  let ?f = "\<lambda>x. src ! (q + (x div D ! d * S ! d + origin D S N d (x mod D ! d)))"
  have n: "?n * D ! d * ?r = D ! Suc d" by (simp add: st(2) ac_simps)
  have "?n * D ! d * 1 \<le> D ! Suc d" unfolding n [symmetric] using st(3) by (rule mult_le_mono2)
  then have len: "p + ?n * D ! d \<le> length dest" "q + ?n * S ! d \<le> length src"
    using Suc.prems(2,3) by (simp_all add: st(1) mult.commute)
  obtain m where m: "foldl (\<lambda>m i. wait_bind m (\<lambda>dest.
           repmat dest (int p + imul (int i) (map int D ! d)) src (int q + imul (int i) (map int S ! d))
             (Suc d) (map int D) (map int S) (map int N) (map int R)))
         (Some (Inr dest)) [0..<?n] = Some (Inr m)" "filled dest m p (?n * D ! d) ?f"
    using repmat_slices [OF Suc.prems(1) le_refl len Suc.prems(4) Suc.IH [OF shape_Suc [OF Suc.prems(1)]]] by blast
  have l: "length m = length dest" using m(2) by (simp add: filled_def)
  have i: "map int D ! d = int (D ! d)" "map int N ! Suc d = int ?n" "map int R ! Suc d = int ?r"
    using Suc.prems(1) by (simp_all add: shape_def)
  have s: "size_of_int (imul (int (D ! d)) (int ?n)) = int (?n * D ! d)"
    using size_exact [OF st(4)] by (simp only: imul_exact [OF st(4)] mult.commute [of "N ! Suc d"])
  obtain m' where m': "memrep m (int p) (int (?n * D ! d)) (int ?r) = Some (Inr m')" "tiled p (?n * D ! d) ?r m m'"
    using memrep_tiles [OF st(3), of p "?n * D ! d" m] Suc.prems(2,4) l by (auto simp: n)
  have "filled dest m' p (D ! Suc d) (\<lambda>x. ?f (x mod (?n * D ! d)))"
    using filled_tiled [OF m(2) m'(2) st(3)] by (simp only: n)
  then have "filled dest m' p (D ! Suc d) (\<lambda>x. src ! (q + origin D S N (Suc d) x))"
  proof (rule filled_cong)
    fix x assume "x < D ! Suc d"
    then have "0 < D ! d" by (cases "D ! d") (simp_all add: st(2))
    then show "?f (x mod (?n * D ! d)) = src ! (q + origin D S N (Suc d) x)" by (simp add: split_mod)
  qed
  then show ?case using m(1) m'(1) unfolding repmat.simps i nat_int by (auto simp: i s)
qed

section \<open>Subscripts\<close>

text \<open>The position of the element with subscripts \<open>js\<close> in an array of dimensions \<open>ns\<close>, in the order of Matlab.\<close>

fun pos :: "nat list \<Rightarrow> nat list \<Rightarrow> nat" where
  "pos (n # ns) (j # js) = j + n * pos ns js"
| "pos ns js = 0"

abbreviation subscripts :: "nat list \<Rightarrow> nat list \<Rightarrow> bool" where
  "subscripts ns js \<equiv> list_all2 (<) js ns"

lemma pos_append:
  "length js = length ns \<Longrightarrow> pos (ns @ ns') (js @ js') = pos ns js + prod_list ns * pos ns' js'"
  by (induction ns js rule: list_induct2'; simp add: algebra_simps)

lemma pos_less: "subscripts ns js \<Longrightarrow> pos ns js < prod_list ns"
proof (induction rule: list_all2_induct)
  case (Cons j js n ns)
  then have "n * pos ns js + n \<le> n * prod_list ns" by (metis Suc_leI add.commute mult_Suc_right mult_le_mono2)
  then show ?case using Cons.hyps by simp
qed simp

lemma byte_less: "subscripts ns js \<Longrightarrow> b < e \<Longrightarrow> e * pos ns js + b < e * prod_list ns"
proof -
  assume "subscripts ns js" "b < e"
  then have "e * pos ns js + e \<le> e * prod_list ns"
    using pos_less [of js ns] by (metis Suc_leI add.commute mult_Suc_right mult_le_mono2)
  then show ?thesis using \<open>b < e\<close> by simp
qed

fun psizes :: "nat \<Rightarrow> nat list \<Rightarrow> nat list" where
  "psizes e [] = []"
| "psizes e (n # ns) = e * n # psizes (e * n) ns"

lemma length_psizes [simp]: "length (psizes e ns) = length ns"
  by (induction ns arbitrary: e) auto

lemma psizes_nth: "j < length ns \<Longrightarrow> psizes e ns ! j = e * prod_list (take (Suc j) ns)"
  by (induction ns arbitrary: e j) (auto simp: less_Suc_eq_0_disj nth_Cons')

lemma prod_list_pos: "0 \<notin> set ns \<Longrightarrow> 1 \<le> prod_list (ns :: nat list)"
  by (induction ns) (auto simp: Suc_le_eq)

lemma prefix_size: "0 \<notin> set ns \<Longrightarrow> e * prod_list (take k ns) \<le> e * prod_list (ns :: nat list)"
proof -
  assume "0 \<notin> set ns"
  then have "1 \<le> prod_list (drop k ns)" by (meson in_set_dropD prod_list_pos)
  then have "prod_list (take k ns) * 1 \<le> prod_list (take k ns) * prod_list (drop k ns)" by (rule mult_le_mono2)
  also have "\<dots> = prod_list ns" by (metis append_take_drop_id prod_list.append)
  finally show ?thesis by simp
qed

lemma dim_sizes_exact:
  "0 \<notin> set ns \<Longrightarrow> e * prod_list ns < 2 ^ 31 \<Longrightarrow> dim_sizes (int e) (map int ns) = map int (psizes e ns)"
proof (induction ns arbitrary: e)
  case (Cons n ns)
  have "e * n \<le> e * prod_list (n # ns)"
    using prefix_size [OF Cons.prems(1), of e 1]
    by (simp only: One_nat_def take_Suc_Cons take_0 prod_list.Cons prod_list.Nil mult_1_right)
  then have "e * n < 2 ^ 31" using Cons.prems(2) by (rule le_less_trans)
  then have "imul (int e) (int n) = int (e * n)" by (rule imul_exact)
  moreover have "e * n * prod_list ns < 2 ^ 31" using Cons.prems(2) by (simp only: prod_list.Cons ac_simps)
  ultimately show ?case using Cons.IH [of "e * n"] Cons.prems(1) by simp
qed simp

lemma mod_block: "b < e \<Longrightarrow> (e * j + b) mod (e * n) = e * (j mod n) + (b :: nat)"
  by (simp add: mod_mult2_eq)

lemma origin_pos:
  assumes "d < length N" "length A = length N" "0 \<notin> set A" "b < e" "subscripts (take (Suc d) A) js"
  shows "origin (psizes e A) (psizes e N) N d (e * pos (take (Suc d) A) js + b)
    = e * pos (take (Suc d) N) (map2 (mod) js (take (Suc d) N)) + b"
  using assms(1,2,5)
proof (induction d arbitrary: js)
  case 0
  then obtain j n N' a A' where "js = [j]" "N = n # N'" "A = a # A'"
    by (cases N; cases A) (auto simp: list_all2_Cons2)
  then show ?case using assms(4) by (simp add: mod_block)
next
  case (Suc d)
  have t: "take (Suc (Suc d)) A = take (Suc d) A @ [A ! Suc d]" "take (Suc (Suc d)) N = take (Suc d) N @ [N ! Suc d]"
    using Suc.prems by (simp_all add: take_Suc_conv_app_nth)
  obtain js' j where js: "js = js' @ [j]" "subscripts (take (Suc d) A) js'" "j < A ! Suc d"
    using Suc.prems(3) unfolding t by (auto simp: list_all2_append2 list_all2_Cons2)
  have l: "length js' = Suc d" using list_all2_lengthD [OF js(2)] Suc.prems by simp
  define P where "P = e * prod_list (take (Suc d) A)"
  have P: "psizes e A ! d = P" using Suc.prems by (simp add: psizes_nth P_def)
  let ?y = "e * pos (take (Suc d) A) js' + b"
  have y: "?y < P" unfolding P_def using js(2) assms(4) by (rule byte_less)
  have x: "e * pos (take (Suc (Suc d)) A) js + b = P * j + ?y"
    unfolding t js(1) using l Suc.prems by (simp add: pos_append P_def algebra_simps)
  have dm: "(P * j + ?y) div P = j" "(P * j + ?y) mod P = ?y" using y by simp_all
  have z: "map2 (mod) js (take (Suc (Suc d)) N) = map2 (mod) js' (take (Suc d) N) @ [j mod N ! Suc d]"
    using l Suc.prems unfolding t js(1) by simp
  have "origin (psizes e A) (psizes e N) N (Suc d) (e * pos (take (Suc (Suc d)) A) js + b)
      = j mod N ! Suc d * (e * prod_list (take (Suc d) N)) + (e * pos (take (Suc d) N) (map2 (mod) js' (take (Suc d) N)) + b)"
    using Suc.IH [OF _ Suc.prems(2) js(2)] Suc.prems(1) unfolding x origin.simps P dm
    by (simp add: psizes_nth)
  also have "\<dots> = e * pos (take (Suc (Suc d)) N) (map2 (mod) js (take (Suc (Suc d)) N)) + b"
    unfolding z unfolding t using l Suc.prems(1) by (simp add: pos_append algebra_simps)
  finally show ?case .
qed

text \<open>The dimensions of the result, for a vector of repetitions that is at least as long as that of dimensions.\<close>

definition dest_dims :: "nat list \<Rightarrow> nat list \<Rightarrow> nat list" where
  "dest_dims N R = map2 (*) N R @ drop (length N) R"

text \<open>\<open>out\<close> holds the elements of \<open>e\<close> bytes of \<open>src\<close>, every subscript modulo its dimension.\<close>

definition tiling :: "nat \<Rightarrow> nat list \<Rightarrow> nat list \<Rightarrow> 'a list \<Rightarrow> 'a list \<Rightarrow> bool" where
  "tiling e N R src out \<longleftrightarrow> length out = e * prod_list (dest_dims N R)
     \<and> (\<forall>js b. subscripts (dest_dims N R) js \<and> b < e \<longrightarrow>
          out ! (e * pos (dest_dims N R) js + b) = src ! (e * pos N (map2 (mod) js N) + b))"

lemma foldl_imul_exact:
  "0 \<notin> set ns \<Longrightarrow> e * prod_list ns < 2 ^ 31 \<Longrightarrow> foldl imul (int e) (map int ns) = int (e * prod_list ns)"
proof (induction ns arbitrary: e)
  case (Cons n ns)
  have "e * n \<le> e * prod_list (n # ns)"
    using prefix_size [OF Cons.prems(1), of e 1]
    by (simp only: One_nat_def take_Suc_Cons take_0 prod_list.Cons prod_list.Nil mult_1_right)
  then have "e * n < 2 ^ 31" using Cons.prems(2) by (rule le_less_trans)
  then have "imul (int e) (int n) = int (e * n)" by (rule imul_exact)
  moreover have p: "e * n * prod_list ns < 2 ^ 31" using Cons.prems(2) by (simp only: prod_list.Cons ac_simps)
  ultimately have "foldl imul (int e) (map int (n # ns)) = int (e * n * prod_list ns)"
    using Cons.IH [OF _ p] Cons.prems(1) by simp
  then show ?case by (simp only: prod_list.Cons mult.assoc)
qed simp

lemma elem_le_prod: "0 \<notin> set ns \<Longrightarrow> x \<in> set ns \<Longrightarrow> x \<le> prod_list (ns :: nat list)"
proof (induction ns)
  case (Cons n ns)
  have "1 \<le> prod_list ns" using Cons.prems by (intro prod_list_pos) simp
  moreover have "1 \<le> n" using Cons.prems by (simp add: Suc_le_eq)
  ultimately have "n * 1 \<le> n * prod_list ns" "1 * prod_list ns \<le> n * prod_list ns"
    using mult_le_mono2 [of 1 "prod_list ns" n] mult_le_mono1 [of 1 n "prod_list ns"] by blast+
  moreover have "x = n \<or> x \<le> prod_list ns" using Cons by auto
  ultimately show ?case by (simp only: prod_list.Cons mult_1 mult_1_right) linarith
qed simp

lemma shape_psizes:
  assumes "length N = Suc d" "d < length R" "0 \<notin> set N" "0 \<notin> set R"
    and A: "A = map2 (*) N R" "e * prod_list A < 2 ^ 31"
  shows "shape (psizes e A) (psizes e N) N R d"
proof -
  have l: "length A = Suc d" using assms(1,2) by (simp add: A(1))
  have A0: "0 \<notin> set A" using assms(3,4) by (auto simp: A(1) dest: set_zip_leftD set_zip_rightD)
  have An: "A ! j = N ! j * R ! j" if "j \<le> d" for j using that assms(1,2) by (simp add: A(1))
  have bd: "psizes e A ! j < 2 ^ 31" if "j \<le> d" for j
    using le_less_trans [OF prefix_size [OF A0, of e "Suc j"] A(2)] that l by (simp add: psizes_nth)
  have r: "1 \<le> R ! j" if "j \<le> d" for j
  proof -
    have "R ! j \<in> set R" using that assms(2) by simp
    then have "R ! j \<noteq> 0" using assms(4) by metis
    then show ?thesis by simp
  qed
  have st: "psizes e N ! Suc j = psizes e N ! j * N ! Suc j"
    "psizes e A ! Suc j = psizes e A ! j * N ! Suc j * R ! Suc j" if "j < d" for j
    using that assms(1) l An [of "Suc j"] by (simp_all add: psizes_nth take_Suc_conv_app_nth [of "Suc j"])
  have "psizes e A ! 0 = psizes e N ! 0 * R ! 0"
    using assms(1) l An [of 0] by (simp add: psizes_nth take_Suc_conv_app_nth)
  then show ?thesis unfolding shape_def using assms(1,2) l st r bd by simp
qed

lemma tile_part_tiling:
  assumes N: "N \<noteq> []" "length N \<le> length R" "0 \<notin> set N" "0 \<notin> set R"
    and b: "e * prod_list (dest_dims N R) < 2 ^ 31" "1 \<le> e"
    and len: "length src = e * prod_list N" "length zeros = e * prod_list (dest_dims N R)"
  shows "\<exists>out. tile_part zeros src (length N) (map int (psizes e (map2 (*) N R))) (map int (psizes e N)) (map int N) (map int R)
       = Some (Inr out) \<and> tiling e N R src out"
proof -
  define A where "A = map2 (*) N R"
  define E where "E = drop (length N) R"
  define d where "d = length N - 1"
  have d: "Suc d = length N" using N(1) by (simp add: d_def)
  have l: "length A = length N" using N(2) by (simp add: A_def)
  have dd: "dest_dims N R = A @ E" by (simp add: dest_dims_def A_def E_def)
  have A0: "0 \<notin> set A" using N(3,4) by (auto simp: A_def dest: set_zip_leftD set_zip_rightD)
  have E0: "0 \<notin> set E" using N(4) by (auto simp: E_def dest: in_set_dropD)
  have E1: "1 \<le> prod_list E" using E0 by (rule prod_list_pos)
  have Ab: "e * prod_list A < 2 ^ 31"
  proof (rule le_less_trans)
    show "e * prod_list (dest_dims N R) < 2 ^ 31" by (rule b(1))
    show "e * prod_list A \<le> e * prod_list (dest_dims N R)" using E1 by (simp add: dd Suc_le_eq)
  qed
  have D: "psizes e A ! d = e * prod_list A" "psizes e N ! d = e * prod_list N"
    using d l by (simp_all add: psizes_nth)
  have sh: "shape (psizes e A) (psizes e N) N R d"
    using N(2-4) d by (intro shape_psizes [OF _ _ _ _ A_def Ab]) simp_all
  have tot: "e * prod_list A * prod_list E = length zeros" by (simp add: len dd)
  have z: "length zeros < 2 ^ 62" using b(1) len(2) by simp
  have "e * prod_list A * 1 \<le> length zeros" unfolding tot [symmetric] using E1 by (rule mult_le_mono2)
  then obtain re where re: "repmat zeros 0 src 0 (length N) (map int (psizes e A)) (map int (psizes e N)) (map int N) (map int R)
      = Some (Inr re)" "filled zeros re 0 (e * prod_list A) (\<lambda>x. src ! origin (psizes e A) (psizes e N) N d x)"
    using repmat_fills [OF sh, of 0 zeros 0 src] z len(1) by (auto simp: D d)
  have lre: "length re = length zeros" using re(2) by (simp add: filled_def)
  have fe: "foldl imul 1 (map int E) = int (prod_list E)"
  proof -
    have "1 * prod_list E \<le> e * prod_list A * prod_list E" using b(2) prod_list_pos [OF A0] by (intro mult_le_mono1) simp
    then have "1 * prod_list E < 2 ^ 31" using b(1) len(2) tot by simp
    from foldl_imul_exact [OF E0 this] show ?thesis by simp
  qed
  have sz: "size_of_int (map int (psizes e A) ! (length N - 1)) = int (e * prod_list A)"
    unfolding d_def [symmetric] using size_exact [OF Ab] d l D(1) by simp
  obtain out where out: "tile_part zeros src (length N) (map int (psizes e A)) (map int (psizes e N)) (map int N) (map int R)
       = Some (Inr out)" "tiled 0 (e * prod_list A) (prod_list E) re out"
  proof (cases "length N < length R")
    case True
    obtain m where "memrep re (int 0) (int (e * prod_list A)) (int (prod_list E)) = Some (Inr m)"
        "tiled 0 (e * prod_list A) (prod_list E) re m"
      using memrep_tiles [OF E1, of 0 "e * prod_list A" re] z lre tot by auto
    then show ?thesis using that re(1) True fe unfolding tile_part_def sz by (simp add: drop_map flip: E_def)
  next
    case False
    then show ?thesis using that [of re] re(1) N(2) by (simp add: tile_part_def E_def)
  qed
  have fl: "filled zeros out 0 (length zeros) (\<lambda>x. src ! origin (psizes e A) (psizes e N) N d (x mod (e * prod_list A)))"
    using filled_tiled [OF re(2) out(2) E1] by (simp only: tot)
  have "out ! (e * pos (A @ E) js + b) = src ! (e * pos N (map2 (mod) js N) + b)"
    if js: "subscripts (A @ E) js" and b: "b < e" for js b
  proof -
    obtain js1 js2 where j: "js = js1 @ js2" "subscripts A js1" using js by (auto simp: list_all2_append2)
    have l1: "length js1 = length A" using list_all2_lengthD [OF j(2)] .
    have x: "e * pos (A @ E) js + b = e * prod_list A * pos E js2 + (e * pos A js1 + b)"
      unfolding j(1) pos_append [OF l1] by (simp add: algebra_simps)
    have "(e * pos (A @ E) js + b) mod (e * prod_list A) = e * pos A js1 + b"
      unfolding x using byte_less [OF j(2) b] by simp
    moreover have "e * pos (A @ E) js + b < length zeros" using byte_less [OF js b] len(2) dd by simp
    ultimately have "out ! (e * pos (A @ E) js + b) = src ! origin (psizes e A) (psizes e N) N d (e * pos A js1 + b)"
      using fl by (simp add: filled_def)
    also have "\<dots> = src ! (e * pos N (map2 (mod) js1 N) + b)"
      using origin_pos [of d N A b e js1] d l A0 b j(2) by simp
    finally show ?thesis using l1 l unfolding j(1) by (simp add: zip_append1)
  qed
  moreover have "length out = e * prod_list (dest_dims N R)" using fl len(2) by (simp add: filled_def)
  ultimately show ?thesis using out(1) unfolding tiling_def dd by (auto simp: A_def)
qed

section \<open>The whole call\<close>

lemma int_dims:
  assumes "0 \<notin> set N" "0 \<notin> set R" "length N \<le> length R" "e * prod_list (dest_dims N R) < 2 ^ 31" "1 \<le> e"
  shows "map2 imul (map int N) (map int R) @ drop (length N) (map int R) = map int (dest_dims N R)"
proof -
  have "imul (int n) (int r) = int (n * r)" if "(n, r) \<in> set (zip N R)" for n r
  proof (rule imul_exact)
    have "0 \<notin> set (dest_dims N R)"
      using assms(1,2) by (auto simp: dest_dims_def dest: in_set_dropD set_zip_leftD set_zip_rightD)
    moreover have "n * r \<in> set (dest_dims N R)" using that by (force simp: dest_dims_def)
    ultimately have "n * r \<le> prod_list (dest_dims N R)" by (rule elem_le_prod)
    also have "\<dots> \<le> e * prod_list (dest_dims N R)" using assms(5) by simp
    finally show "n * r < 2 ^ 31" using assms(4) by (rule le_less_trans)
  qed
  then show ?thesis by (auto simp: dest_dims_def drop_map zip_map_map split_def)
qed

text \<open>
  C27. The extension tiles the array. For a nonempty array of any number of dimensions and counts of
  at least one, fewer or more of them than dimensions, it returns, if the result is smaller than two
  gigabytes: element \<open>(i, j, ...)\<close> of the result is the element of the array with every subscript
  modulo the dimension, in the real and in the imaginary part.
\<close>

theorem mex_tiles:
  assumes A: "mx_dims A = map int N" "mx_elt_size A = int e" "\<not> mx_sparse A" "\<not> mx_cell A"
      "length (mx_data A) = e * prod_list N" "\<forall>im. mx_imag A = Some im \<longrightarrow> length im = e * prod_list N"
    and N: "N \<noteq> []" "0 \<notin> set N" "1 \<le> e"
    and R: "given_reps (length N) (a # as) = Inr (map int given)" "0 \<notin> set given"
      "R = given @ replicate (length N - length given) 1" "e * prod_list (dest_dims N R) < 2 ^ 31"
    and create: "mxCreate (map int (dest_dims N R)) (int e) = Some zeros" "length zeros = e * prod_list (dest_dims N R)"
  shows "\<exists>re im. mexFunction mxCreate (A # a # as) = Some (Inr (Result (map int (dest_dims N R)) re im))
    \<and> tiling e N R (mx_data A) re \<and> rel_option (tiling e N R) (mx_imag A) im"
proof -
  have l: "length N \<le> length R" using R(3) by simp
  have R0: "0 \<notin> set R" using R(2,3) by auto
  have ri: "map int given @ replicate (length N - length given) 1 = map int R" by (simp add: R(3))
  note dims = int_dims [OF N(2) R0 l R(4) N(3)]
  have tk: "take (length N) (map int (dest_dims N R)) = map int (map2 (*) N R)"
    using l by (simp add: dest_dims_def take_map)
  have bA: "e * prod_list (map2 (*) N R) < 2 ^ 31"
  proof -
    have "0 \<notin> set (dest_dims N R)"
      using N(2) R0 by (auto simp: dest_dims_def dest: in_set_dropD set_zip_leftD set_zip_rightD)
    from le_less_trans [OF prefix_size [OF this, of e "length N"] R(4)] show ?thesis
      using l by (simp add: dest_dims_def)
  qed
  have bN: "e * prod_list N < 2 ^ 31"
  proof -
    obtain d where d: "length N = Suc d" using N(1) by (cases N) auto
    have "psizes e N ! d \<le> psizes e (map2 (*) N R) ! d"
      using d l by (intro shape_le [OF shape_psizes [OF d _ N(2) R0 refl bA]]) simp
    then have "e * prod_list N \<le> e * prod_list (map2 (*) N R)" using d l by (simp add: psizes_nth)
    then show ?thesis using bA by (rule le_less_trans)
  qed
  have A0: "0 \<notin> set (map2 (*) N R)" using N(2) R0 by (auto dest: set_zip_leftD set_zip_rightD)
  have S: "dim_sizes (int e) (map int N) = map int (psizes e N)" using N(2) bN by (rule dim_sizes_exact)
  have D: "dim_sizes (int e) (map int (map2 (*) N R)) = map int (psizes e (map2 (*) N R))" using A0 bA by (rule dim_sizes_exact)
  have part: "\<exists>out. tile_part zeros src (length N) (map int (psizes e (map2 (*) N R))) (map int (psizes e N)) (map int N) (map int R)
       = Some (Inr out) \<and> tiling e N R src out" if "length src = e * prod_list N" for src
    using tile_part_tiling [OF N(1) l N(2) R0 R(4) N(3) that create(2)] .
  have zg: "0 \<notin> set (map int given)" using R(2) by auto
  obtain re where re: "tile_part zeros (mx_data A) (length N) (map int (psizes e (map2 (*) N R))) (map int (psizes e N))
      (map int N) (map int R) = Some (Inr re)" "tiling e N R (mx_data A) re"
    using part [OF A(5)] by blast
  have run: "mexFunction mxCreate (A # a # as) = (case mx_imag A of
       None \<Rightarrow> Some (Inr (Result (map int (dest_dims N R)) re None))
     | Some im \<Rightarrow> wait_bind (tile_part zeros im (length N) (map int (psizes e (map2 (*) N R))) (map int (psizes e N))
         (map int N) (map int R)) (\<lambda>im'. Some (Inr (Result (map int (dest_dims N R)) re (Some im')))))"
    unfolding mexFunction_def using A(3,4) zg
    by (simp only: list.case if_False A(1,2) Let_def length_map R(1) wait_bind.simps ri dims tk create(1) option.case S D re(1))
  show ?thesis
  proof (cases "mx_imag A")
    case None
    then show ?thesis using run re(2) by auto
  next
    case (Some im)
    then obtain im' where "tile_part zeros im (length N) (map int (psizes e (map2 (*) N R))) (map int (psizes e N))
      (map int N) (map int R) = Some (Inr im')" "tiling e N R im im'"
      using part [of im] A(6) by blast
    then show ?thesis using run re(2) Some by auto
  qed
qed

text \<open>A row of two complex bytes, tiled twice in the first and in a third dimension.\<close>

definition example_row :: mx_array where
  "example_row = \<lparr>mx_sparse = False, mx_cell = False, mx_dims = [1, 2], mx_elt_size = 1,
     mx_data = [7, 8], mx_imag = Some [1, 2], mx_columns = 2, mx_numbers = []\<rparr>"

definition example_count :: "fl \<Rightarrow> mx_array" where
  "example_count x = example_row\<lparr>mx_dims := [1, 1], mx_elt_size := 8, mx_imag := None, mx_columns := 1, mx_numbers := [x]\<rparr>"

definition zero_array :: "int list \<Rightarrow> int \<Rightarrow> byte list option" where
  "zero_array ds e = (if \<forall>d \<in> set ds. 0 \<le> d then Some (replicate (nat (prod_list ds * e)) 0) else None)"

theorem mex_tiles_witness:
  "\<exists>re im. mexFunction zero_array (example_row # map (example_count \<circ> Fin) [2, 1, 2])
      = Some (Inr (Result [2, 2, 2] re (Some im)))
    \<and> re ! 1 = 7 \<and> re ! 6 = 8 \<and> im ! 6 = 2"
proof -
  have A: "mx_dims example_row = map int [1, 2]" "mx_elt_size example_row = int 1" "\<not> mx_sparse example_row"
    "\<not> mx_cell example_row" "length (mx_data example_row) = 1 * prod_list [1, 2]"
    "\<forall>im. mx_imag example_row = Some im \<longrightarrow> length im = 1 * prod_list [1, 2]"
    by (simp_all add: example_row_def)
  have g: "given_reps (length [1 :: nat, 2]) (example_count (Fin 2) # [example_count (Fin 1), example_count (Fin 2)])
      = Inr (map int [2, 1, 2])"
    by (simp add: example_count_def int_of_double_def)
  have dd: "dest_dims [1, 2] [2, 1, 2] = [2, 2, 2]" by (simp add: dest_dims_def)
  have z: "zero_array (map int (dest_dims [1, 2] [2, 1, 2])) (int 1) = Some (replicate 8 0)"
    by (simp add: dd [unfolded One_nat_def] zero_array_def)
  obtain re im' where r: "mexFunction zero_array (example_row # example_count (Fin 2) # [example_count (Fin 1), example_count (Fin 2)])
      = Some (Inr (Result (map int (dest_dims [1, 2] [2, 1, 2])) re im'))"
    "tiling 1 [1, 2] [2, 1, 2] (mx_data example_row) re" "rel_option (tiling 1 [1, 2] [2, 1, 2]) (mx_imag example_row) im'"
    using mex_tiles [where N = "[1, 2]" and e = 1 and R = "[2, 1, 2]" and given = "[2, 1, 2]" and zeros = "replicate 8 0"
        and mxCreate = zero_array,
      OF A _ _ _ g _ _ _ z] by (auto simp: dd [unfolded One_nat_def])
  obtain im where im: "im' = Some im" "tiling 1 [1, 2] [2, 1, 2] [1, 2] im"
    using r(3) by (cases im') (simp_all add: example_row_def)
  have el: "subscripts [2, 2, 2] js \<Longrightarrow> out ! pos [2, 2, 2] js = src ! pos [1, 2] (map2 (mod) js [1, 2])"
    if "tiling 1 [1, 2] [2, 1, 2] src out" for src out :: "byte list" and js
    using that [unfolded tiling_def dd, THEN conjunct2, rule_format, of js 0] by simp
  have "re ! 1 = 7" "re ! 6 = 8" "im ! 6 = 2"
    using el [OF r(2), of "[1, 0, 0]"] el [OF r(2), of "[0, 1, 1]"] el [OF im(2), of "[0, 1, 1]"]
    by (simp_all add: example_row_def)
  then show ?thesis using r(1) im(1) unfolding dd by auto
qed

end
