(* ===== verification/Float_Types.thy ===== *)
theory Float_Types
  imports Comm_Thread
begin





section \<open>Reading\<close>

lemma b32: "0 < prec binary32"
  by (simp add: binary32_def)





section \<open>The thread\<close>

lemma prediction_typed: "fl_in binary32 (get_predicted_mttf stack ml l c i)"
  unfolding get_predicted_mttf_def calculate_linear_regression_def by (intro fl_in_ops(5) b32)










end
