(* ===== verification/Conversation.thy ===== *)
theory Conversation
  imports Client Comm_Thread
begin

text \<open>
  The loops of a machine and of its thread in the controller over one connection: the thread
  receives the texts that the machine sends and the machine the commands that the thread sends.
\<close>

text \<open>The buffer a command is sent in: zeroed, and its first byte set.\<close>

definition command_text :: "massage \<Rightarrow> string" where
  "command_text cmd = command_byte cmd # replicate (BUFSIZE - 1) (char_of (0 :: nat))"

fun sent_commands :: "Server.action list \<Rightarrow> massage list" where
  "sent_commands [] = []"
| "sent_commands (Send_Command sk cmd # as) = cmd # sent_commands as"
| "sent_commands (a # as) = sent_commands as"

fun sent_texts :: "client_action list \<Rightarrow> string list" where
  "sent_texts [] = []"
| "sent_texts (Sent_Features tx # as) = tx # sent_texts as"
| "sent_texts (a # as) = sent_texts as"

lemma sent_commands_append: "sent_commands (a @ b) = sent_commands a @ sent_commands b"
  by (induction a rule: sent_commands.induct) auto

lemma sent_texts_append: "sent_texts (a @ b) = sent_texts a @ sent_texts b"
  by (induction a rule: sent_texts.induct) auto

section \<open>The controller's side\<close>

text \<open>A pass that receives a text and whose \<open>send\<close> works answers with one command.\<close>

lemma answered:
  assumes "comm_pass k1 k2 ml (Recv_Text tx) True t c = Inr (r, as, rs, c')" "state (service_info (vm t)) = ACTIVE"
  shows "\<exists>t' cmd. r = Some t' \<and> same_machine t t' \<and> as = [Send_Command (socket (vm t)) cmd]
    \<and> (cmd = CONTINUE \<and> rs = [] \<or> cmd = REJUVENATE \<and> rs = [posted_request REJ (vm t)])"
proof -
  define u where "u = (if flag_init_features t then t
     else t\<lparr>init_features := current_features t, flag_init_features := True\<rparr>)"
  have same: "same_machine t u" by (simp add: u_def same_machine_def)
  then have sk: "socket (vm u) = socket (vm t)" by (simp add: same_machine_def)
  consider c1 where "keep_running True u c1 = (r, as, rs, c')" | c1 where "switch_off True u c1 = (r, as, rs, c')"
    using assms by (auto simp: comm_pass.simps predict_def rbind_eq_Inr Let_def u_def split: if_splits)
  then show ?thesis
  proof cases
    case 1
    then obtain t' where "r = Some t'" "same_machine u t'" "as = [Send_Command (socket (vm u)) CONTINUE]" "rs = []"
      by (auto simp: keep_running_def store_last_system_features_def same_machine_def Let_def)
    then show ?thesis using same_machine_trans [OF same] by (simp add: sk)
  next
    case 2
    then have "r = Some u" "as = [Send_Command (socket (vm u)) REJUVENATE]" "rs = [posted_request REJ (vm u)]"
      by (auto simp: switch_off_def switch_active_machine_def set_state_def Let_def)
    then show ?thesis using same request_same [OF same, of REJ] by (simp add: sk)
  qed
qed

lemma thread_answers:
  assumes "comm_run ml (map (\<lambda>(k1, k2, tx, others). (k1, k2, Recv_Text tx, True, others)) ps) t c = Inr (r, as, rs, c')"
    and "state (service_info (vm t)) = ACTIVE"
  shows "length (sent_commands as) = length ps \<and> set (sent_commands as) \<subseteq> {CONTINUE, REJUVENATE}
    \<and> rs = replicate (count_list (sent_commands as) REJUVENATE) (posted_request REJ (vm t))"
  using assms
proof (induction ps arbitrary: t c r as rs)
  case (Cons p ps)
  obtain k1 k2 tx others where p: "p = (k1, k2, tx, others)" by (cases p)
  obtain r1 as1 rs1 c1 where pass: "comm_pass k1 k2 ml (Recv_Text tx) True t (others c) = Inr (r1, as1, rs1, c1)"
    and rest: "(case r1 of None \<Rightarrow> Inr (None, as1, rs1, c1)
       | Some t' \<Rightarrow> rbind (comm_run ml (map (\<lambda>(k1, k2, tx, others). (k1, k2, Recv_Text tx, True, others)) ps) t' c1)
           (\<lambda>(r', as', rs', c''). Inr (r', as1 @ as', rs1 @ rs', c''))) = Inr (r, as, rs, c')"
    using Cons.prems(1) by (auto simp: p rbind_eq_Inr)
  obtain t1 cmd where a: "r1 = Some t1" "same_machine t t1" "as1 = [Send_Command (socket (vm t)) cmd]"
      "cmd = CONTINUE \<and> rs1 = [] \<or> cmd = REJUVENATE \<and> rs1 = [posted_request REJ (vm t)]"
    using answered [OF pass Cons.prems(2)] by blast
  obtain as2 rs2 where run: "comm_run ml (map (\<lambda>(k1, k2, tx, others). (k1, k2, Recv_Text tx, True, others)) ps) t1 c1
      = Inr (r, as2, rs2, c')" and eq: "as = as1 @ as2" "rs = rs1 @ rs2"
    using rest a(1) by (auto simp: rbind_eq_Inr)
  have "state (service_info (vm t1)) = ACTIVE" using Cons.prems(2) a(2) by (simp add: same_machine_def)
  from Cons.IH [OF run this] show ?case
    using a(3,4) request_same [OF a(2), of REJ] by (auto simp: eq)
qed simp

section \<open>The machine's side\<close>

lemma command_byte_rejuvenate: "hd (command_text cmd @ s) = char_of (2 :: nat) \<longleftrightarrow> cmd = REJUVENATE"
  by (cases cmd) (simp_all add: command_text_def)

lemma machine_obeys:
  assumes "client_loop (map (\<lambda>(junk, m, cmd). (junk, m, True, Command (command_text cmd))) rounds) = Inr (st, as)"
    and "length (sent_texts as) = length rounds"
  shows "st = (if REJUVENATE \<in> set (map (\<lambda>(junk, m, cmd). cmd) rounds) then Rebooting else Running)
    \<and> REJUVENATE \<notin> set (butlast (map (\<lambda>(junk, m, cmd). cmd) rounds))"
  using assms
proof (induction rounds arbitrary: as)
  case (Cons p rounds)
  obtain junk m cmd where p: "p = (junk, m, cmd)" by (cases p)
  show ?case
  proof (cases "cmd = REJUVENATE")
    case True
    then have "st = Rebooting" "length (sent_texts as) = 1"
      using Cons.prems(1) by (auto simp: p client_pass_def rbind_eq_Inr command_byte_rejuvenate)
    then show ?thesis using Cons.prems(2) True by (simp add: p)
  next
    case False
    then obtain tx as' where "client_loop (map (\<lambda>(junk, m, cmd). (junk, m, True, Command (command_text cmd))) rounds) = Inr (st, as')"
        "as = Sent_Features tx # as'"
      using Cons.prems(1) by (auto simp: p client_pass_def rbind_eq_Inr command_byte_rejuvenate)
    then show ?thesis using Cons.IH [of as'] Cons.prems(2) False by (auto simp: p)
  qed
qed simp

lemma count_last:
  assumes "x \<notin> set (butlast xs)"
  shows "count_list xs x = (if x \<in> set xs then 1 else 0)"
proof (cases xs rule: rev_cases)
  case (snoc ys y)
  then show ?thesis using assms by (auto simp: count_notin)
qed simp

text \<open>
  C14. What the controller decides is what the machine does. On a connection that works, with the
  thread receiving the texts the machine sends and the machine the commands the thread sends, every
  text is answered with one command, the machine reboots exactly when the last of them is to
  rejuvenate, and the load balancer gets the one request \<open>REJ\<close> for the machine exactly then.
\<close>

theorem command_obeyed:
  assumes "state (service_info (vm t)) = ACTIVE"
    and "comm_run ml (map (\<lambda>(k1, k2, tx, others). (k1, k2, Recv_Text tx, True, others)) ps) t c = Inr (r, acts, rs, c')"
    and "client_loop (map (\<lambda>(junk, m, cmd). (junk, m, True, Command (command_text cmd))) rounds) = Inr (st, as)"
    and "map (\<lambda>(k1, k2, tx, others). tx) ps = sent_texts as"
    and "map (\<lambda>(junk, m, cmd). cmd) rounds = sent_commands acts"
  shows "length (sent_commands acts) = length (sent_texts as)
    \<and> st = (if REJUVENATE \<in> set (sent_commands acts) then Rebooting else Running)
    \<and> REJUVENATE \<notin> set (butlast (sent_commands acts))
    \<and> rs = (if st = Rebooting then [posted_request REJ (vm t)] else [])"
proof -
  note a = thread_answers [OF assms(2,1)]
  have l: "length (sent_commands acts) = length (sent_texts as)"
    using a arg_cong [OF assms(4), of length] by simp
  moreover have "length rounds = length (sent_commands acts)" using arg_cong [OF assms(5), of length] by simp
  ultimately have "length (sent_texts as) = length rounds" by simp
  note m = machine_obeys [OF assms(3) this, unfolded assms(5)]
  then have "rs = (if REJUVENATE \<in> set (sent_commands acts) then [posted_request REJ (vm t)] else [])"
    using a count_last [of REJUVENATE "sent_commands acts"] by simp
  then show ?thesis using l m by simp
qed

theorem command_obeyed_witness:
  "\<exists>tx as c'. comm_run 1 [(zero_slopes, zero_slopes, Recv_Text tx, True, \<lambda>c. c)] example_comm example_ctl
      = Inr (Some example_comm, [Send_Command 5 REJUVENATE], [posted_request REJ (vm example_comm)], c')
    \<and> client_loop [([], example_monitor, True, Command (command_text REJUVENATE))] = Inr (Rebooting, as)"
proof -
  have "read_stat (m_stat1 example_monitor) = Inr [10, 0, 10, 80, 0, 0, 0, 0, 0, 0]"
    "read_stat (m_stat2 example_monitor) = Inr [20, 0, 20, 160, 0, 0, 0, 0, 0, 0]" by code_simp+
  then obtain tx where tx: "get_features [] example_monitor = Inr tx"
    by (simp add: get_features_def example_monitor_def example_meminfo_read)
  obtain m c' as where run: "comm_run 1 (map (\<lambda>(k1, k2, tx, others). (k1, k2, Recv_Text tx, True, others))
        [(zero_slopes, zero_slopes, tx, \<lambda>c. c)]) example_comm example_ctl
      = Inr (Some example_comm, as, [posted_request REJ (vm example_comm)], c')" "as = [Send_Command 5 REJUVENATE]"
    by (simp add: comm_pass.simps Let_def predict_def store_rate_def example_room example_soon switch_off_def
        switch_active_machine_def)
  obtain st as' where cl: "client_loop (map (\<lambda>(junk, m, cmd). (junk, m, True, Command (command_text cmd)))
        [([], example_monitor, REJUVENATE)]) = Inr (st, as')" "sent_texts as' = [tx]"
    using tx by (simp add: client_pass_def command_byte_rejuvenate)
  have "st = Rebooting"
    using command_obeyed [OF _ run(1) cl(1)] run(2) cl(2) by simp
  then show ?thesis using run cl(1) by auto
qed

end
